(* ===== verification/Prelude.thy ===== *)
theory Prelude
  imports Main "HOL-Library.Word"
begin

text \<open>
  What every component of the QDB development shares: the machine types of the C code, its
  return codes, the limits of the public header, and the generic lemmas on byte lists (slices
  and in-place writes) and words that carry the component proofs.  Return codes are the
  \<^typ>\<open>int\<close> values of \<^verbatim>\<open>include/qdb.h\<close>; integers keep their C width.
\<close>

unbundle bit_operations_syntax

named_theorems qdb_eval \<open>equations that evaluate the model on concrete inputs\<close>
named_theorems slice_simps \<open>lengths and slices of byte lists\<close>

section \<open>Machine types\<close>

type_synonym u8 = "8 word"
type_synonym u16 = "16 word"
type_synonym u32 = "32 word"
type_synonym u64 = "64 word"
type_synonym bytes = "u8 list"

section \<open>Return codes and limits of the public header\<close>

abbreviation (input) QDB_OK :: int where "QDB_OK \<equiv> 0"
abbreviation (input) QDB_ERR_IO :: int where "QDB_ERR_IO \<equiv> -1"
abbreviation (input) QDB_ERR_CORRUPT :: int where "QDB_ERR_CORRUPT \<equiv> -2"
abbreviation (input) QDB_ERR_INVAL :: int where "QDB_ERR_INVAL \<equiv> -3"
abbreviation (input) QDB_ERR_EMPTY :: int where "QDB_ERR_EMPTY \<equiv> -4"
abbreviation (input) QDB_ERR_NOENT :: int where "QDB_ERR_NOENT \<equiv> -5"
abbreviation (input) QDB_ERR_NOMEM :: int where "QDB_ERR_NOMEM \<equiv> -6"
abbreviation (input) QDB_ERR_LOCKED :: int where "QDB_ERR_LOCKED \<equiv> -7"

abbreviation (input) QDB_QUEUE_NAME_MAX :: nat where "QDB_QUEUE_NAME_MAX \<equiv> 255"
abbreviation (input) QDB_MSG_MAX_LEN :: nat where "QDB_MSG_MAX_LEN \<equiv> 64 * 1024 * 1024"

section \<open>Slices and in-place writes of byte lists\<close>

text \<open>\<open>slice d off n\<close> is the \<open>n\<close> bytes of \<open>d\<close> from \<open>off\<close> on, fewer at the end of \<open>d\<close>.\<close>

definition slice :: "'a list \<Rightarrow> nat \<Rightarrow> nat \<Rightarrow> 'a list" where
  "slice d off n = take n (drop off d)"

text \<open>
  \<open>splice d off buf\<close> overwrites \<open>d\<close> from \<open>off\<close> on with \<open>buf\<close>; a gap past the end of \<open>d\<close> is
  filled with zeros, as a file write past the end leaves a hole.
\<close>

definition splice :: "bytes \<Rightarrow> nat \<Rightarrow> bytes \<Rightarrow> bytes" where
  "splice d off buf =
     (if buf = [] then d
      else take off (d @ replicate (off - length d) 0) @ buf @ drop (off + length buf) d)"

lemma length_slice [simp, slice_simps]: "length (slice d off n) = min n (length d - off)"
  by (simp add: slice_def min.commute)

lemma slice_full: "off + n \<le> length d \<Longrightarrow> length (slice d off n) = n"
  by simp

lemma slice_0 [simp]: "slice d off 0 = []"
  by (simp add: slice_def)

lemma slice_append_left: "off + n \<le> length a \<Longrightarrow> slice (a @ b) off n = slice a off n"
  by (simp add: slice_def)

lemma slice_append_right: "length a \<le> off \<Longrightarrow> slice (a @ b) off n = slice b (off - length a) n"
  by (simp add: slice_def)

lemma slice_exact: "length b = n \<Longrightarrow> slice (a @ b @ c) (length a) n = b"
  by (simp add: slice_def)

lemma slice_add: "slice d off (m + n) = slice d off m @ slice d (off + m) n"
  by (simp add: slice_def take_add add.commute)

lemma slice_slice: "i + n \<le> m \<Longrightarrow> slice (slice d off m) i n = slice d (off + i) n"
  by (simp add: slice_def drop_take add.commute)

lemma slice_take: "off + n \<le> k \<Longrightarrow> slice (take k d) off n = slice d off n"
  by (simp add: slice_def drop_take)

lemma slice_eq_take: "slice d 0 n = take n d"
  by (simp add: slice_def)

lemma take_slice: "take n d @ slice d n m = take (n + m) d"
  by (simp add: slice_def take_add)

lemma slice_eq_full: "off + n = length d \<Longrightarrow> slice d off n = drop off d"
  by (simp add: slice_def)

lemma slice_self: "xs = slice d off m \<Longrightarrow> xs = slice d off (length xs)"
  by (auto simp: slice_def min_def)

lemma splice_Nil [simp]: "splice d off [] = d"
  by (simp add: splice_def)

lemma length_splice [simp, slice_simps]:
  "length (splice d off buf) = (if buf = [] then length d else max (length d) (off + length buf))"
  by (auto simp: splice_def)

lemma splice_within:
  "off \<le> length d \<Longrightarrow> splice d off buf = take off d @ buf @ drop (off + length buf) d"
  by (auto simp: splice_def)

lemma take_splice: "k \<le> off \<Longrightarrow> k \<le> length d \<Longrightarrow> take k (splice d off buf) = take k d"
  by (auto simp: splice_def min_def)

lemma slice_splice_before:
  "i + n \<le> off \<Longrightarrow> i + n \<le> length d \<Longrightarrow> slice (splice d off buf) i n = slice d i n"
  by (metis slice_take take_splice order_refl)

lemma slice_splice_same:
  assumes "off \<le> length d" and "n = length buf"
  shows "slice (splice d off buf) off n = buf"
  using assms by (simp add: splice_within slice_def)

lemma slice_splice_after:
  assumes "off + length buf \<le> i" and "off \<le> length d"
  shows "slice (splice d off buf) i n = slice d i n"
proof -
  have "drop i (take off d @ buf @ drop (off + length buf) d) = drop i d"
    using assms by (simp add: drop_append)
  then show ?thesis using assms(2) by (simp add: splice_within slice_def)
qed

lemma splice_splice:
  assumes "off \<le> length d"
  shows "splice (splice d off a) (off + length a) b = splice d off (a @ b)"
proof -
  have "off + length a \<le> length (splice d off a)" using assms by simp
  then have "splice (splice d off a) (off + length a) b
      = take (off + length a) (splice d off a) @ b @ drop (off + length a + length b) (splice d off a)"
    by (rule splice_within)
  moreover have "take (off + length a) (splice d off a) = take off d @ a"
    using assms by (simp add: splice_within)
  moreover have "drop (off + length a + length b) (splice d off a) = drop (off + length a + length b) d"
    using assms by (simp add: splice_within) (simp add: ac_simps)
  ultimately show ?thesis using assms by (simp add: splice_within ac_simps)
qed

lemma splice_take_drop:
  "off \<le> length d \<Longrightarrow> splice (splice d off (take k b)) (off + length (take k b)) (drop k b) = splice d off b"
  by (simp only: splice_splice append_take_drop_id)

lemma splice_app: "off = length a \<Longrightarrow> splice (a @ r) off b = (a @ b) @ drop (length b) r"
  by (simp add: splice_within)

section \<open>Words\<close>

lemma unat_u64_lt: "unat (x :: u64) < 2 ^ 64"
  using unsigned_less [of x] by simp

lemma unat_u32_lt: "unat (x :: u32) < 2 ^ 32"
  using unsigned_less [of x] by simp

lemma unat_u8_lt: "unat (x :: u8) < 256"
  using unsigned_less [of x] by simp

lemma unat_ucast_up_u8_u64 [simp]: "unat (ucast (x :: u8) :: u64) = unat x"
  by (simp add: unsigned_ucast_eq take_bit_nat_eq_self_iff less_trans [OF unat_u8_lt] less_trans [OF unat_u32_lt])

lemma unat_ucast_up_u8_u32 [simp]: "unat (ucast (x :: u8) :: u32) = unat x"
  by (simp add: unsigned_ucast_eq take_bit_nat_eq_self_iff less_trans [OF unat_u8_lt] less_trans [OF unat_u32_lt])

lemma unat_ucast_up_u32_u64 [simp]: "unat (ucast (x :: u32) :: u64) = unat x"
  by (simp add: unsigned_ucast_eq take_bit_nat_eq_self_iff less_trans [OF unat_u8_lt] less_trans [OF unat_u32_lt])

lemma unat_add_u64: "unat (x :: u64) + unat y < 2 ^ 64 \<Longrightarrow> unat (x + y) = unat x + unat y"
  by (simp add: unat_word_ariths)

lemma unat_of_nat_u64: "n < 2 ^ 64 \<Longrightarrow> unat (of_nat n :: u64) = n"
  by (simp add: unat_of_nat)

lemma unat_of_nat_u32: "n < 2 ^ 32 \<Longrightarrow> unat (of_nat n :: u32) = n"
  by (simp add: unat_of_nat)

lemma word_succ_greater: "x + 1 \<noteq> 0 \<Longrightarrow> x < x + 1" for x :: "'a::len word"
  by (cases "x = - 1") (auto simp: not_le [symmetric] inc_less_eq_triv_imp)

end
