(* ===== verification/Crc32.thy ===== *)
theory Crc32
  imports Prelude
begin

text \<open>
  The checksum of \<^verbatim>\<open>src/qdb_crc32.c\<close>: the lookup table built on first use (the two file-scope
  statics are the record \<open>crc_static\<close>), the incremental interface \<open>begin\<close>/\<open>update\<close>/\<open>end\<close>, and
  the one-shot call.  Shown: the table-driven code computes the bit-by-bit CRC-32/ISO-HDLC
  whatever the state of the lazy table; so do chunked updates, whatever the cut; and the checksum
  separates any two inputs that differ inside a window of four bytes.
\<close>

unbundle bit_operations_syntax

section \<open>The code\<close>

record crc_static =
  s_table :: "u32 list"
  s_table_ready :: bool

definition crc_static_init :: crc_static where
  "crc_static_init = \<lparr>s_table = replicate 256 0, s_table_ready = False\<rparr>"

text \<open>One turn of the inner loop of \<open>table_init\<close>, and its eight turns.\<close>

definition table_bit :: "u32 \<Rightarrow> u32" where
  "table_bit v = (if v AND 1 \<noteq> 0 then drop_bit 1 v XOR 0xEDB88320 else drop_bit 1 v)"

primrec table_bits :: "nat \<Rightarrow> u32 \<Rightarrow> u32" where
  "table_bits 0 v = v"
| "table_bits (Suc b) v = table_bits b (table_bit v)"

definition table_init :: "crc_static \<Rightarrow> crc_static" where
  "table_init s =
     \<lparr>s_table = foldl (\<lambda>t i. t[i := table_bits 8 (of_nat i)]) (s_table s) [0..<256],
      s_table_ready = True\<rparr>"

definition qdb__crc32_begin :: "crc_static \<Rightarrow> u32 \<times> crc_static" where
  "qdb__crc32_begin s = (0xFFFFFFFF, if \<not> s_table_ready s then table_init s else s)"

text \<open>\<open>None\<close> is a NULL data pointer; \<open>Some d\<close> points at the bytes \<open>d\<close>, of which \<open>len\<close> are read.\<close>

definition qdb__crc32_update :: "crc_static \<Rightarrow> u32 \<Rightarrow> bytes option \<Rightarrow> nat \<Rightarrow> u32" where
  "qdb__crc32_update s state data len =
     (case data of
        None \<Rightarrow> state
      | Some p \<Rightarrow>
          if len = 0 then state
          else foldl (\<lambda>state b. drop_bit 8 state XOR
                        s_table s ! unat ((state XOR ucast b) AND 0xFF)) state (take len p))"

definition qdb__crc32_end :: "u32 \<Rightarrow> u32" where
  "qdb__crc32_end state = state XOR 0xFFFFFFFF"

definition qdb__crc32 :: "crc_static \<Rightarrow> bytes option \<Rightarrow> nat \<Rightarrow> u32 \<times> crc_static" where
  "qdb__crc32 s data len =
     (let (state, s1) = qdb__crc32_begin s
      in (qdb__crc32_end (qdb__crc32_update s1 state data len), s1))"

section \<open>The bit-by-bit reference\<close>

text \<open>
  CRC-32/ISO-HDLC without a table: XOR the byte into the low end, then shift out eight bits,
  adding the reflected polynomial for each one bit that leaves.
\<close>

definition crc_byte :: "u8 \<Rightarrow> u32 \<Rightarrow> u32" where
  "crc_byte b state = table_bits 8 (state XOR ucast b)"

definition crc32 :: "bytes \<Rightarrow> u32" where
  "crc32 d = fold crc_byte d 0xFFFFFFFF XOR 0xFFFFFFFF"

text \<open>
  A static the program can be in: never initialised, or holding the finished table.
\<close>

definition crc_static_ok :: "crc_static \<Rightarrow> bool" where
  "crc_static_ok s \<longleftrightarrow> length (s_table s) = 256 \<and>
     (s_table_ready s \<longrightarrow> s_table s = map (\<lambda>i. table_bits 8 (of_nat i)) [0..<256])"

section \<open>The shift register is linear and injective\<close>

lemma table_bit_alt: "table_bit v = drop_bit 1 v XOR (if bit v 0 then 0xEDB88320 else 0)"
  by (simp add: table_bit_def and_one_eq bit_0 odd_iff_mod_2_eq_one)

lemma table_bit_xor: "table_bit (a XOR b) = table_bit a XOR table_bit b"
  by (auto simp: table_bit_alt bit_xor_iff ac_simps)

lemma table_bits_xor: "table_bits n (a XOR b) = table_bits n a XOR table_bits n b"
  by (induction n arbitrary: a b) (simp_all add: table_bit_xor)

lemma table_bits_add: "table_bits (m + n) v = table_bits n (table_bits m v)"
  by (induction m arbitrary: v) simp_all

lemma table_bits_shift: "\<forall>i<n. \<not> bit v i \<Longrightarrow> table_bits n v = drop_bit n v"
proof (induction n arbitrary: v)
  case (Suc n)
  from Suc.prems have "table_bit v = drop_bit 1 v" by (simp add: table_bit_alt)
  moreover have "\<forall>i<n. \<not> bit (drop_bit 1 v) i"
    using Suc.prems by (auto simp: bit_drop_bit_eq)
  ultimately show ?case using Suc.IH by simp
qed simp

lemma table_bit_top: "bit (table_bit v) 31 = bit v 0"
proof -
  have "\<not> bit (drop_bit 1 v) 31"
    using bit_imp_le_length [of v 32] by (auto simp: bit_drop_bit_eq)
  then show ?thesis by (simp add: table_bit_alt bit_xor_iff)
qed

lemma table_bit_eq_0: "table_bit v = 0 \<Longrightarrow> v = 0"
proof -
  assume z: "table_bit v = 0"
  then have b0: "\<not> bit v 0" using table_bit_top [of v] by simp
  with z have d: "drop_bit 1 v = 0" by (simp add: table_bit_alt)
  have "\<not> bit v n" for n
  proof (cases n)
    case 0
    with b0 show ?thesis by simp
  next
    case (Suc k)
    have "\<not> bit (drop_bit 1 v) k" by (simp only: d) simp
    with Suc show ?thesis by (simp add: bit_drop_bit_eq)
  qed
  then show "v = 0" by (simp add: bit_eq_iff)
qed

lemma table_bits_eq_0: "table_bits n v = 0 \<Longrightarrow> v = 0"
  by (induction n arbitrary: v) (auto dest: table_bit_eq_0)

lemma xor_eq_0_iff: "(a :: u32) XOR b = 0 \<longleftrightarrow> a = b"
  by (auto simp: bit_eq_iff bit_xor_iff)

lemma table_bits_inj: "table_bits n a = table_bits n b \<longleftrightarrow> a = b"
proof
  assume "table_bits n a = table_bits n b"
  then have "table_bits n (a XOR b) = 0" by (simp add: table_bits_xor)
  then show "a = b" by (auto dest: table_bits_eq_0 simp: xor_eq_0_iff)
qed simp

lemma xor_left_cancel_u32: "(s :: u32) XOR a = s XOR b \<longleftrightarrow> a = b"
  by (metis xor.left_commute xor.right_neutral xor_self_eq)

section \<open>Table lookup is one byte of the reference\<close>

lemma crc_byte_table:
  "crc_byte b state = drop_bit 8 state XOR table_bits 8 ((state XOR ucast b) AND 0xFF)"
proof -
  let ?x = "state XOR ucast b"
  have split: "?x = (?x AND NOT 0xFF) XOR (?x AND 0xFF)"
    by (auto simp: bit_eq_iff bit_simps)
  have low: "\<forall>i<8. \<not> bit (?x AND NOT 0xFF) i"
  proof (intro allI impI)
    fix i :: nat assume "i < 8"
    then have "bit (0xFF :: u32) i" by (simp add: numeral_eq_Suc less_Suc_eq bit_simps) auto
    then show "\<not> bit (?x AND NOT 0xFF) i" by (simp add: bit_simps)
  qed
  have "table_bits 8 (?x AND NOT 0xFF) = drop_bit 8 (?x AND NOT 0xFF)"
    by (rule table_bits_shift [OF low])
  also have "\<dots> = drop_bit 8 state"
  proof (rule bit_word_eqI)
    fix n assume "n < LENGTH(32)"
    have "\<not> bit (0xFF :: u32) (8 + n)"
    proof -
      have "(0xFF :: u32) = mask 8" by (simp add: mask_eq_exp_minus_1)
      then show ?thesis by (simp only: bit_mask_iff) simp
    qed
    moreover have "\<not> bit (ucast b :: u32) (8 + n)"
      using bit_imp_le_length [of b "8 + n"] by (auto simp: bit_ucast_iff)
    ultimately show "bit (drop_bit 8 (?x AND NOT 0xFF)) n = bit (drop_bit 8 state) n"
      by (auto simp only: bit_drop_bit_eq o_apply bit_and_iff bit_not_iff bit_xor_iff
          dest: bit_imp_possible_bit)
  qed
  finally show ?thesis
    unfolding crc_byte_def by (subst split) (simp add: table_bits_xor)
qed

lemma and_0xFF_bound: "unat ((x :: u32) AND 0xFF) < 256"
proof -
  have "x AND 0xFF = take_bit 8 x" by (simp add: take_bit_eq_mask mask_eq_exp_minus_1)
  then show ?thesis using take_bit_nat_less_exp [of 8 "unat x"] by (simp add: unsigned_take_bit_eq)
qed

lemma foldl_table:
  "n \<le> length t \<Longrightarrow>
   foldl (\<lambda>t i. t[i := f i]) t [0..<n] = map f [0..<n] @ drop n t"
proof (induction n)
  case (Suc n)
  then have "foldl (\<lambda>t i. t[i := f i]) t [0..<Suc n] = (map f [0..<n] @ drop n t)[n := f n]"
    by simp
  also have "\<dots> = map f [0..<n] @ (drop n t)[0 := f n]"
    by (simp add: list_update_append)
  also have "(drop n t)[0 := f n] = f n # drop (Suc n) t"
    using Suc.prems by (simp add: Cons_nth_drop_Suc [symmetric])
  finally show ?case by simp
qed simp

lemma table_init_ok:
  "length (s_table s) = 256 \<Longrightarrow>
   s_table (table_init s) = map (\<lambda>i. table_bits 8 (of_nat i)) [0..<256]"
  using foldl_table [of 256 "s_table s"] by (simp add: table_init_def del: upt_rec_numeral)

lemma begin_ok:
  assumes "crc_static_ok s" and "qdb__crc32_begin s = (state, s1)"
  shows "state = 0xFFFFFFFF" "crc_static_ok s1" "s_table_ready s1"
    "s_table s1 = map (\<lambda>i. table_bits 8 (of_nat i)) [0..<256]"
  using assms table_init_ok [of s]
  by (auto simp: qdb__crc32_begin_def crc_static_ok_def table_init_def simp del: upt_rec_numeral
      split: if_splits)

lemma update_ref:
  assumes t: "s_table s = map (\<lambda>i. table_bits 8 (of_nat i)) [0..<256]"
  shows "qdb__crc32_update s state (Some d) len = fold crc_byte (take len d) state"
proof -
  have step: "drop_bit 8 st XOR s_table s ! unat ((st XOR ucast b) AND 0xFF) = crc_byte b st" for st b
    using and_0xFF_bound by (simp add: t crc_byte_table del: upt_rec_numeral)
  have "foldl (\<lambda>st b. drop_bit 8 st XOR s_table s ! unat ((st XOR ucast b) AND 0xFF)) st xs
      = fold crc_byte xs st" for st xs
    by (simp only: step foldl_conv_fold)
  then show ?thesis by (simp add: qdb__crc32_update_def)
qed

section \<open>Evaluation\<close>

lemma table_bits_8 [qdb_eval]:
  "table_bits 8 v = table_bit (table_bit (table_bit (table_bit
     (table_bit (table_bit (table_bit (table_bit v)))))))"
  by (simp add: numeral_eq_Suc)

lemmas crc_eval [qdb_eval] = crc32_def crc_byte_def table_bit_def

section \<open>Correctness of the table-driven code\<close>

lemma crc32_value:
  assumes "crc_static_ok s"
  shows "fst (qdb__crc32 s (Some d) len) = crc32 (take len d)"
proof -
  obtain state s1 where b: "qdb__crc32_begin s = (state, s1)" by fastforce
  note ok = begin_ok [OF assms b]
  show ?thesis
    by (simp add: qdb__crc32_def b update_ref [OF ok(4)] ok(1) qdb__crc32_end_def crc32_def)
qed

text \<open>
  Theorem C35.  Whether or not the lazy table has been built, the one-shot call returns the
  bit-by-bit CRC-32 of the bytes it is given, and leaves the static well formed and ready.
\<close>

theorem crc32_table_driven:
  assumes "crc_static_ok s"
  shows "fst (qdb__crc32 s (Some d) len) = crc32 (take len d) \<and>
     crc_static_ok (snd (qdb__crc32 s (Some d) len)) \<and>
     s_table_ready (snd (qdb__crc32 s (Some d) len))"
proof -
  obtain state s1 where b: "qdb__crc32_begin s = (state, s1)" by fastforce
  note ok = begin_ok [OF assms b]
  with crc32_value [OF assms] show ?thesis by (simp add: qdb__crc32_def b)
qed

theorem crc32_table_driven_witness:
  "crc_static_ok crc_static_init \<and>
   fst (qdb__crc32 crc_static_init (Some [0x31, 0x32, 0x33, 0x34, 0x35, 0x36, 0x37, 0x38, 0x39]) 9)
     = 0xCBF43926"
proof -
  have ok: "crc_static_ok crc_static_init"
    by (simp add: crc_static_ok_def crc_static_init_def)
  show ?thesis
    using ok crc32_table_driven [OF ok, of "[0x31, 0x32, 0x33, 0x34, 0x35, 0x36, 0x37, 0x38, 0x39]" 9]
    by (simp add: qdb_eval)
qed

text \<open>
  The two calls the record layer makes, on the static of a fresh process: the one-shot checksum of a
  buffer, and an update of a running state after \<open>begin\<close>.
\<close>

definition crc_of :: "bytes \<Rightarrow> u32" where
  "crc_of d = fst (qdb__crc32 crc_static_init (Some d) (length d))"

definition crc_update :: "u32 \<Rightarrow> bytes \<Rightarrow> u32" where
  "crc_update state d =
     qdb__crc32_update (snd (qdb__crc32_begin crc_static_init)) state (Some d) (length d)"

lemma crc_static_init_ok: "crc_static_ok crc_static_init"
  by (simp add: crc_static_ok_def crc_static_init_def)

lemma crc_of_eq [simp, qdb_eval]: "crc_of d = crc32 d"
  by (simp add: crc_of_def crc32_value [OF crc_static_init_ok])

lemma crc_update_eq [simp, qdb_eval]: "crc_update state d = fold crc_byte d state"
proof -
  obtain st s1 where b: "qdb__crc32_begin crc_static_init = (st, s1)" by fastforce
  show ?thesis
    using update_ref [OF begin_ok(4) [OF crc_static_init_ok b]] by (simp add: crc_update_def b)
qed

section \<open>What the checksum detects\<close>

text \<open>The first four bytes of an input as one little-endian register value.\<close>

fun le_word :: "bytes \<Rightarrow> u32" where
  "le_word [] = 0"
| "le_word (b # bs) = ucast b XOR push_bit 8 (le_word bs)"

lemma bit_le_word_bound: "bit (le_word bs) n \<Longrightarrow> n < 8 * length bs"
proof (induction bs arbitrary: n)
  case (Cons b bs)
  show ?case
  proof (cases "n < 8")
    case False
    then have "\<not> bit (ucast b :: u32) n"
      using bit_imp_le_length [of b n] by (auto simp: bit_ucast_iff)
    with Cons.prems have "bit (push_bit 8 (le_word bs)) n" by (simp add: bit_xor_iff)
    then have "bit (le_word bs) (n - 8)" by (simp add: bit_push_bit_iff)
    then show ?thesis using Cons.IH False by fastforce
  qed simp
qed simp

lemma table_bits_le_word:
  assumes "length bs \<le> 3"
  shows "table_bits 8 (push_bit 8 (le_word bs)) = le_word bs"
proof -
  have "table_bits 8 (push_bit 8 (le_word bs)) = drop_bit 8 (push_bit 8 (le_word bs))"
    by (rule table_bits_shift) (simp add: bit_push_bit_iff)
  also have "\<dots> = le_word bs"
  proof (rule bit_word_eqI)
    fix n assume "n < LENGTH(32)"
    show "bit (drop_bit 8 (push_bit 8 (le_word bs))) n = bit (le_word bs) n"
      using bit_le_word_bound [of bs n] assms
      by (auto simp: bit_drop_bit_eq bit_push_bit_iff)
  qed
  finally show ?thesis .
qed

lemma fold_crc_byte_word:
  "length bs \<le> 4 \<Longrightarrow> fold crc_byte bs s = table_bits (8 * length bs) (s XOR le_word bs)"
proof (induction bs arbitrary: s)
  case (Cons b bs)
  then have "fold crc_byte (b # bs) s = table_bits (8 * length bs) (crc_byte b s XOR le_word bs)"
    by simp
  also have "crc_byte b s XOR le_word bs = table_bits 8 (s XOR le_word (b # bs))"
    using table_bits_le_word [of bs] Cons.prems
    by (simp add: crc_byte_def table_bits_xor ac_simps)
  finally show ?case by (simp add: table_bits_add [symmetric] add.commute)
qed simp

lemma le_word_inj:
  "length bs = length cs \<Longrightarrow> length bs \<le> 4 \<Longrightarrow> le_word bs = le_word cs \<Longrightarrow> bs = cs"
proof (induction bs cs rule: list_induct2)
  case (Cons b bs c cs)
  have low: "bit (ucast x XOR push_bit 8 y :: u32) n = bit x n" if "n < 8" for x :: u8 and y :: u32 and n
    using that by (auto simp: bit_xor_iff bit_ucast_iff bit_push_bit_iff)
  have "bit b n = bit c n" if "n < LENGTH(8)" for n
    using low [of n b "le_word bs"] low [of n c "le_word cs"] Cons.prems that by simp
  then have "b = c" by (rule bit_word_eqI)
  with Cons.prems have "push_bit 8 (le_word bs) = push_bit 8 (le_word cs)"
    by (simp add: xor_left_cancel_u32)
  then have "table_bits 8 (push_bit 8 (le_word bs)) = table_bits 8 (push_bit 8 (le_word cs))"
    by simp
  with Cons show ?case using \<open>b = c\<close>
    by (simp add: table_bits_le_word)
qed simp

lemma crc_byte_inj: "crc_byte b s = crc_byte b t \<longleftrightarrow> s = t"
  by (metis crc_byte_def table_bits_inj xor.commute xor_left_cancel_u32)

lemma fold_crc_byte_inj: "fold crc_byte d s = fold crc_byte d t \<longleftrightarrow> s = t"
  by (induction d arbitrary: s t) (simp_all add: crc_byte_inj)

lemma crc32_eq_iff: "crc32 a = crc32 b \<longleftrightarrow> fold crc_byte a 0xFFFFFFFF = fold crc_byte b 0xFFFFFFFF"
  unfolding crc32_def by (metis xor.commute xor_left_cancel_u32)

text \<open>
  Theorem C36.  Two payloads of the same length that differ only inside a window of at most four
  consecutive bytes always have different checksums: a damaged byte, and any burst of up to 32
  bits, is caught by the CRC comparison of the reader.
\<close>

theorem crc32_detects_burst:
  assumes "length bs = length cs" and "length bs \<le> 4" and "bs \<noteq> cs"
    and "crc_static_ok s"
  shows "fst (qdb__crc32 s (Some (pre @ bs @ post)) (length (pre @ bs @ post)))
       \<noteq> fst (qdb__crc32 s (Some (pre @ cs @ post)) (length (pre @ cs @ post)))"
proof -
  have val: "fst (qdb__crc32 s (Some d) (length d)) = crc32 d" for d
    by (simp add: crc32_value [OF assms(4)])
  let ?s = "fold crc_byte pre 0xFFFFFFFF"
  have "fold crc_byte bs ?s \<noteq> fold crc_byte cs ?s"
    using assms(1-3) le_word_inj [of bs cs]
    by (auto simp: fold_crc_byte_word table_bits_inj xor_left_cancel_u32)
  then have "crc32 (pre @ bs @ post) \<noteq> crc32 (pre @ cs @ post)"
    by (simp add: crc32_eq_iff fold_crc_byte_inj)
  then show ?thesis unfolding val .
qed

theorem crc32_detects_burst_witness:
  "fst (qdb__crc32 crc_static_init (Some ([7] @ [1, 2] @ [9])) (length ([7] @ [1, 2] @ [9 :: u8])))
   \<noteq> fst (qdb__crc32 crc_static_init (Some ([7] @ [1, 3] @ [9])) (length ([7] @ [1, 3] @ [9 :: u8])))"
  by (rule crc32_detects_burst) (simp_all add: crc_static_ok_def crc_static_init_def)

section \<open>Incremental updates\<close>

text \<open>The bytes one call of \<open>update\<close> reads: none through a NULL pointer.\<close>

definition chunk_bytes :: "bytes option \<times> nat \<Rightarrow> bytes" where
  "chunk_bytes c = (case fst c of None \<Rightarrow> [] | Some d \<Rightarrow> take (snd c) d)"

lemma updates_ref:
  assumes t: "s_table s = map (\<lambda>i. table_bits 8 (of_nat i)) [0..<256]"
  shows "foldl (\<lambda>st c. qdb__crc32_update s st (fst c) (snd c)) state cs
       = fold crc_byte (concat (map chunk_bytes cs)) state"
proof (induction cs arbitrary: state)
  case (Cons c cs)
  have "qdb__crc32_update s state (fst c) (snd c) = fold crc_byte (chunk_bytes c) state"
    using update_ref [OF t]
    by (cases "fst c") (simp_all add: chunk_bytes_def qdb__crc32_update_def)
  with Cons.IH show ?case by simp
qed simp

text \<open>
  Theorem C40.  However a payload is cut into pieces, empty pieces and NULL pointers among them,
  \<open>begin\<close>, one \<open>update\<close> for each piece and \<open>end\<close> compute the bit-by-bit CRC-32 of the bytes the
  pieces make up, from either state of the lazy table.
\<close>

theorem crc32_update_chunks:
  assumes "crc_static_ok s" and "qdb__crc32_begin s = (state, s1)"
  shows "qdb__crc32_end (foldl (\<lambda>st c. qdb__crc32_update s1 st (fst c) (snd c)) state cs)
       = crc32 (concat (map chunk_bytes cs))"
proof -
  note ok = begin_ok [OF assms]
  show ?thesis
    by (simp only: updates_ref [OF ok(4)] ok(1) qdb__crc32_end_def crc32_def)
qed

theorem crc32_update_chunks_witness:
  "qdb__crc32_begin crc_static_init = (0xFFFFFFFF, table_init crc_static_init) \<and>
   qdb__crc32_end (foldl (\<lambda>st c. qdb__crc32_update (table_init crc_static_init) st (fst c) (snd c))
     0xFFFFFFFF [(Some [0x31, 0x32, 0x33, 0x34, 0], 4), (None, 7),
       (Some [0x35, 0x36, 0x37, 0x38, 0x39], 5)]) = 0xCBF43926"
proof -
  have ok: "crc_static_ok crc_static_init"
    by (simp add: crc_static_ok_def crc_static_init_def)
  have b: "qdb__crc32_begin crc_static_init = (0xFFFFFFFF, table_init crc_static_init)"
    by (simp add: qdb__crc32_begin_def crc_static_init_def)
  let ?cs = "[(Some [0x31, 0x32, 0x33, 0x34, 0], 4), (None, 7),
      (Some [0x35, 0x36, 0x37, 0x38, 0x39], 5)] :: (bytes option \<times> nat) list"
  have "concat (map chunk_bytes ?cs) = [0x31, 0x32, 0x33, 0x34, 0x35, 0x36, 0x37, 0x38, 0x39]"
    by (simp add: chunk_bytes_def)
  moreover have "crc32 [0x31, 0x32, 0x33, 0x34, 0x35, 0x36, 0x37, 0x38, 0x39] = 0xCBF43926"
    by (simp add: qdb_eval)
  ultimately show ?thesis
    using crc32_update_chunks [OF ok b, of ?cs] b by (simp only: simp_thms)
qed

end
