(* ===== verification/Encoding.thy ===== *)
theory Encoding
  imports Prelude
begin

text \<open>
  The little-endian accessors of \<^verbatim>\<open>src/qdb_internal.h\<close>.  A \<open>get\<close> reads its bytes at the front
  of the list (the C pointer \<open>p\<close>; \<open>p + k\<close> is \<open>drop k\<close>), a \<open>put\<close> is the bytes it stores.  The
  contract every fixed-width field of the file format relies on is the locale \<open>field_codec\<close>, the
  byte order of the format the list \<open>le_digits\<close> of base 256 digits, least significant first;
  the three pairs of accessors are interpretations of it.
\<close>

unbundle bit_operations_syntax

section \<open>The code\<close>

definition qdb__get_u16le :: "bytes \<Rightarrow> u16" where
  "qdb__get_u16le p = ucast (p ! 0) OR push_bit 8 (ucast (p ! 1))"

definition qdb__get_u32le :: "bytes \<Rightarrow> u32" where
  "qdb__get_u32le p =
     ucast (p ! 0) OR push_bit 8 (ucast (p ! 1)) OR push_bit 16 (ucast (p ! 2))
       OR push_bit 24 (ucast (p ! 3))"

definition qdb__get_u64le :: "bytes \<Rightarrow> u64" where
  "qdb__get_u64le p =
     ucast (qdb__get_u32le p) OR push_bit 32 (ucast (qdb__get_u32le (drop 4 p)))"

definition qdb__put_u16le :: "u16 \<Rightarrow> bytes" where
  "qdb__put_u16le v = [ucast (v AND 0xFF), ucast (drop_bit 8 v AND 0xFF)]"

definition qdb__put_u32le :: "u32 \<Rightarrow> bytes" where
  "qdb__put_u32le v =
     [ucast (v AND 0xFF), ucast (drop_bit 8 v AND 0xFF),
      ucast (drop_bit 16 v AND 0xFF), ucast (drop_bit 24 v AND 0xFF)]"

definition qdb__put_u64le :: "u64 \<Rightarrow> bytes" where
  "qdb__put_u64le v =
     qdb__put_u32le (ucast (v AND 0xFFFFFFFF)) @ qdb__put_u32le (ucast (drop_bit 32 v))"

section \<open>The contract of a fixed-width field\<close>

locale field_codec =
  fixes put :: "'a \<Rightarrow> bytes" and get :: "bytes \<Rightarrow> 'a" and width :: nat
  assumes length_put: "length (put v) = width"
    and get_put: "get (put v @ r) = v"
    and put_get: "width \<le> length p \<Longrightarrow> put (get p) = take width p"
begin

lemma get_put_self: "get (put v) = v"
  using get_put [of v "[]"] by simp

lemma put_inj: "put v = put v' \<longleftrightarrow> v = v'"
  by (metis get_put_self)

lemma get_of_slice:
  assumes "slice d off width = put v"
  shows "get (drop off d) = v"
  using assms get_put [of v "drop width (drop off d)"]
  by (metis append_take_drop_id slice_def)

lemma get_prefix: "width \<le> length p \<Longrightarrow> get (p @ q) = get p"
  by (metis append_assoc append_take_drop_id get_put get_put_self put_get)

lemma get_take: "width \<le> n \<Longrightarrow> width \<le> length p \<Longrightarrow> get (take n p) = get p"
  by (metis append_take_drop_id get_prefix length_take min_def)

lemma get_eq_iff: "width \<le> length p \<Longrightarrow> get p = v \<longleftrightarrow> take width p = put v"
  by (metis get_put_self put_get put_inj)

end

section \<open>The accessors meet it\<close>

lemma ucast_low_byte [simp]:
  "(ucast ((v :: u16) AND 0xFF) :: u8) = ucast v"
  "(ucast ((w :: u32) AND 0xFF) :: u8) = ucast w"
proof -
  have m: "(0xFF :: u16) = mask 8" "(0xFF :: u32) = mask 8"
    by (simp_all add: mask_eq_exp_minus_1)
  show "(ucast (v AND 0xFF) :: u8) = ucast v" "(ucast (w AND 0xFF) :: u8) = ucast w"
    unfolding m by (rule bit_word_eqI; auto simp: bit_simps)+
qed

lemma ucast_low_half [simp]: "(ucast ((v :: u64) AND 0xFFFFFFFF) :: u32) = ucast v"
proof -
  have m: "(0xFFFFFFFF :: u64) = mask 32" by (simp add: mask_eq_exp_minus_1)
  show ?thesis unfolding m by (rule bit_word_eqI; auto simp: bit_simps)
qed

lemma bit_u8_lt: "bit (x :: u8) n \<Longrightarrow> n < 8"
  using bit_imp_le_length [of x n] by simp

lemma join_u16: "ucast (ucast v :: u8) OR push_bit 8 (ucast (ucast (drop_bit 8 v) :: u8)) = (v :: u16)"
  by (rule bit_word_eqI) (auto simp: bit_simps not_less le_add_diff_inverse)

lemma join_u32:
  "ucast (ucast v :: u8) OR push_bit 8 (ucast (ucast (drop_bit 8 v) :: u8))
     OR push_bit 16 (ucast (ucast (drop_bit 16 v) :: u8))
     OR push_bit 24 (ucast (ucast (drop_bit 24 v) :: u8)) = (v :: u32)"
  (is "?w = v")
proof (rule bit_word_eqI)
  fix n assume n: "n < LENGTH(32)"
  consider "n < 8" | "8 \<le> n" "n < 16" | "16 \<le> n" "n < 24" | "24 \<le> n" by linarith
  then show "bit ?w n = bit v n"
    using n by cases (auto simp: bit_simps)
qed

lemma join_u64: "ucast (ucast v :: u32) OR push_bit 32 (ucast (ucast (drop_bit 32 v) :: u32)) = (v :: u64)"
  by (rule bit_word_eqI) (auto simp: bit_simps not_less le_add_diff_inverse)

lemma split_u16:
  fixes a b :: u8
  defines "w \<equiv> (ucast a OR push_bit 8 (ucast b) :: u16)"
  shows "(ucast w :: u8) = a" "(ucast (drop_bit 8 w) :: u8) = b"
  unfolding w_def by (rule bit_word_eqI; auto simp: bit_simps dest: bit_u8_lt)+

lemma split_u32:
  fixes a b c d :: u8
  defines "w \<equiv> (ucast a OR push_bit 8 (ucast b) OR push_bit 16 (ucast c) OR push_bit 24 (ucast d) :: u32)"
  shows "(ucast w :: u8) = a" "(ucast (drop_bit 8 w) :: u8) = b"
    "(ucast (drop_bit 16 w) :: u8) = c" "(ucast (drop_bit 24 w) :: u8) = d"
  unfolding w_def by (rule bit_word_eqI; auto simp: bit_simps dest: bit_u8_lt)+

lemma split_u64:
  fixes a b :: u32
  defines "w \<equiv> (ucast a OR push_bit 32 (ucast b) :: u64)"
  shows "(ucast w :: u32) = a" "(ucast (drop_bit 32 w) :: u32) = b"
proof -
  have lt: "bit (x :: u32) n \<Longrightarrow> n < 32" for x n using bit_imp_le_length [of x n] by simp
  show "(ucast w :: u32) = a" "(ucast (drop_bit 32 w) :: u32) = b"
    unfolding w_def by (rule bit_word_eqI; auto simp: bit_simps dest: lt)+
qed

lemma length_ge_2: "2 \<le> length p \<Longrightarrow> \<exists>a b q. p = a # b # q"
  by (auto simp: numeral_eq_Suc Suc_le_length_iff)

lemma length_ge_4: "4 \<le> length p \<Longrightarrow> \<exists>a b c d q. p = a # b # c # d # q"
  by (auto simp: numeral_eq_Suc Suc_le_length_iff)

interpretation u16le: field_codec qdb__put_u16le qdb__get_u16le 2
proof
  fix v :: u16 and r p :: bytes
  show "length (qdb__put_u16le v) = 2" by (simp add: qdb__put_u16le_def)
  show "qdb__get_u16le (qdb__put_u16le v @ r) = v"
    using join_u16 [of v] by (simp add: qdb__put_u16le_def qdb__get_u16le_def)
  assume "2 \<le> length p"
  then obtain a b q where p: "p = a # b # q" using length_ge_2 by blast
  show "qdb__put_u16le (qdb__get_u16le p) = take 2 p"
    unfolding p by (simp add: qdb__put_u16le_def qdb__get_u16le_def split_u16 del: drop_bit_or)
qed

interpretation u32le: field_codec qdb__put_u32le qdb__get_u32le 4
proof
  fix v :: u32 and r p :: bytes
  show "length (qdb__put_u32le v) = 4" by (simp add: qdb__put_u32le_def)
  show "qdb__get_u32le (qdb__put_u32le v @ r) = v"
    using join_u32 [of v] by (simp add: qdb__put_u32le_def qdb__get_u32le_def)
  assume "4 \<le> length p"
  then obtain a b c d q where p: "p = a # b # c # d # q" using length_ge_4 by blast
  show "qdb__put_u32le (qdb__get_u32le p) = take 4 p"
    unfolding p by (simp add: qdb__put_u32le_def qdb__get_u32le_def split_u32 del: drop_bit_or)
qed

interpretation u64le: field_codec qdb__put_u64le qdb__get_u64le 8
proof
  fix v :: u64 and r p :: bytes
  show "length (qdb__put_u64le v) = 8" by (simp add: qdb__put_u64le_def u32le.length_put)
  show "qdb__get_u64le (qdb__put_u64le v @ r) = v"
    using join_u64 [of v]
    by (simp add: qdb__put_u64le_def qdb__get_u64le_def u32le.get_put u32le.length_put)
  assume p: "8 \<le> length p"
  then have "qdb__put_u64le (qdb__get_u64le p) = take 4 p @ take 4 (drop 4 p)"
    by (simp add: qdb__put_u64le_def qdb__get_u64le_def split_u64 u32le.put_get del: drop_bit_or)
  also have "\<dots> = take 8 p" by (simp add: take_add [symmetric])
  finally show "qdb__put_u64le (qdb__get_u64le p) = take 8 p" .
qed

lemmas field_lengths [simp, slice_simps] = u16le.length_put u32le.length_put u64le.length_put

section \<open>Evaluation\<close>

lemmas encoding_eval [qdb_eval] =
  qdb__get_u16le_def qdb__get_u32le_def qdb__get_u64le_def
  qdb__put_u16le_def qdb__put_u32le_def qdb__put_u64le_def

section \<open>Byte order\<close>

definition le_digits :: "nat \<Rightarrow> nat \<Rightarrow> nat list" where
  "le_digits w n = map (\<lambda>i. n div 256 ^ i mod 256) [0..<w]"

lemma le_digits_0 [simp]: "le_digits 0 n = []"
  by (simp add: le_digits_def)

lemma le_digits_Suc: "le_digits (Suc w) n = n mod 256 # le_digits w (n div 256)"
  by (simp add: le_digits_def upt_conv_Cons map_Suc_upt [symmetric] div_mult2_eq o_def
      del: upt_Suc)

lemma le_digits_add: "le_digits (a + b) n = le_digits a n @ le_digits b (n div 256 ^ a)"
  by (induction a arbitrary: n) (simp_all add: le_digits_Suc div_mult2_eq)

lemma mod_div_digit: "n mod (b * c) div b = n div b mod c" for n b c :: nat
  by (cases "b = 0") (simp_all add: mod_mult2_eq)

lemma le_digits_mod: "le_digits a (n mod 256 ^ a) = le_digits a n"
  by (induction a arbitrary: n) (simp_all add: le_digits_Suc mod_div_digit mod_mod_cancel)

lemma unat_digit: "unat (ucast (drop_bit k v :: 'a :: len word) :: u8) = unat v div 2 ^ k mod 256"
  by (simp add: unsigned_ucast_eq take_bit_eq_mod unat_drop_bit_eq drop_bit_eq_div [where 'a = nat])

lemma unat_low_digit: "unat (ucast (v :: 'a :: len word) :: u8) = unat v mod 256"
  using unat_digit [of 0 v] by simp

lemma le_digits_2: "le_digits 2 n = [n mod 256, n div 2 ^ 8 mod 256]"
  using le_digits_Suc [of 1 n] le_digits_Suc [of 0 "n div 256"] by (simp add: numeral_2_eq_2 [symmetric])

lemma le_digits_4:
  "le_digits 4 n = [n mod 256, n div 2 ^ 8 mod 256, n div 2 ^ 16 mod 256, n div 2 ^ 24 mod 256]"
  using le_digits_add [of 2 2 n]
  by (simp only: le_digits_2) (simp add: div_mult2_eq [symmetric])

lemma put_u16le_digits: "map unat (qdb__put_u16le v) = le_digits 2 (unat v)"
  unfolding le_digits_2 qdb__put_u16le_def
  by (simp only: ucast_low_byte unat_digit list.map) (simp only: unat_low_digit)

lemma put_u32le_digits: "map unat (qdb__put_u32le v) = le_digits 4 (unat v)"
  unfolding le_digits_4 qdb__put_u32le_def
  by (simp only: ucast_low_byte unat_digit list.map) (simp only: unat_low_digit)

lemma put_u64le_digits: "map unat (qdb__put_u64le v) = le_digits 8 (unat v)"
proof -
  have lo: "le_digits 4 (unat (ucast v :: u32)) = le_digits 4 (unat v)"
    using le_digits_mod [of 4 "unat v"] by (simp add: unsigned_ucast_eq take_bit_eq_mod)
  have hi: "le_digits 4 (unat (ucast (drop_bit 32 v) :: u32)) = le_digits 4 (unat v div 256 ^ 4)"
    using le_digits_mod [of 4 "unat v div 256 ^ 4"]
    by (simp add: unsigned_ucast_eq take_bit_eq_mod unat_drop_bit_eq drop_bit_eq_div [where 'a = nat])
  show ?thesis
    using le_digits_add [of 4 4 "unat v"] by (simp add: qdb__put_u64le_def put_u32le_digits lo hi)
qed

section \<open>Round trips\<close>

text \<open>
  Theorem C37.  At each of the three widths a stored integer is recovered from its bytes, the bytes
  are recovered from the integer loaded from them, and the bytes stored are the base 256 digits
  of the integer, least significant first.
\<close>

theorem le_fields_round_trip:
  "qdb__get_u16le (qdb__put_u16le v16 @ r) = v16 \<and>
   qdb__get_u32le (qdb__put_u32le v32 @ r) = v32 \<and>
   qdb__get_u64le (qdb__put_u64le v64 @ r) = v64 \<and>
   qdb__put_u16le (qdb__get_u16le (b0 # b1 # r)) = [b0, b1] \<and>
   qdb__put_u32le (qdb__get_u32le (b0 # b1 # b2 # b3 # r)) = [b0, b1, b2, b3] \<and>
   qdb__put_u64le (qdb__get_u64le (b0 # b1 # b2 # b3 # b4 # b5 # b6 # b7 # r))
     = [b0, b1, b2, b3, b4, b5, b6, b7] \<and>
   map unat (qdb__put_u16le v16) = le_digits 2 (unat v16) \<and>
   map unat (qdb__put_u32le v32) = le_digits 4 (unat v32) \<and>
   map unat (qdb__put_u64le v64) = le_digits 8 (unat v64)"
  by (simp add: u16le.get_put u32le.get_put u64le.get_put u16le.put_get u32le.put_get u64le.put_get
      put_u16le_digits put_u32le_digits put_u64le_digits)

end
