(* ===== verification/Platform.thy ===== *)
theory Platform
  imports Prelude
begin

text \<open>
  The POSIX half of \<^verbatim>\<open>src/qdb_platform.c\<close> over a model of the system calls it makes.  The world
  holds the directory, the inodes, the open descriptors and the advisory locks, and two scripts:
  the reply of each coming system call (done in full, done short, or failed with an \<open>errno\<close>) and
  the outcome of each coming heap allocation.  An exhausted script means that everything
  succeeds, so a script is any finite number of interruptions, short transfers and failures, and
  the retry loops of \<open>qdb__pread\<close> and \<open>qdb__pwrite\<close> are total.  An inode keeps, beside its
  contents, the older contents that a crash may bring back: those since the last \<open>fdatasync\<close>.
  Shown: reads return exactly the requested slice or fail and change nothing; writes store a
  prefix of the buffer, all of it when they succeed; a calm script makes both succeed.
\<close>

section \<open>The operating system\<close>

datatype errno = EINTR | EIO | EEXIST | ENOENT | EWOULDBLOCK | EBADF | EINVAL | EFBIG | ENOSPC

datatype sys_reply = Full | Short nat | Fail errno

record inode =
  ino_data :: bytes
  ino_old :: "bytes list"

record world =
  w_dir :: "string \<rightharpoonup> nat"
  w_ino :: "nat \<Rightarrow> inode"
  w_fds :: "int \<rightharpoonup> nat"
  w_lock :: "nat \<rightharpoonup> int"
  w_next_ino :: nat
  w_next_fd :: int
  w_replies :: "sys_reply list"
  w_allocs :: "bool list"
  w_clock :: "(u64 \<times> u64) option"

abbreviation (input) QDB__INVALID_FD :: int where "QDB__INVALID_FD \<equiv> -1"

definition next_reply :: "world \<Rightarrow> sys_reply \<times> world" where
  "next_reply w = (case w_replies w of [] \<Rightarrow> (Full, w) | r # rs \<Rightarrow> (r, w\<lparr>w_replies := rs\<rparr>))"

text \<open>\<open>malloc\<close> and \<open>calloc\<close>: whether the next allocation succeeds.\<close>

definition heap_alloc :: "world \<Rightarrow> bool \<times> world" where
  "heap_alloc w = (case w_allocs w of [] \<Rightarrow> (True, w) | b # bs \<Rightarrow> (b, w\<lparr>w_allocs := bs\<rparr>))"

text \<open>The contents a descriptor reads, and the replacement of contents by an unsynced write.\<close>

definition fdata :: "world \<Rightarrow> int \<Rightarrow> bytes" where
  "fdata w fd = (case w_fds w fd of None \<Rightarrow> [] | Some i \<Rightarrow> ino_data (w_ino w i))"

definition set_data :: "world \<Rightarrow> nat \<Rightarrow> bytes \<Rightarrow> world" where
  "set_data w i d =
     w\<lparr>w_ino := (w_ino w)(i := \<lparr>ino_data = d,
        ino_old = ino_data (w_ino w i) # ino_old (w_ino w i)\<rparr>)\<rparr>"

text \<open>A file offset is a signed 64-bit \<open>off_t\<close>: an offset past \<open>2^63 - 1\<close> is refused.\<close>

definition sys_pread :: "world \<Rightarrow> int \<Rightarrow> nat \<Rightarrow> u64 \<Rightarrow> (errno + bytes) \<times> world" where
  "sys_pread w fd n off =
     (let (r, w1) = next_reply w in
      case w_fds w1 fd of
        None \<Rightarrow> (Inl EBADF, w1)
      | Some i \<Rightarrow>
          (case r of
             Fail e \<Rightarrow> (Inl e, w1)
           | Full \<Rightarrow> if 2 ^ 63 \<le> unat off then (Inl EINVAL, w1)
                     else (Inr (slice (ino_data (w_ino w1 i)) (unat off) n), w1)
           | Short k \<Rightarrow> if 2 ^ 63 \<le> unat off then (Inl EINVAL, w1)
                     else (Inr (slice (ino_data (w_ino w1 i)) (unat off) (min n (max 1 k))), w1)))"

definition sys_pwrite :: "world \<Rightarrow> int \<Rightarrow> bytes \<Rightarrow> u64 \<Rightarrow> (errno + nat) \<times> world" where
  "sys_pwrite w fd buf off =
     (let (r, w1) = next_reply w in
      case w_fds w1 fd of
        None \<Rightarrow> (Inl EBADF, w1)
      | Some i \<Rightarrow>
          (case r of
             Fail e \<Rightarrow> (Inl e, w1)
           | Full \<Rightarrow> if 2 ^ 63 \<le> unat off + length buf then (Inl EFBIG, w1)
                     else (Inr (length buf), set_data w1 i (splice (ino_data (w_ino w1 i)) (unat off) buf))
           | Short k \<Rightarrow> if 2 ^ 63 \<le> unat off + length buf then (Inl EFBIG, w1)
                     else (Inr (min k (length buf)),
                           set_data w1 i (splice (ino_data (w_ino w1 i)) (unat off) (take k buf)))))"

definition sys_fdatasync :: "world \<Rightarrow> int \<Rightarrow> (errno + unit) \<times> world" where
  "sys_fdatasync w fd =
     (let (r, w1) = next_reply w in
      case w_fds w1 fd of
        None \<Rightarrow> (Inl EBADF, w1)
      | Some i \<Rightarrow>
          (case r of
             Fail e \<Rightarrow> (Inl e, w1)
           | _ \<Rightarrow> (Inr (), w1\<lparr>w_ino := (w_ino w1)(i := (w_ino w1 i)\<lparr>ino_old := []\<rparr>)\<rparr>)))"

definition sys_lseek_end :: "world \<Rightarrow> int \<Rightarrow> (errno + u64) \<times> world" where
  "sys_lseek_end w fd =
     (let (r, w1) = next_reply w in
      case w_fds w1 fd of
        None \<Rightarrow> (Inl EBADF, w1)
      | Some i \<Rightarrow>
          (case r of
             Fail e \<Rightarrow> (Inl e, w1)
           | _ \<Rightarrow> (Inr (of_nat (length (ino_data (w_ino w1 i)))), w1)))"

definition sys_ftruncate :: "world \<Rightarrow> int \<Rightarrow> u64 \<Rightarrow> (errno + unit) \<times> world" where
  "sys_ftruncate w fd sz =
     (let (r, w1) = next_reply w in
      case w_fds w1 fd of
        None \<Rightarrow> (Inl EBADF, w1)
      | Some i \<Rightarrow>
          (case r of
             Fail e \<Rightarrow> (Inl e, w1)
           | _ \<Rightarrow> if 2 ^ 63 \<le> unat sz then (Inl EINVAL, w1)
                  else (let d = ino_data (w_ino w1 i) in
                        (Inr (), set_data w1 i
                           (take (unat sz) d @ replicate (unat sz - length d) 0)))))"

definition sys_open :: "world \<Rightarrow> string \<Rightarrow> bool \<Rightarrow> bool \<Rightarrow> (errno + int) \<times> world" where
  "sys_open w path creat excl =
     (let (r, w1) = next_reply w; fd = w_next_fd w1 in
      case r of
        Fail e \<Rightarrow> (Inl e, w1)
      | _ \<Rightarrow>
        (case w_dir w1 path of
           Some i \<Rightarrow>
             if creat \<and> excl then (Inl EEXIST, w1)
             else (Inr fd, w1\<lparr>w_fds := (w_fds w1)(fd \<mapsto> i), w_next_fd := fd + 1\<rparr>)
         | None \<Rightarrow>
             if \<not> creat then (Inl ENOENT, w1)
             else (let i = w_next_ino w1 in
                   (Inr fd, w1\<lparr>w_dir := (w_dir w1)(path \<mapsto> i),
                      w_ino := (w_ino w1)(i := \<lparr>ino_data = [], ino_old = []\<rparr>),
                      w_next_ino := Suc i,
                      w_fds := (w_fds w1)(fd \<mapsto> i), w_next_fd := fd + 1\<rparr>))))"

text \<open>Closing a descriptor also drops the lock taken through it.\<close>

definition drop_lock :: "world \<Rightarrow> int \<Rightarrow> world" where
  "drop_lock w fd = w\<lparr>w_lock := (\<lambda>i. if w_lock w i = Some fd then None else w_lock w i)\<rparr>"

definition sys_close :: "world \<Rightarrow> int \<Rightarrow> world" where
  "sys_close w fd = (drop_lock w fd)\<lparr>w_fds := (w_fds w)(fd := None)\<rparr>"

definition sys_flock :: "world \<Rightarrow> int \<Rightarrow> (errno + unit) \<times> world" where
  "sys_flock w fd =
     (let (r, w1) = next_reply w in
      case w_fds w1 fd of
        None \<Rightarrow> (Inl EBADF, w1)
      | Some i \<Rightarrow>
          (case r of
             Fail e \<Rightarrow> (Inl e, w1)
           | _ \<Rightarrow> (case w_lock w1 i of
                     None \<Rightarrow> (Inr (), w1\<lparr>w_lock := (w_lock w1)(i \<mapsto> fd)\<rparr>)
                   | Some fd' \<Rightarrow> (if fd' = fd then Inr () else Inl EWOULDBLOCK, w1))))"

definition sys_unlink :: "world \<Rightarrow> string \<Rightarrow> (errno + unit) \<times> world" where
  "sys_unlink w path =
     (let (r, w1) = next_reply w in
      case r of
        Fail e \<Rightarrow> (Inl e, w1)
      | _ \<Rightarrow> if w_dir w1 path = None then (Inl ENOENT, w1)
             else (Inr (), w1\<lparr>w_dir := (w_dir w1)(path := None)\<rparr>))"

definition sys_rename :: "world \<Rightarrow> string \<Rightarrow> string \<Rightarrow> (errno + unit) \<times> world" where
  "sys_rename w old new =
     (let (r, w1) = next_reply w in
      case r of
        Fail e \<Rightarrow> (Inl e, w1)
      | _ \<Rightarrow> (case w_dir w1 old of
                None \<Rightarrow> (Inl ENOENT, w1)
              | Some i \<Rightarrow> (Inr (), w1\<lparr>w_dir := ((w_dir w1)(old := None))(new \<mapsto> i)\<rparr>)))"

lemma replies_next_reply:
  "next_reply w = (r, w1) \<Longrightarrow>
   length (w_replies w1) \<le> length (w_replies w) \<and>
   (w_replies w \<noteq> [] \<longrightarrow> length (w_replies w1) < length (w_replies w)) \<and>
   (w_replies w = [] \<longrightarrow> r = Full)"
  by (auto simp: next_reply_def split: list.splits)

lemma pread_replies:
  assumes "sys_pread w fd n off = (res, w1)"
  shows "length (w_replies w1) \<le> length (w_replies w)"
    and "res = Inl EINTR \<Longrightarrow> length (w_replies w1) < length (w_replies w)"
  using assms replies_next_reply [of w]
  by (auto simp: sys_pread_def Let_def split: prod.splits option.splits sys_reply.splits if_splits)

lemma pwrite_replies:
  assumes "sys_pwrite w fd buf off = (res, w1)"
  shows "length (w_replies w1) \<le> length (w_replies w)"
    and "res = Inl EINTR \<Longrightarrow> length (w_replies w1) < length (w_replies w)"
    and "res = Inr n \<Longrightarrow> n \<le> length buf"
  using assms replies_next_reply [of w]
  by (auto simp: sys_pwrite_def set_data_def Let_def
      split: prod.splits option.splits sys_reply.splits if_splits)

section \<open>The platform layer\<close>

text \<open>
  Outputs through pointers are returned beside the code; on an error they keep the caller's
  initial values (\<open>QDB__INVALID_FD\<close> and 0 at every call site).
\<close>

definition file_open_existing :: "world \<Rightarrow> string \<Rightarrow> int \<times> int \<times> bool \<times> world" where
  "file_open_existing w path =
     (case sys_open w path False False of
        (Inl e, w1) \<Rightarrow> (QDB_ERR_IO, QDB__INVALID_FD, False, w1)
      | (Inr fd, w1) \<Rightarrow> (QDB_OK, fd, False, w1))"

definition qdb__file_open :: "world \<Rightarrow> string \<Rightarrow> bool \<Rightarrow> int \<times> int \<times> bool \<times> world" where
  "qdb__file_open w path create =
     (if create then
        (case sys_open w path True True of
           (Inr fd, w1) \<Rightarrow> (QDB_OK, fd, True, w1)
         | (Inl e, w1) \<Rightarrow>
             if e \<noteq> EEXIST then (QDB_ERR_IO, QDB__INVALID_FD, False, w1)
             else file_open_existing w1 path)
      else file_open_existing w path)"

definition qdb__lockfile_open :: "world \<Rightarrow> string \<Rightarrow> int \<times> int \<times> world" where
  "qdb__lockfile_open w path =
     (case sys_open w path True False of
        (Inl e, w1) \<Rightarrow> (QDB_ERR_IO, QDB__INVALID_FD, w1)
      | (Inr fd, w1) \<Rightarrow> (QDB_OK, fd, w1))"

definition qdb__file_close :: "world \<Rightarrow> int \<Rightarrow> world" where
  "qdb__file_close w fd = sys_close w fd"

definition qdb__file_sync :: "world \<Rightarrow> int \<Rightarrow> int \<times> world" where
  "qdb__file_sync w fd =
     (case sys_fdatasync w fd of (Inr _, w1) \<Rightarrow> (QDB_OK, w1) | (Inl e, w1) \<Rightarrow> (QDB_ERR_IO, w1))"

definition qdb__file_size :: "world \<Rightarrow> int \<Rightarrow> int \<times> u64 \<times> world" where
  "qdb__file_size w fd =
     (case sys_lseek_end w fd of
        (Inl e, w1) \<Rightarrow> (QDB_ERR_IO, 0, w1)
      | (Inr pos, w1) \<Rightarrow> (QDB_OK, pos, w1))"

definition qdb__file_truncate :: "world \<Rightarrow> int \<Rightarrow> u64 \<Rightarrow> int \<times> world" where
  "qdb__file_truncate w fd sz =
     (case sys_ftruncate w fd sz of
        (Inl e, w1) \<Rightarrow> (QDB_ERR_IO, w1)
      | (Inr _, w1) \<Rightarrow> (QDB_OK, w1))"

text \<open>The read loop; \<open>acc\<close> is the filled front of the buffer, \<open>length acc\<close> the variable \<open>total\<close>.\<close>

function pread_loop :: "world \<Rightarrow> int \<Rightarrow> bytes \<Rightarrow> nat \<Rightarrow> u64 \<Rightarrow> int \<times> bytes \<times> world" where
  "pread_loop w fd acc len off =
     (if length acc < len then
        (case sys_pread w fd (len - length acc) (off + of_nat (length acc)) of
           (Inl e, w1) \<Rightarrow>
             if e = EINTR then pread_loop w1 fd acc len off else (QDB_ERR_IO, acc, w1)
         | (Inr bs, w1) \<Rightarrow>
             if bs = [] then (QDB_OK, acc, w1) else pread_loop w1 fd (acc @ bs) len off)
      else (QDB_OK, acc, w))"
  by pat_completeness auto
termination
proof (relation "measure (\<lambda>(w, fd, acc, len, off). length (w_replies w) + (len - length acc))",
       goal_cases)
  case (2 w fd acc len off res w1 e)
  then show ?case using pread_replies(2) [of w fd "len - length acc" "off + of_nat (length acc)" "Inl e" w1] by auto
next
  case (3 w fd acc len off res w1 bs)
  then have "length (w_replies w1) \<le> length (w_replies w)" "bs \<noteq> []"
    using pread_replies(1) [of w fd "len - length acc" "off + of_nat (length acc)" "Inr bs" w1] by auto
  then show ?case using 3(1) by (cases bs) auto
qed simp

declare pread_loop.simps [simp del]

definition qdb__pread :: "world \<Rightarrow> int \<Rightarrow> nat \<Rightarrow> u64 \<Rightarrow> int \<times> bytes \<times> world" where
  "qdb__pread w fd len off = pread_loop w fd [] len off"

text \<open>The write loop; \<open>tot\<close> bytes of \<open>buf\<close> have been written.\<close>

function pwrite_loop :: "world \<Rightarrow> int \<Rightarrow> bytes \<Rightarrow> nat \<Rightarrow> u64 \<Rightarrow> int \<times> world" where
  "pwrite_loop w fd buf tot off =
     (if tot < length buf then
        (case sys_pwrite w fd (drop tot buf) (off + of_nat tot) of
           (Inl e, w1) \<Rightarrow>
             if e = EINTR then pwrite_loop w1 fd buf tot off else (QDB_ERR_IO, w1)
         | (Inr n, w1) \<Rightarrow>
             if n = 0 then (QDB_ERR_IO, w1) else pwrite_loop w1 fd buf (tot + n) off)
      else (QDB_OK, w))"
  by pat_completeness auto
termination
proof (relation "measure (\<lambda>(w, fd, buf, tot, off). length (w_replies w) + (length buf - tot))",
       goal_cases)
  case (2 w fd buf tot off res w1 e)
  then show ?case using pwrite_replies(2) [of w fd "drop tot buf" "off + of_nat tot" "Inl e" w1] by auto
next
  case (3 w fd buf tot off res w1 n)
  then have "length (w_replies w1) \<le> length (w_replies w)" "n \<noteq> 0"
    using pwrite_replies(1) [of w fd "drop tot buf" "off + of_nat tot" "Inr n" w1] by auto
  then show ?case using 3(1) by auto
qed simp

declare pwrite_loop.simps [simp del]

definition qdb__pwrite :: "world \<Rightarrow> int \<Rightarrow> bytes \<Rightarrow> u64 \<Rightarrow> int \<times> world" where
  "qdb__pwrite w fd buf off = pwrite_loop w fd buf 0 off"

definition qdb__file_lock :: "world \<Rightarrow> int \<Rightarrow> int \<times> world" where
  "qdb__file_lock w fd =
     (case sys_flock w fd of
        (Inr _, w1) \<Rightarrow> (QDB_OK, w1)
      | (Inl e, w1) \<Rightarrow> (if e = EWOULDBLOCK then QDB_ERR_LOCKED else QDB_ERR_IO, w1))"

definition qdb__file_unlock :: "world \<Rightarrow> int \<Rightarrow> world" where
  "qdb__file_unlock w fd = drop_lock w fd"

definition qdb__file_delete :: "world \<Rightarrow> string \<Rightarrow> int \<times> world" where
  "qdb__file_delete w path =
     (case sys_unlink w path of
        (Inr _, w1) \<Rightarrow> (QDB_OK, w1)
      | (Inl e, w1) \<Rightarrow> (if e = ENOENT then QDB_OK else QDB_ERR_IO, w1))"

definition qdb__file_rename :: "world \<Rightarrow> string \<Rightarrow> string \<Rightarrow> int \<times> world" where
  "qdb__file_rename w old_path new_path =
     (case sys_rename w old_path new_path of
        (Inr _, w1) \<Rightarrow> (QDB_OK, w1)
      | (Inl e, w1) \<Rightarrow> (QDB_ERR_IO, w1))"

definition qdb__time_us :: "world \<Rightarrow> u64" where
  "qdb__time_us w = (case w_clock w of None \<Rightarrow> 0 | Some (sec, usec) \<Rightarrow> sec * 1000000 + usec)"

section \<open>What a call may change\<close>

text \<open>
  \<open>same_fs w w'\<close>: only the scripts have moved on.  \<open>only_file w w' i\<close>: besides them, only inode
  \<open>i\<close> may have changed.  A calm world has no failure left in its scripts.
\<close>

definition scripts_shrink :: "world \<Rightarrow> world \<Rightarrow> bool" where
  "scripts_shrink w w' \<longleftrightarrow>
     set (w_replies w') \<subseteq> set (w_replies w) \<and> set (w_allocs w') \<subseteq> set (w_allocs w)"

definition only_file :: "world \<Rightarrow> world \<Rightarrow> nat \<Rightarrow> bool" where
  "only_file w w' i \<longleftrightarrow> scripts_shrink w w' \<and>
     w_dir w' = w_dir w \<and> w_fds w' = w_fds w \<and> w_lock w' = w_lock w \<and>
     w_next_ino w' = w_next_ino w \<and> w_next_fd w' = w_next_fd w \<and> w_clock w' = w_clock w \<and>
     (\<forall>j. j \<noteq> i \<longrightarrow> w_ino w' j = w_ino w j)"

definition same_fs :: "world \<Rightarrow> world \<Rightarrow> bool" where
  "same_fs w w' \<longleftrightarrow> scripts_shrink w w' \<and>
     w_dir w' = w_dir w \<and> w_fds w' = w_fds w \<and> w_lock w' = w_lock w \<and>
     w_next_ino w' = w_next_ino w \<and> w_next_fd w' = w_next_fd w \<and> w_clock w' = w_clock w \<and>
     w_ino w' = w_ino w"

definition calm :: "world \<Rightarrow> bool" where
  "calm w \<longleftrightarrow> (\<forall>r \<in> set (w_replies w). r = Full \<or> (\<exists>k. r = Short (Suc k))) \<and> False \<notin> set (w_allocs w)"

lemma same_fs_refl [simp, intro]: "same_fs w w"
  by (simp add: same_fs_def scripts_shrink_def)

lemma only_file_refl [simp, intro]: "only_file w w i"
  by (simp add: only_file_def scripts_shrink_def)

lemma same_fs_trans [trans]: "same_fs a b \<Longrightarrow> same_fs b c \<Longrightarrow> same_fs a c"
  by (auto simp: same_fs_def scripts_shrink_def)

lemma only_file_trans [trans]: "only_file a b i \<Longrightarrow> only_file b c i \<Longrightarrow> only_file a c i"
  by (auto simp: only_file_def scripts_shrink_def)

lemma same_fs_only_file: "same_fs a b \<Longrightarrow> only_file a b i"
  by (auto simp: same_fs_def only_file_def)

lemma same_fs_simps:
  assumes "same_fs w w'"
  shows "w_dir w' = w_dir w" "w_ino w' = w_ino w" "w_fds w' = w_fds w" "w_lock w' = w_lock w"
    "w_next_ino w' = w_next_ino w" "w_next_fd w' = w_next_fd w" "w_clock w' = w_clock w"
    "fdata w' fd = fdata w fd"
  using assms by (simp_all add: same_fs_def fdata_def split: option.split)

lemma only_file_simps:
  assumes "only_file w w' i"
  shows "w_dir w' = w_dir w" "w_fds w' = w_fds w" "w_lock w' = w_lock w"
    "w_next_ino w' = w_next_ino w" "w_next_fd w' = w_next_fd w" "w_clock w' = w_clock w"
    "j \<noteq> i \<Longrightarrow> w_ino w' j = w_ino w j"
  using assms by (auto simp: only_file_def)

lemma calm_same_fs: "same_fs w w' \<Longrightarrow> calm w \<Longrightarrow> calm w'"
  by (auto simp: same_fs_def scripts_shrink_def calm_def)

lemma calm_only_file: "only_file w w' i \<Longrightarrow> calm w \<Longrightarrow> calm w'"
  by (auto simp: only_file_def scripts_shrink_def calm_def)

lemma next_reply_same: "next_reply w = (r, w1) \<Longrightarrow> same_fs w w1"
  by (cases w) (auto simp: next_reply_def same_fs_def scripts_shrink_def split: list.splits)

lemma next_reply_calm: "next_reply w = (r, w1) \<Longrightarrow> calm w \<Longrightarrow> r = Full \<or> (\<exists>k. r = Short (Suc k))"
  by (auto simp: next_reply_def calm_def split: list.splits)

lemma heap_alloc_same: "heap_alloc w = (b, w1) \<Longrightarrow> same_fs w w1"
  by (cases w) (auto simp: heap_alloc_def same_fs_def scripts_shrink_def split: list.splits)

lemma heap_alloc_calm: "heap_alloc w = (b, w1) \<Longrightarrow> calm w \<Longrightarrow> b"
  by (auto simp: heap_alloc_def calm_def split: list.splits)

lemma set_data_only_file: "only_file w (set_data w i d) i"
  by (cases w) (auto simp: set_data_def only_file_def scripts_shrink_def)

lemma set_data_ino:
  "w_ino (set_data w i d) i = \<lparr>ino_data = d, ino_old = ino_data (w_ino w i) # ino_old (w_ino w i)\<rparr>"
  by (simp add: set_data_def)

lemma fdata_open: "w_fds w fd = Some i \<Longrightarrow> fdata w fd = ino_data (w_ino w i)"
  by (simp add: fdata_def)

lemma wf_offset: "unat (off :: u64) + n < 2 ^ 64 \<Longrightarrow> unat (off + of_nat n) = unat off + n"
  by (simp add: unat_word_ariths unat_of_nat)

section \<open>Reading\<close>

lemma sys_pread_same: "sys_pread w fd n off = (res, w1) \<Longrightarrow> same_fs w w1"
  using next_reply_same [of w]
  by (auto simp: sys_pread_def Let_def split: prod.splits option.splits sys_reply.splits if_splits)

lemma sys_pread_data:
  assumes "sys_pread w fd n off = (Inr bs, w1)" and "0 < n"
  shows "\<exists>m \<le> n. bs = slice (fdata w fd) (unat off) m \<and> 0 < m"
proof -
  obtain r w' where r: "next_reply w = (r, w')" by fastforce
  note same = same_fs_simps [OF next_reply_same [OF r]]
  have "bs = slice (fdata w fd) (unat off) n \<or>
      (\<exists>k. bs = slice (fdata w fd) (unat off) (min n (max 1 k)))"
    using assms(1)
    by (auto simp: sys_pread_def r same fdata_def split: option.splits sys_reply.splits if_splits)
  then show ?thesis
  proof
    assume "\<exists>k. bs = slice (fdata w fd) (unat off) (min n (max 1 k))"
    then obtain k where "bs = slice (fdata w fd) (unat off) (min n (max 1 k))" ..
    then show ?thesis using assms(2) by (intro exI [of _ "min n (max 1 k)"]) auto
  qed (use assms(2) in blast)
qed

lemma sys_pread_calm:
  assumes "sys_pread w fd n off = (res, w1)" and "calm w" and "w_fds w fd = Some i"
    and "unat off < 2 ^ 63"
  shows "\<exists>bs. res = Inr bs"
proof -
  obtain r w' where r: "next_reply w = (r, w')" by fastforce
  note same = same_fs_simps [OF next_reply_same [OF r]]
  show ?thesis
    using assms next_reply_calm [OF r]
    by (auto simp: sys_pread_def r same split: option.splits sys_reply.splits if_splits)
qed

lemma pread_loop_spec:
  assumes "pread_loop w fd acc len off = (rc, bs, w')"
    and "unat off + len < 2 ^ 64" and "acc = slice (fdata w fd) (unat off) (length acc)"
    and "length acc \<le> len"
  shows "same_fs w w' \<and> (rc = QDB_OK \<or> rc = QDB_ERR_IO) \<and>
     (rc = QDB_OK \<longrightarrow> bs = slice (fdata w fd) (unat off) len)"
  using assms
proof (induction w fd acc len off rule: pread_loop.induct)
  case (1 w fd acc len off)
  show ?case
  proof (cases "length acc < len")
    case False
    with "1.prems" show ?thesis by (auto simp: pread_loop.simps [of w])
  next
    case True
    obtain res w1 where sp: "sys_pread w fd (len - length acc) (off + of_nat (length acc)) = (res, w1)"
      by fastforce
    have same: "same_fs w w1" by (rule sys_pread_same [OF sp])
    have off: "unat (off + of_nat (length acc)) = unat off + length acc"
      using "1.prems"(2,4) by (intro wf_offset) linarith
    show ?thesis
    proof (cases res)
      case (Inl e)
      show ?thesis
      proof (cases "e = EINTR")
        case True
        then have "pread_loop w1 fd acc len off = (rc, bs, w')"
          using "1.prems"(1) \<open>length acc < len\<close> sp Inl by (simp add: pread_loop.simps [of w])
        from "1.IH"(1) [OF \<open>length acc < len\<close> sp [symmetric] Inl True this "1.prems"(2)]
        show ?thesis using same "1.prems"(3,4)
          by (auto simp: same_fs_simps(8) [OF same] intro: same_fs_trans)
      next
        case False
        with "1.prems"(1) \<open>length acc < len\<close> sp Inl same show ?thesis
          by (auto simp: pread_loop.simps [of w])
      qed
    next
      case (Inr b)
      have "0 < len - length acc" using \<open>length acc < len\<close> by simp
      from sys_pread_data [OF sp [unfolded Inr] this] obtain m where
        m: "m \<le> len - length acc" "0 < m" "b = slice (fdata w fd) (unat off + length acc) m"
        by (auto simp: off)
      have ext: "acc @ b = slice (fdata w fd) (unat off) (length acc + m)"
        using "1.prems"(3) m(3) by (metis slice_add)
      show ?thesis
      proof (cases "b = []")
        case True
        then have "length (fdata w fd) \<le> unat off + length acc"
          using m by (auto simp: slice_def)
        then have "slice (fdata w fd) (unat off) len = acc"
          using "1.prems"(3) slice_add [of "fdata w fd" "unat off" "length acc" "len - length acc"]
            \<open>length acc < len\<close> by (simp add: slice_def)
        then show ?thesis using True "1.prems"(1) \<open>length acc < len\<close> sp Inr same
          by (auto simp: pread_loop.simps [of w])
      next
        case False
        then have rec: "pread_loop w1 fd (acc @ b) len off = (rc, bs, w')"
          using "1.prems"(1) \<open>length acc < len\<close> sp Inr by (simp add: pread_loop.simps [of w])
        have "length b \<le> m" using m(3) by simp
        then have len: "length (acc @ b) \<le> len" using m(1) \<open>length acc < len\<close> by simp
        have "acc @ b = slice (fdata w fd) (unat off) (length (acc @ b))"
          by (rule slice_self [OF ext])
        then have "same_fs w1 w' \<and> (rc = QDB_OK \<or> rc = QDB_ERR_IO) \<and>
            (rc = QDB_OK \<longrightarrow> bs = slice (fdata w fd) (unat off) len)"
          using "1.IH"(2) [OF \<open>length acc < len\<close> sp [symmetric] Inr False rec "1.prems"(2)] len
            same_fs_simps(8) [OF same, of fd] by argo
        then show ?thesis using same by (blast intro: same_fs_trans)
      qed
    qed
  qed
qed

lemma pread_loop_calm:
  assumes "calm w" and "w_fds w fd = Some i" and "unat off + len < 2 ^ 63"
  shows "fst (pread_loop w fd acc len off) = QDB_OK"
  using assms
proof (induction w fd acc len off rule: pread_loop.induct)
  case (1 w fd acc len off)
  show ?case
  proof (cases "length acc < len")
    case True
    obtain res w1 where sp: "sys_pread w fd (len - length acc) (off + of_nat (length acc)) = (res, w1)"
      by fastforce
    note same = sys_pread_same [OF sp]
    have "unat (off + of_nat (length acc)) < 2 ^ 63"
      using "1.prems"(3) True by (subst wf_offset) simp_all
    with sys_pread_calm [OF sp "1.prems"(1,2)] obtain b where Inr: "res = Inr b" by blast
    show ?thesis
    proof (cases "b = []")
      case False
      have "fst (pread_loop w1 fd (acc @ b) len off) = QDB_OK"
        using "1.IH"(2) [OF True sp [symmetric] Inr False] calm_same_fs [OF same "1.prems"(1)]
          "1.prems"(2,3) by (simp add: same_fs_simps(3) [OF same])
      then show ?thesis using True sp Inr False by (simp add: pread_loop.simps [of w])
    qed (use True sp Inr in \<open>simp add: pread_loop.simps [of w]\<close>)
  qed (simp add: pread_loop.simps [of w])
qed

section \<open>Writing\<close>

lemma sys_pwrite_cases:
  assumes "sys_pwrite w fd buf off = (res, w1)" and "w_fds w fd = Some i"
  obtains (fail) e where "res = Inl e" "same_fs w w1"
  | (wrote) n where "res = Inr n" "n \<le> length buf" "only_file w w1 i"
      "w_ino w1 i = \<lparr>ino_data = splice (ino_data (w_ino w i)) (unat off) (take n buf),
                    ino_old = ino_data (w_ino w i) # ino_old (w_ino w i)\<rparr>"
proof -
  obtain r w' where r: "next_reply w = (r, w')" by fastforce
  note same = next_reply_same [OF r]
  note eqs = same_fs_simps [OF same]
  have put: "only_file w (set_data w' i d) i" for d
    using same_fs_only_file [OF same] set_data_only_file by (rule only_file_trans)
  have "(\<exists>e. res = Inl e \<and> w1 = w') \<or>
      (\<exists>n. res = Inr n \<and> n \<le> length buf \<and>
           w1 = set_data w' i (splice (ino_data (w_ino w i)) (unat off) (take n buf)))"
    using assms
    by (auto simp: sys_pwrite_def r eqs min_def split: option.splits sys_reply.splits if_splits)
  then show thesis
  proof (elim disjE exE conjE)
    fix e assume "res = Inl e" "w1 = w'"
    with same show thesis by (simp add: fail)
  next
    fix n assume "res = Inr n" "n \<le> length buf"
      and "w1 = set_data w' i (splice (ino_data (w_ino w i)) (unat off) (take n buf))"
    with put show thesis by (intro wrote) (auto simp: set_data_ino eqs)
  qed
qed

text \<open>
  What a (possibly partial) write leaves in an inode: the first \<open>k\<close> bytes of the buffer are in
  place, and every older content it keeps is one that was there before or such a prefix.
\<close>

definition wrote_prefix :: "inode \<Rightarrow> inode \<Rightarrow> nat \<Rightarrow> bytes \<Rightarrow> nat \<Rightarrow> bool" where
  "wrote_prefix n n' off buf k \<longleftrightarrow>
     ino_data n' = splice (ino_data n) off (take k buf) \<and>
     (\<forall>v \<in> set (ino_old n'). v \<in> set (ino_old n) \<or> (\<exists>j. v = splice (ino_data n) off (take j buf)))"

lemma wrote_prefix_refl: "wrote_prefix n n off buf 0"
  by (simp add: wrote_prefix_def)

lemma wrote_prefix_step:
  assumes "wrote_prefix n n1 off buf k" and "off \<le> length (ino_data n)" and "k \<le> length buf"
    and "n2 = \<lparr>ino_data = splice (ino_data n1) (off + k) (take m (drop k buf)),
               ino_old = ino_data n1 # ino_old n1\<rparr>"
  shows "wrote_prefix n n2 off buf (k + m)"
proof -
  have "splice (splice (ino_data n) off (take k buf)) (off + k) (take m (drop k buf))
      = splice (ino_data n) off (take k buf @ take m (drop k buf))"
    using splice_splice [OF assms(2), of "take k buf" "take m (drop k buf)"] assms(3)
    by (simp add: min_absorb2)
  then show ?thesis
    using assms(1,4) by (auto simp: wrote_prefix_def take_add)
qed

lemma pwrite_loop_spec:
  assumes "pwrite_loop w fd buf tot off = (rc, w')" and "w_fds w fd = Some i"
    and "wrote_prefix n (w_ino w i) (unat off) buf tot"
    and "unat off + length buf < 2 ^ 64" and "unat off \<le> length (ino_data n)" and "tot \<le> length buf"
  shows "only_file w w' i \<and> (rc = QDB_OK \<or> rc = QDB_ERR_IO) \<and>
    (\<exists>k \<le> length buf. wrote_prefix n (w_ino w' i) (unat off) buf k \<and> (rc = QDB_OK \<longrightarrow> k = length buf))"
  using assms
proof (induction w fd buf tot off rule: pwrite_loop.induct)
  case (1 w fd buf tot off)
  show ?case
  proof (cases "tot < length buf")
    case False
    with "1.prems" show ?thesis by (auto simp: pwrite_loop.simps [of w])
  next
    case True
    obtain res w1 where sp: "sys_pwrite w fd (drop tot buf) (off + of_nat tot) = (res, w1)"
      by fastforce
    have off: "unat (off + of_nat tot) = unat off + tot"
      using "1.prems"(4) True by (intro wf_offset) linarith
    from sp "1.prems"(2) show ?thesis
    proof (cases rule: sys_pwrite_cases)
      case (fail e)
      note same = same_fs_simps [OF fail(2)] same_fs_only_file [OF fail(2)]
      show ?thesis
      proof (cases "e = EINTR")
        case True
        then have rec: "pwrite_loop w1 fd buf tot off = (rc, w')"
          using "1.prems"(1) \<open>tot < length buf\<close> sp fail(1) by (simp add: pwrite_loop.simps [of w])
        from "1.IH"(1) [OF \<open>tot < length buf\<close> sp [symmetric] fail(1) True rec] "1.prems"(2-6)
        show ?thesis using same_fs_only_file [OF fail(2), of i]
          by (auto simp: same_fs_simps [OF fail(2)] intro: only_file_trans)
      next
        case False
        with "1.prems" \<open>tot < length buf\<close> sp fail(1) same show ?thesis
          by (auto simp: pwrite_loop.simps [of w] intro!: exI [of _ tot])
      qed
    next
      case (wrote m)
      have pre: "wrote_prefix n (w_ino w1 i) (unat off) buf (tot + m)"
        using "1.prems"(3,5,6) wrote(4) by (intro wrote_prefix_step [where ?n1.0 = "w_ino w i"]) (auto simp: off)
      have le: "tot + m \<le> length buf" using wrote(2) True by simp
      show ?thesis
      proof (cases "m = 0")
        case True
        with "1.prems"(1) \<open>tot < length buf\<close> sp wrote(1,3) pre le show ?thesis
          by (auto simp: pwrite_loop.simps [of w] intro!: exI [of _ tot])
      next
        case False
        then have rec: "pwrite_loop w1 fd buf (tot + m) off = (rc, w')"
          using "1.prems"(1) \<open>tot < length buf\<close> sp wrote(1) by (simp add: pwrite_loop.simps [of w])
        from "1.IH"(2) [OF \<open>tot < length buf\<close> sp [symmetric] wrote(1) False rec] pre le "1.prems"(2,4,5)
        show ?thesis using wrote(3) by (auto simp: only_file_simps [OF wrote(3)] intro: only_file_trans)
      qed
    qed
  qed
qed

lemma qdb__pwrite_spec:
  assumes "qdb__pwrite w fd buf off = (rc, w')" and "w_fds w fd = Some i"
    and "unat off + length buf < 2 ^ 64" and "unat off \<le> length (ino_data (w_ino w i))"
  shows "only_file w w' i \<and> (rc = QDB_OK \<or> rc = QDB_ERR_IO) \<and>
    (\<exists>k \<le> length buf. wrote_prefix (w_ino w i) (w_ino w' i) (unat off) buf k \<and>
       (rc = QDB_OK \<longrightarrow> k = length buf))"
  using pwrite_loop_spec [OF assms(1) [unfolded qdb__pwrite_def] assms(2) wrote_prefix_refl assms(3,4)]
  by simp

lemma sys_pwrite_calm:
  assumes "sys_pwrite w fd buf off = (res, w1)" and "calm w" and "w_fds w fd = Some i"
    and "unat off + length buf < 2 ^ 63" and "buf \<noteq> []"
  shows "\<exists>n. res = Inr (Suc n)"
proof -
  obtain r w' where r: "next_reply w = (r, w')" by fastforce
  note same = same_fs_simps [OF next_reply_same [OF r]]
  from assms(5) obtain b bs where buf: "buf = b # bs" by (cases buf) auto
  show ?thesis
    using assms(1-4) next_reply_calm [OF r]
    by (auto simp: buf sys_pwrite_def r same split: option.splits sys_reply.splits if_splits)
qed

lemma pwrite_loop_calm:
  assumes "calm w" and "w_fds w fd = Some i" and "unat off + length buf < 2 ^ 63"
  shows "fst (pwrite_loop w fd buf tot off) = QDB_OK"
  using assms
proof (induction w fd buf tot off rule: pwrite_loop.induct)
  case (1 w fd buf tot off)
  show ?case
  proof (cases "tot < length buf")
    case True
    obtain res w1 where sp: "sys_pwrite w fd (drop tot buf) (off + of_nat tot) = (res, w1)"
      by fastforce
    have "unat (off + of_nat tot) + length (drop tot buf) < 2 ^ 63"
      using "1.prems"(3) True by (subst wf_offset) simp_all
    with sys_pwrite_calm [OF sp "1.prems"(1,2)] True obtain m where Inr: "res = Inr (Suc m)" by auto
    from sp "1.prems"(2) Inr have only: "only_file w w1 i" by (cases rule: sys_pwrite_cases) auto
    have "fst (pwrite_loop w1 fd buf (tot + Suc m) off) = QDB_OK"
      using "1.IH"(2) [OF True sp [symmetric] Inr] calm_only_file [OF only "1.prems"(1)] "1.prems"(2,3)
      by (simp add: only_file_simps [OF only])
    then show ?thesis using True sp Inr by (simp add: pwrite_loop.simps [of w])
  qed (simp add: pwrite_loop.simps [of w])
qed

lemma qdb__pwrite_calm:
  assumes "calm w" and "w_fds w fd = Some i" and "unat off + length buf < 2 ^ 63"
  shows "fst (qdb__pwrite w fd buf off) = QDB_OK"
  using pwrite_loop_calm [OF assms] by (simp add: qdb__pwrite_def)

section \<open>The other calls on a descriptor\<close>

lemma qdb__file_sync_spec:
  assumes "qdb__file_sync w fd = (rc, w')" and "w_fds w fd = Some i"
  shows "only_file w w' i \<and> (rc = QDB_OK \<or> rc = QDB_ERR_IO) \<and>
    ino_data (w_ino w' i) = ino_data (w_ino w i) \<and>
    (rc = QDB_OK \<longrightarrow> ino_old (w_ino w' i) = []) \<and>
    (rc \<noteq> QDB_OK \<longrightarrow> ino_old (w_ino w' i) = ino_old (w_ino w i)) \<and> (calm w \<longrightarrow> rc = QDB_OK)"
proof -
  obtain r w1 where r: "next_reply w = (r, w1)" by fastforce
  note same = next_reply_same [OF r]
  note eqs = same_fs_simps [OF same]
  show ?thesis
    using assms eqs next_reply_calm [OF r] same_fs_only_file [OF same, of i]
    by (auto simp: qdb__file_sync_def sys_fdatasync_def r only_file_def scripts_shrink_def
        split: option.splits sys_reply.splits prod.splits sum.splits)
qed

lemma qdb__file_size_spec:
  assumes "qdb__file_size w fd = (rc, sz, w')" and "w_fds w fd = Some i"
  shows "same_fs w w' \<and> (rc = QDB_OK \<or> rc = QDB_ERR_IO) \<and>
    (rc = QDB_OK \<longrightarrow> sz = of_nat (length (ino_data (w_ino w i)))) \<and> (calm w \<longrightarrow> rc = QDB_OK)"
proof -
  obtain r w1 where r: "next_reply w = (r, w1)" by fastforce
  note same = next_reply_same [OF r]
  note eqs = same_fs_simps [OF same]
  show ?thesis
    using assms next_reply_calm [OF r] same
    by (auto simp: qdb__file_size_def sys_lseek_end_def r eqs
        split: option.splits sys_reply.splits prod.splits sum.splits)
qed

lemma qdb__file_truncate_spec:
  assumes "qdb__file_truncate w fd sz = (rc, w')" and "w_fds w fd = Some i"
    and "unat sz \<le> length (ino_data (w_ino w i))"
  shows "only_file w w' i \<and> (rc = QDB_OK \<or> rc = QDB_ERR_IO) \<and>
    (rc = QDB_OK \<longrightarrow> ino_data (w_ino w' i) = take (unat sz) (ino_data (w_ino w i)) \<and>
        ino_old (w_ino w' i) = ino_data (w_ino w i) # ino_old (w_ino w i)) \<and>
    (rc \<noteq> QDB_OK \<longrightarrow> w_ino w' i = w_ino w i) \<and>
    (calm w \<and> unat sz < 2 ^ 63 \<longrightarrow> rc = QDB_OK)"
proof -
  obtain r w1 where r: "next_reply w = (r, w1)" by fastforce
  note same = next_reply_same [OF r]
  note eqs = same_fs_simps [OF same]
  have put: "only_file w (set_data w1 i d) i" for d
    using same_fs_only_file [OF same] set_data_only_file by (rule only_file_trans)
  show ?thesis
    using assms eqs next_reply_calm [OF r] same_fs_only_file [OF same, of i] put
    by (auto simp: qdb__file_truncate_def sys_ftruncate_def r set_data_ino Let_def
        split: option.splits sys_reply.splits prod.splits sum.splits if_splits)
qed

section \<open>Reads and writes are complete or fail\<close>

text \<open>A world with one file, open as descriptor 3, and the given replies to come.\<close>

definition one_file_world :: "bytes \<Rightarrow> sys_reply list \<Rightarrow> world" where
  "one_file_world d rs = \<lparr>w_dir = [''q'' \<mapsto> 0], w_ino = (\<lambda>i. \<lparr>ino_data = d, ino_old = []\<rparr>),
     w_fds = [3 \<mapsto> 0], w_lock = Map.empty, w_next_ino = 1, w_next_fd = 4, w_replies = rs,
     w_allocs = [], w_clock = Some (1, 5)\<rparr>"

lemma one_file_world_simps [simp]:
  "w_dir (one_file_world d rs) = [''q'' \<mapsto> 0]" "w_fds (one_file_world d rs) = [3 \<mapsto> 0]"
  "w_ino (one_file_world d rs) i = \<lparr>ino_data = d, ino_old = []\<rparr>"
  "w_replies (one_file_world d rs) = rs" "w_allocs (one_file_world d rs) = []"
  "calm (one_file_world d []) = True" "fdata (one_file_world d rs) 3 = d"
  by (simp_all add: one_file_world_def calm_def fdata_def)

text \<open>
  Theorem C38.  \<open>qdb__pread\<close> survives any finite number of interruptions and short reads: it returns
  the requested slice of the file (cut at the end of the file), or \<open>QDB_ERR_IO\<close>; it changes no file;
  and without failures it returns the slice.
\<close>

theorem pread_exact:
  assumes "qdb__pread w fd len off = (rc, bs, w')" and "unat off + len < 2 ^ 63"
  shows "same_fs w w' \<and> (rc = QDB_OK \<and> bs = slice (fdata w fd) (unat off) len \<or> rc = QDB_ERR_IO) \<and>
    (calm w \<and> w_fds w fd \<noteq> None \<longrightarrow> rc = QDB_OK)"
  using pread_loop_spec [of w fd "[]" len off rc bs w'] pread_loop_calm [of w fd _ off len "[]"] assms
  by (auto simp: qdb__pread_def)

theorem pread_exact_witness:
  "\<exists>w'. qdb__pread (one_file_world [1, 2, 3, 4, 5] [Fail EINTR, Short 2, Fail EINTR]) 3 3 1 = (QDB_OK, [2, 3, 4], w') \<and>
     same_fs (one_file_world [1, 2, 3, 4, 5] [Fail EINTR, Short 2, Fail EINTR]) w'"
proof -
  let ?w = "one_file_world [1, 2, 3, 4, 5] [Fail EINTR, Short 2, Fail EINTR]"
  obtain w' where pr: "qdb__pread ?w 3 3 1 = (QDB_OK, [2, 3, 4], w')"
    by (simp add: qdb__pread_def pread_loop.simps sys_pread_def next_reply_def slice_def)
  from pread_exact [OF pr] show ?thesis using pr by simp
qed

text \<open>
  Theorem C39.  \<open>qdb__pwrite\<close> at an offset inside the file touches that file only and leaves a prefix
  of the buffer in place of the bytes there, all of the buffer when it reports success; every older
  content a crash may bring back is one from before the call or such a prefix; and without
  failures it succeeds.
\<close>

theorem pwrite_all_or_error:
  assumes "qdb__pwrite w fd buf off = (rc, w')" and "w_fds w fd = Some i"
    and "unat off + length buf < 2 ^ 63" and "unat off \<le> length (ino_data (w_ino w i))"
  shows "only_file w w' i \<and> (rc = QDB_OK \<or> rc = QDB_ERR_IO) \<and> (calm w \<longrightarrow> rc = QDB_OK) \<and>
    (\<exists>k \<le> length buf. ino_data (w_ino w' i) = splice (ino_data (w_ino w i)) (unat off) (take k buf) \<and>
       (rc = QDB_OK \<longrightarrow> k = length buf)) \<and>
    (\<forall>v \<in> set (ino_old (w_ino w' i)). v \<in> set (ino_old (w_ino w i)) \<or>
       (\<exists>j. v = splice (ino_data (w_ino w i)) (unat off) (take j buf)))"
proof -
  from assms(3) have "unat off + length buf < 2 ^ 64" by simp
  from qdb__pwrite_spec [OF assms(1,2) this assms(4)] qdb__pwrite_calm [OF _ assms(2,3)] assms(1)
  show ?thesis by (auto simp: wrote_prefix_def)
qed

theorem pwrite_all_or_error_witness:
  "\<exists>w'. qdb__pwrite (one_file_world [1, 2, 3] [Short 1, Fail EINTR]) 3 [8, 9] 1 = (QDB_OK, w') \<and>
     only_file (one_file_world [1, 2, 3] [Short 1, Fail EINTR]) w' 0 \<and> ino_data (w_ino w' 0) = [1, 8, 9]"
proof -
  let ?w = "one_file_world [1, 2, 3] [Short 1, Fail EINTR]"
  obtain w' where pr: "qdb__pwrite ?w 3 [8, 9] 1 = (QDB_OK, w')"
    by (simp add: qdb__pwrite_def pwrite_loop.simps sys_pwrite_def next_reply_def set_data_def)
  from pwrite_all_or_error [OF pr] show ?thesis using pr by (auto simp: splice_def)
qed

end
