(* ===== verification/RecordIO.thy ===== *)
theory RecordIO
  imports Crc32 Encoding Platform
begin

text \<open>
  \<^verbatim>\<open>src/qdb_io.c\<close>: the file header and the framing of log records, on top of the platform
  layer.  The database handle \<open>struct qdb\<close> is the record \<open>qdb\<close>, polymorphic in the in-memory
  state it points to (\<open>None\<close> is a NULL pointer).  Shown: the header written is the header read;
  the cheap header patch leaves exactly the bytes of a full rewrite; an appended record is scanned
  back with its type, length and payload; a scan never skips over bytes that fail the checks,
  always moves forward and stays within the log.
\<close>

unbundle bit_operations_syntax

section \<open>Constants of the file format\<close>

abbreviation (input) QDB__SCAN_END :: int where "QDB__SCAN_END \<equiv> 1"
abbreviation (input) QDB__SCAN_PARTIAL :: int where "QDB__SCAN_PARTIAL \<equiv> 2"

abbreviation (input) QDB_FORMAT_VERSION :: u32 where "QDB_FORMAT_VERSION \<equiv> 1"
abbreviation (input) QDB_MAX_FORMAT_VERSION :: u32 where "QDB_MAX_FORMAT_VERSION \<equiv> 1"
abbreviation (input) QDB_PAGE_SIZE :: u32 where "QDB_PAGE_SIZE \<equiv> 4096"

abbreviation (input) QDB_HDR_OFF_MAGIC :: nat where "QDB_HDR_OFF_MAGIC \<equiv> 0"
abbreviation (input) QDB_HDR_OFF_VERSION :: nat where "QDB_HDR_OFF_VERSION \<equiv> 8"
abbreviation (input) QDB_HDR_OFF_PAGE_SIZE :: nat where "QDB_HDR_OFF_PAGE_SIZE \<equiv> 12"
abbreviation (input) QDB_HDR_OFF_CREATE_TIME :: nat where "QDB_HDR_OFF_CREATE_TIME \<equiv> 16"
abbreviation (input) QDB_HDR_OFF_NEXT_MSG_ID :: nat where "QDB_HDR_OFF_NEXT_MSG_ID \<equiv> 24"
abbreviation (input) QDB_HDR_OFF_LOG_START :: nat where "QDB_HDR_OFF_LOG_START \<equiv> 32"
abbreviation (input) QDB_HDR_OFF_LOG_END :: nat where "QDB_HDR_OFF_LOG_END \<equiv> 40"
abbreviation (input) QDB_HDR_OFF_FLAGS :: nat where "QDB_HDR_OFF_FLAGS \<equiv> 48"
abbreviation (input) QDB_HDR_OFF_CRC32 :: nat where "QDB_HDR_OFF_CRC32 \<equiv> 52"
abbreviation (input) QDB_HDR_CRC_COVER :: nat where "QDB_HDR_CRC_COVER \<equiv> 52"
abbreviation (input) QDB_HDR_SIZE :: nat where "QDB_HDR_SIZE \<equiv> 4096"

abbreviation (input) QDB_FLAG_WAL_PRESENT :: u32 where "QDB_FLAG_WAL_PRESENT \<equiv> 1"
abbreviation (input) QDB_FLAG_DIRTY :: u32 where "QDB_FLAG_DIRTY \<equiv> 2"

abbreviation (input) QDB_RT_MSG_PUSH :: u8 where "QDB_RT_MSG_PUSH \<equiv> 0x01"
abbreviation (input) QDB_RT_MSG_LEASE :: u8 where "QDB_RT_MSG_LEASE \<equiv> 0x02"
abbreviation (input) QDB_RT_MSG_ACK :: u8 where "QDB_RT_MSG_ACK \<equiv> 0x03"
abbreviation (input) QDB_RT_MSG_NACK :: u8 where "QDB_RT_MSG_NACK \<equiv> 0x04"
abbreviation (input) QDB_RT_MSG_EXPIRE :: u8 where "QDB_RT_MSG_EXPIRE \<equiv> 0x05"
abbreviation (input) QDB_RT_CHECKPOINT :: u8 where "QDB_RT_CHECKPOINT \<equiv> 0x10"
abbreviation (input) QDB_RT_PADDING :: u8 where "QDB_RT_PADDING \<equiv> 0xFF"

abbreviation (input) QDB_REC_OFF_TYPE :: nat where "QDB_REC_OFF_TYPE \<equiv> 0"
abbreviation (input) QDB_REC_OFF_PLEN :: nat where "QDB_REC_OFF_PLEN \<equiv> 1"
abbreviation (input) QDB_REC_OFF_CRC :: nat where "QDB_REC_OFF_CRC \<equiv> 5"
abbreviation (input) QDB_REC_HDR_SIZE :: nat where "QDB_REC_HDR_SIZE \<equiv> 9"
abbreviation (input) QDB_COMMIT_MARKER :: u8 where "QDB_COMMIT_MARKER \<equiv> 0xAB"
abbreviation (input) QDB_MAX_RECORD_PAYLOAD :: u32 where "QDB_MAX_RECORD_PAYLOAD \<equiv> 64 * 1024 * 1024 + 512"

definition k_file_magic :: bytes where
  "k_file_magic = [0x51, 0x44, 0x42, 0x0D, 0x0A, 0x1A, 0x0A, 0x00]"

section \<open>The database handle\<close>

record 'st qdb =
  db_fd :: int
  db_lock_fd :: int
  db_path :: string
  db_wal_path :: string
  db_lock_path :: string
  db_next_msg_id :: u64
  db_next_lease_id :: u64
  db_log_start_offset :: u64
  db_log_end_offset :: u64
  db_create_time_us :: u64
  db_flags :: u32
  db_lease_timeout_us :: u64
  db_state :: "'st option"

section \<open>Low-level wrappers\<close>

definition qdb__read_full :: "world \<Rightarrow> int \<Rightarrow> nat \<Rightarrow> u64 \<Rightarrow> int \<times> bytes \<times> world" where
  "qdb__read_full w fd len off =
     (let (rc, buf, w1) = qdb__pread w fd len off in
      if rc \<noteq> QDB_OK then (rc, buf, w1)
      else (if length buf = len then QDB_OK else QDB_ERR_IO, buf, w1))"

definition qdb__write_full :: "world \<Rightarrow> int \<Rightarrow> bytes \<Rightarrow> u64 \<Rightarrow> int \<times> world" where
  "qdb__write_full w fd buf off = qdb__pwrite w fd buf off"

section \<open>Header encode and decode\<close>

text \<open>The eight stores common to \<open>header_encode\<close> and \<open>qdb__header_update\<close>.\<close>

definition put_header_fields :: "bytes \<Rightarrow> 'st qdb \<Rightarrow> bytes" where
  "put_header_fields buf db =
     (let buf = splice buf QDB_HDR_OFF_MAGIC k_file_magic;
          buf = splice buf QDB_HDR_OFF_VERSION (qdb__put_u32le QDB_FORMAT_VERSION);
          buf = splice buf QDB_HDR_OFF_PAGE_SIZE (qdb__put_u32le QDB_PAGE_SIZE);
          buf = splice buf QDB_HDR_OFF_CREATE_TIME (qdb__put_u64le (db_create_time_us db));
          buf = splice buf QDB_HDR_OFF_NEXT_MSG_ID (qdb__put_u64le (db_next_msg_id db));
          buf = splice buf QDB_HDR_OFF_LOG_START (qdb__put_u64le (db_log_start_offset db));
          buf = splice buf QDB_HDR_OFF_LOG_END (qdb__put_u64le (db_log_end_offset db))
      in splice buf QDB_HDR_OFF_FLAGS (qdb__put_u32le (db_flags db)))"

definition header_encode :: "'st qdb \<Rightarrow> bytes" where
  "header_encode db =
     (let buf = put_header_fields (replicate QDB_HDR_SIZE 0) db;
          crc = crc_of (take QDB_HDR_CRC_COVER buf)
      in splice buf QDB_HDR_OFF_CRC32 (qdb__put_u32le crc))"

definition header_decode :: "bytes \<Rightarrow> 'st qdb \<Rightarrow> int \<times> 'st qdb" where
  "header_decode buf db =
     (if take 8 (drop QDB_HDR_OFF_MAGIC buf) \<noteq> k_file_magic then (QDB_ERR_CORRUPT, db)
      else if crc_of (take QDB_HDR_CRC_COVER buf) \<noteq> qdb__get_u32le (drop QDB_HDR_OFF_CRC32 buf)
        then (QDB_ERR_CORRUPT, db)
      else let version = qdb__get_u32le (drop QDB_HDR_OFF_VERSION buf) in
      if version < 1 \<or> version > QDB_MAX_FORMAT_VERSION then (QDB_ERR_CORRUPT, db)
      else if qdb__get_u32le (drop QDB_HDR_OFF_PAGE_SIZE buf) \<noteq> QDB_PAGE_SIZE
        then (QDB_ERR_CORRUPT, db)
      else
        let db = db\<lparr>db_create_time_us := qdb__get_u64le (drop QDB_HDR_OFF_CREATE_TIME buf),
                    db_next_msg_id := qdb__get_u64le (drop QDB_HDR_OFF_NEXT_MSG_ID buf),
                    db_log_start_offset := qdb__get_u64le (drop QDB_HDR_OFF_LOG_START buf),
                    db_log_end_offset := qdb__get_u64le (drop QDB_HDR_OFF_LOG_END buf),
                    db_flags := qdb__get_u32le (drop QDB_HDR_OFF_FLAGS buf)\<rparr>
        in if db_log_start_offset db < of_nat QDB_HDR_SIZE
              \<or> db_log_end_offset db < db_log_start_offset db
           then (QDB_ERR_CORRUPT, db) else (QDB_OK, db))"

definition qdb__header_write :: "world \<Rightarrow> int \<Rightarrow> 'st qdb \<Rightarrow> int \<times> world" where
  "qdb__header_write w fd db =
     (let (rc, w1) = qdb__write_full w fd (header_encode db) 0 in
      if rc \<noteq> QDB_OK then (QDB_ERR_IO, w1) else qdb__file_sync w1 fd)"

definition qdb__header_read :: "world \<Rightarrow> int \<Rightarrow> 'st qdb \<Rightarrow> int \<times> 'st qdb \<times> world" where
  "qdb__header_read w fd db =
     (let (rc, file_sz, w1) = qdb__file_size w fd in
      if rc \<noteq> QDB_OK then (QDB_ERR_IO, db, w1)
      else if file_sz < of_nat QDB_HDR_SIZE then (QDB_ERR_CORRUPT, db, w1)
      else let (rc, buf, w2) = qdb__read_full w1 fd QDB_HDR_SIZE 0 in
      if rc \<noteq> QDB_OK then (QDB_ERR_IO, db, w2)
      else let (rc, db') = header_decode buf db in (rc, db', w2))"

definition qdb__header_update :: "world \<Rightarrow> int \<Rightarrow> 'st qdb \<Rightarrow> int \<times> world" where
  "qdb__header_update w fd db =
     (let prefix = put_header_fields (replicate (QDB_HDR_CRC_COVER + 4) 0) db;
          crc = crc_of (take QDB_HDR_CRC_COVER prefix);
          patch = qdb__put_u64le (db_next_msg_id db) @ qdb__put_u64le (db_log_start_offset db) @
                  qdb__put_u64le (db_log_end_offset db) @ qdb__put_u32le (db_flags db) @
                  qdb__put_u32le crc;
          (rc, w1) = qdb__write_full w fd patch (of_nat QDB_HDR_OFF_NEXT_MSG_ID)
      in if rc \<noteq> QDB_OK then (QDB_ERR_IO, w1) else qdb__file_sync w1 fd)"

section \<open>Append one record\<close>

text \<open>The returned offset is \<open>*offset\<close> after the call: advanced only on success.\<close>

definition qdb__append_record ::
  "world \<Rightarrow> int \<Rightarrow> u8 \<Rightarrow> bytes \<Rightarrow> u32 \<Rightarrow> u64 \<Rightarrow> int \<times> u64 \<times> world" where
  "qdb__append_record w fd type payload plen offset =
     (let hdr_off = offset;
          payload_off = hdr_off + of_nat QDB_REC_HDR_SIZE;
          marker_off = payload_off + ucast plen;
          crc = crc_of (take (unat plen) payload);
          hdr = [type] @ qdb__put_u32le plen @ qdb__put_u32le crc;
          (rc, w1) = qdb__write_full w fd hdr hdr_off
      in if rc \<noteq> QDB_OK then (QDB_ERR_IO, offset, w1)
      else let (rc, w2) = (if plen > 0 then qdb__write_full w1 fd (take (unat plen) payload) payload_off
                           else (QDB_OK, w1))
      in if rc \<noteq> QDB_OK then (QDB_ERR_IO, offset, w2)
      else let (rc, w3) = qdb__file_sync w2 fd
      in if rc \<noteq> QDB_OK then (QDB_ERR_IO, offset, w3)
      else let (rc, w4) = qdb__write_full w3 fd [QDB_COMMIT_MARKER] marker_off
      in if rc \<noteq> QDB_OK then (QDB_ERR_IO, offset, w4)
      else let (rc, w5) = qdb__file_sync w4 fd
      in if rc \<noteq> QDB_OK then (QDB_ERR_IO, offset, w5)
      else (QDB_OK, marker_off + 1, w5))"

section \<open>Scan one record\<close>

definition is_known_type :: "u8 \<Rightarrow> bool" where
  "is_known_type type \<longleftrightarrow> type \<in> {QDB_RT_MSG_PUSH, QDB_RT_MSG_LEASE, QDB_RT_MSG_ACK, QDB_RT_MSG_NACK,
     QDB_RT_MSG_EXPIRE, QDB_RT_CHECKPOINT, QDB_RT_PADDING}"

text \<open>The loop that reads the payload in chunks of 4096 bytes to check its CRC.\<close>

function scan_crc :: "world \<Rightarrow> int \<Rightarrow> u64 \<Rightarrow> u32 \<Rightarrow> u32 \<Rightarrow> u32 \<Rightarrow> int \<times> u32 \<times> world" where
  "scan_crc w fd payload_off plen remaining crc_state =
     (if remaining > 0 then
        let to_read = (if remaining < 4096 then remaining else 4096);
            chunk_off = payload_off + ucast (plen - remaining);
            (rc, chunk, w1) = qdb__read_full w fd (unat to_read) chunk_off
        in if rc \<noteq> QDB_OK then (QDB_ERR_IO, crc_state, w1)
           else scan_crc w1 fd payload_off plen (remaining - to_read) (crc_update crc_state chunk)
      else (QDB_OK, crc_state, w))"
  by pat_completeness auto
termination
proof (relation "measure (\<lambda>(w, fd, po, plen, remaining, st). unat remaining)", goal_cases)
  case (2 w fd po plen remaining st to_read)
  then have "to_read \<le> remaining" "0 < to_read" by auto
  then have "remaining - to_read < remaining"
    by (simp add: word_less_nat_alt word_le_nat_alt unat_sub)
  then show ?case by (simp add: word_less_nat_alt)
qed simp

declare scan_crc.simps [simp del]

definition qdb__scan_record ::
  "world \<Rightarrow> int \<Rightarrow> u64 \<Rightarrow> u64 \<Rightarrow> int \<times> u8 \<times> u32 \<times> u64 \<times> world" where
  "qdb__scan_record w fd offset end_offset =
     (if offset \<ge> end_offset then (QDB__SCAN_END, 0, 0, offset, w)
      else if end_offset - offset < of_nat (QDB_REC_HDR_SIZE + 1)
        then (QDB__SCAN_PARTIAL, 0, 0, offset, w)
      else let (rc, hdr, w1) = qdb__read_full w fd QDB_REC_HDR_SIZE offset
      in if rc \<noteq> QDB_OK then (QDB_ERR_IO, 0, 0, offset, w1)
      else let plen = qdb__get_u32le (drop QDB_REC_OFF_PLEN hdr);
               stored_crc = qdb__get_u32le (drop QDB_REC_OFF_CRC hdr)
      in if plen > QDB_MAX_RECORD_PAYLOAD then (QDB_ERR_CORRUPT, 0, 0, offset, w1)
      else let payload_off = offset + of_nat QDB_REC_HDR_SIZE;
               marker_off = payload_off + ucast plen;
               record_end = marker_off + 1
      in if record_end > end_offset then (QDB__SCAN_PARTIAL, 0, 0, offset, w1)
      else let (rc, marker, w2) = qdb__read_full w1 fd 1 marker_off
      in if rc \<noteq> QDB_OK then (QDB_ERR_IO, 0, 0, offset, w2)
      else if marker ! 0 \<noteq> QDB_COMMIT_MARKER then (QDB__SCAN_PARTIAL, 0, 0, offset, w2)
      else if \<not> is_known_type (hdr ! QDB_REC_OFF_TYPE) then (QDB_ERR_CORRUPT, 0, 0, offset, w2)
      else let (rc, crc_state, w3) = scan_crc w2 fd payload_off plen plen 0xFFFFFFFF
      in if rc \<noteq> QDB_OK then (QDB_ERR_IO, 0, 0, offset, w3)
      else if qdb__crc32_end crc_state \<noteq> stored_crc then (QDB_ERR_CORRUPT, 0, 0, offset, w3)
      else (QDB_OK, hdr ! QDB_REC_OFF_TYPE, plen, record_end, w3))"

definition qdb__read_payload :: "world \<Rightarrow> int \<Rightarrow> u64 \<Rightarrow> u32 \<Rightarrow> int \<times> bytes \<times> world" where
  "qdb__read_payload w fd payload_offset plen = qdb__read_full w fd (unat plen) payload_offset"

section \<open>Full reads\<close>

lemma pread_loop_far:
  assumes "2 ^ 63 \<le> unat off" and "0 < len"
  shows "fst (pread_loop w fd [] len off) = QDB_ERR_IO"
  using assms
proof (induction w fd "[] :: bytes" len off rule: pread_loop.induct)
  case (1 w fd len off)
  obtain res w1 where sp: "sys_pread w fd (len - length ([] :: bytes)) (off + of_nat (length ([] :: bytes))) = (res, w1)"
    by fastforce
  obtain r w' where r: "next_reply w = (r, w')" by fastforce
  have "\<exists>e. res = Inl e"
    using sp "1.prems"(1)
    by (auto simp: sys_pread_def r split: option.splits sys_reply.splits if_splits)
  then obtain e where e: "res = Inl e" ..
  show ?case
  proof (cases "e = EINTR")
    case True
    with "1.hyps"(1) [OF _ sp [symmetric] e True] "1.prems" sp e show ?thesis
      by (simp add: pread_loop.simps [of w])
  next
    case False
    with "1.prems" sp e show ?thesis by (simp add: pread_loop.simps [of w])
  qed
qed

lemma read_full_spec:
  assumes rd: "qdb__read_full w fd len off = (rc, buf, w')" and len: "len < 2 ^ 63"
  shows "same_fs w w' \<and> (rc = QDB_OK \<or> rc = QDB_ERR_IO) \<and>
    (rc = QDB_OK \<longrightarrow> buf = slice (fdata w fd) (unat off) len \<and> length buf = len \<and>
       (0 < len \<longrightarrow> unat off < 2 ^ 63 \<and> unat off + len \<le> length (fdata w fd)))"
proof -
  obtain rc1 bs w1 where pr: "pread_loop w fd [] len off = (rc1, bs, w1)" by (metis prod_cases3)
  show ?thesis
  proof (cases "2 ^ 63 \<le> unat off \<and> 0 < len")
    case True
    have w1: "same_fs w w1" if "pread_loop w fd acc len off = (rc1, bs, w1)" for acc
      using that
    proof (induction w fd acc len off rule: pread_loop.induct)
      case (1 w fd acc len off)
      then show ?case
        by (subst (asm) (3) pread_loop.simps)
          (auto split: if_splits prod.splits sum.splits dest: sys_pread_same intro: same_fs_trans)
    qed
    from True pread_loop_far [of off len w fd] pr have "rc1 = QDB_ERR_IO" by simp
    with rd pr w1 [OF pr] show ?thesis by (auto simp: qdb__read_full_def qdb__pread_def)
  next
    case False
    then have "unat off < 2 ^ 63 \<or> len = 0" by auto
    then have "unat off + len < 2 ^ 64"
      using len unat_u64_lt [of off] by auto
    from pread_loop_spec [OF pr this] rd pr False show ?thesis
      by (auto simp: qdb__read_full_def qdb__pread_def split: if_splits)
  qed
qed

lemma read_full_calm:
  assumes rd: "qdb__read_full w fd len off = (rc, buf, w')"
    and "calm w" and "w_fds w fd = Some i" and "unat off + len \<le> length (fdata w fd)"
    and "length (fdata w fd) < 2 ^ 63"
  shows "rc = QDB_OK"
proof -
  obtain rc1 bs w1 where pr: "pread_loop w fd [] len off = (rc1, bs, w1)" by (metis prod_cases3)
  have lt: "unat off + len < 2 ^ 63" using assms(4,5) by linarith
  then have "rc1 = QDB_OK" using pread_loop_calm [OF assms(2,3), of off len "[]"] pr by simp
  moreover have "length bs = len"
    using pread_loop_spec [OF pr] lt \<open>rc1 = QDB_OK\<close> assms(4) by simp
  ultimately show ?thesis using rd pr by (simp add: qdb__read_full_def qdb__pread_def)
qed

section \<open>The header on disk\<close>

text \<open>The 52 bytes the header CRC covers, and the layout of a valid header for \<open>db\<close>.\<close>

definition hdr_fields :: "'st qdb \<Rightarrow> bytes" where
  "hdr_fields db = k_file_magic @ qdb__put_u32le QDB_FORMAT_VERSION @ qdb__put_u32le QDB_PAGE_SIZE @
     qdb__put_u64le (db_create_time_us db) @ qdb__put_u64le (db_next_msg_id db) @
     qdb__put_u64le (db_log_start_offset db) @ qdb__put_u64le (db_log_end_offset db) @
     qdb__put_u32le (db_flags db)"

definition hdr_bytes :: "'st qdb \<Rightarrow> bytes" where
  "hdr_bytes db = hdr_fields db @ qdb__put_u32le (crc32 (hdr_fields db))"

definition has_header :: "bytes \<Rightarrow> 'st qdb \<Rightarrow> bool" where
  "has_header d db \<longleftrightarrow> take 56 d = hdr_bytes db"

lemma length_magic [simp]: "length k_file_magic = 8"
  by (simp add: k_file_magic_def)

lemma length_hdr_fields [simp]: "length (hdr_fields db) = 52"
  by (simp add: hdr_fields_def)

lemma length_hdr_bytes [simp]: "length (hdr_bytes db) = 56"
  by (simp add: hdr_bytes_def)

lemma put_header_fields_eq:
  assumes "52 \<le> length buf"
  shows "put_header_fields buf db = hdr_fields db @ drop 52 buf"
proof -
  have "put_header_fields ([] @ buf) db = hdr_fields db @ drop 52 buf"
    unfolding put_header_fields_def Let_def hdr_fields_def
    by (simp add: splice_app del: append_Nil append_assoc)
  then show ?thesis by simp
qed

lemma header_encode_eq: "header_encode db = hdr_bytes db @ replicate 4040 0"
proof -
  have "splice (hdr_fields db @ replicate 4044 0) 52 (qdb__put_u32le c)
      = (hdr_fields db @ qdb__put_u32le c) @ drop 4 (replicate 4044 0)" for c
    using splice_app [of 52 "hdr_fields db" "replicate 4044 0" "qdb__put_u32le c"] by simp
  then show ?thesis
    by (simp add: header_encode_def Let_def put_header_fields_eq hdr_bytes_def)
qed

lemma hdr_bytes_slices:
  "take 8 (hdr_bytes db) = k_file_magic"
  "slice (hdr_bytes db) 8 4 = qdb__put_u32le 1"
  "slice (hdr_bytes db) 12 4 = qdb__put_u32le 4096"
  "slice (hdr_bytes db) 16 8 = qdb__put_u64le (db_create_time_us db)"
  "slice (hdr_bytes db) 24 8 = qdb__put_u64le (db_next_msg_id db)"
  "slice (hdr_bytes db) 32 8 = qdb__put_u64le (db_log_start_offset db)"
  "slice (hdr_bytes db) 40 8 = qdb__put_u64le (db_log_end_offset db)"
  "slice (hdr_bytes db) 48 4 = qdb__put_u32le (db_flags db)"
  "slice (hdr_bytes db) 52 4 = qdb__put_u32le (crc32 (hdr_fields db))"
  "take 52 (hdr_bytes db) = hdr_fields db"
  by (simp_all add: hdr_bytes_def hdr_fields_def slice_def)

lemma has_header_fields:
  assumes "has_header d db"
  shows "qdb__get_u32le (drop 8 d) = 1" "qdb__get_u32le (drop 12 d) = 4096"
    "qdb__get_u64le (drop 16 d) = db_create_time_us db" "qdb__get_u64le (drop 24 d) = db_next_msg_id db"
    "qdb__get_u64le (drop 32 d) = db_log_start_offset db" "qdb__get_u64le (drop 40 d) = db_log_end_offset db"
    "qdb__get_u32le (drop 48 d) = db_flags db" "qdb__get_u32le (drop 52 d) = crc32 (hdr_fields db)"
    "take 8 d = k_file_magic" "take 52 d = hdr_fields db"
proof -
  have sl: "slice d i n = slice (hdr_bytes db) i n" if "i + n \<le> 56" for i n
    using assms slice_take [OF that, of d] by (simp add: has_header_def)
  show "qdb__get_u32le (drop 8 d) = 1" "qdb__get_u32le (drop 12 d) = 4096"
    "qdb__get_u64le (drop 16 d) = db_create_time_us db" "qdb__get_u64le (drop 24 d) = db_next_msg_id db"
    "qdb__get_u64le (drop 32 d) = db_log_start_offset db" "qdb__get_u64le (drop 40 d) = db_log_end_offset db"
    "qdb__get_u32le (drop 48 d) = db_flags db" "qdb__get_u32le (drop 52 d) = crc32 (hdr_fields db)"
    by (rule u32le.get_of_slice u64le.get_of_slice, simp add: sl hdr_bytes_slices)+
  show "take 8 d = k_file_magic" "take 52 d = hdr_fields db"
    using sl [of 0 8] sl [of 0 52] by (simp_all add: slice_eq_take hdr_bytes_slices)
qed

lemma header_decode_ok:
  assumes "has_header d db" and "4096 \<le> db_log_start_offset db"
    and "db_log_start_offset db \<le> db_log_end_offset db"
  shows "header_decode d db0 = (QDB_OK, db0\<lparr>db_create_time_us := db_create_time_us db,
     db_next_msg_id := db_next_msg_id db, db_log_start_offset := db_log_start_offset db,
     db_log_end_offset := db_log_end_offset db, db_flags := db_flags db\<rparr>)"
  using assms(2,3) has_header_fields [OF assms(1)]
  by (simp add: header_decode_def Let_def not_less)

lemma has_header_encode: "has_header (header_encode db) db"
  by (simp add: has_header_def header_encode_eq)

lemma has_header_take: "56 \<le> n \<Longrightarrow> has_header (take n d) db = has_header d db"
  by (simp add: has_header_def min_def)

text \<open>
  Conversely, whatever \<open>header_decode\<close> accepts is byte for byte the header of the handle it fills in.
\<close>

lemma header_decode_sound:
  assumes "header_decode d db0 = (QDB_OK, db)" and "56 \<le> length d"
  shows "has_header d db" "4096 \<le> db_log_start_offset db"
    "db_log_start_offset db \<le> db_log_end_offset db"
proof -
  let ?crc = "qdb__get_u32le (drop 52 d)"
  from assms(1) have acc: "take 8 d = k_file_magic" "crc32 (take 52 d) = ?crc"
    "\<not> (qdb__get_u32le (drop 8 d) < 1 \<or> qdb__get_u32le (drop 8 d) > 1)" "qdb__get_u32le (drop 12 d) = 4096"
    and db: "db = db0\<lparr>db_create_time_us := qdb__get_u64le (drop 16 d),
         db_next_msg_id := qdb__get_u64le (drop 24 d), db_log_start_offset := qdb__get_u64le (drop 32 d),
         db_log_end_offset := qdb__get_u64le (drop 40 d), db_flags := qdb__get_u32le (drop 48 d)\<rparr>"
    and bounds: "4096 \<le> db_log_start_offset db" "db_log_start_offset db \<le> db_log_end_offset db"
    by (auto simp: header_decode_def Let_def split: if_splits)
  from acc(3) have v: "qdb__get_u32le (drop 8 d) = 1" by (meson linorder_neqE)
  have put4: "qdb__put_u32le (qdb__get_u32le (drop n d)) = slice d n 4" if "n \<le> 52" for n
    using assms(2) that by (simp add: u32le.put_get slice_def)
  have put8: "qdb__put_u64le (qdb__get_u64le (drop n d)) = slice d n 8" if "n \<le> 48" for n
    using assms(2) that by (simp add: u64le.put_get slice_def)
  have "hdr_fields db = slice d 0 8 @ slice d 8 4 @ slice d 12 4 @ slice d 16 8 @ slice d 24 8 @
      slice d 32 8 @ slice d 40 8 @ slice d 48 4"
    using put4 [of 8] put4 [of 12]
    by (simp add: hdr_fields_def db put4 put8 acc(1) [symmetric] v acc(4) slice_eq_take)
  also have "\<dots> = take 52 d"
    by (simp add: slice_eq_take take_slice del: append_assoc flip: append_assoc)
  finally have f: "hdr_fields db = take 52 d" .
  have "hdr_bytes db = take 52 d @ slice d 52 4"
    by (simp add: hdr_bytes_def f acc(2) put4)
  then show "has_header d db"
    using slice_add [of d 0 52 4] by (simp add: has_header_def slice_eq_take)
  show "4096 \<le> db_log_start_offset db" "db_log_start_offset db \<le> db_log_end_offset db"
    by (fact bounds)+
qed

lemma hdr_bytes_take24:
  "take 24 (hdr_bytes db) = k_file_magic @ qdb__put_u32le 1 @ qdb__put_u32le 4096 @
     qdb__put_u64le (db_create_time_us db)"
  by (simp add: hdr_bytes_def hdr_fields_def)

lemma header_patch:
  assumes "has_header d db0" and "db_create_time_us db = db_create_time_us db0"
  shows "has_header (splice d 24 (drop 24 (hdr_bytes db))) db"
proof -
  from assms(1) have d: "take 56 d = hdr_bytes db0" by (simp add: has_header_def)
  from arg_cong [OF d, of length] have "24 \<le> length d" by simp
  from arg_cong [OF d, of "take 24"] have "take 24 d = take 24 (hdr_bytes db0)" by simp
  then have "take 24 d = take 24 (hdr_bytes db)" using assms(2) by (simp add: hdr_bytes_take24)
  then have "splice d 24 (drop 24 (hdr_bytes db)) = hdr_bytes db @ drop 56 d"
    using \<open>24 \<le> length d\<close> by (simp add: splice_within flip: append_assoc)
  then show ?thesis by (simp add: has_header_def)
qed

section \<open>Writes that keep the bytes below an offset\<close>

text \<open>
  \<open>stable_below p n\<close>: the contents of the inode, and every older content a crash could bring back,
  start with the bytes \<open>p\<close>.  \<open>tail_write w w' i off\<close>: the step changed only inode \<open>i\<close>, and kept every
  such front of length at most \<open>off\<close>.
\<close>

definition stable_below :: "bytes \<Rightarrow> inode \<Rightarrow> bool" where
  "stable_below p n \<longleftrightarrow> (\<forall>v \<in> insert (ino_data n) (set (ino_old n)). take (length p) v = p)"

definition tail_write :: "world \<Rightarrow> world \<Rightarrow> nat \<Rightarrow> nat \<Rightarrow> bool" where
  "tail_write w w' i off \<longleftrightarrow> only_file w w' i \<and>
     (\<forall>p. length p \<le> off \<longrightarrow> stable_below p (w_ino w i) \<longrightarrow> stable_below p (w_ino w' i))"

lemma tail_write_only: "tail_write w w' i off \<Longrightarrow> only_file w w' i"
  by (simp add: tail_write_def)

lemma tail_write_trans [trans]:
  "tail_write a b i off \<Longrightarrow> tail_write b c i off \<Longrightarrow> tail_write a c i off"
  by (auto simp: tail_write_def intro: only_file_trans)

lemma tail_write_mono: "tail_write a b i off \<Longrightarrow> off' \<le> off \<Longrightarrow> tail_write a b i off'"
  by (auto simp: tail_write_def)

lemma same_fs_tail_write: "same_fs a b \<Longrightarrow> tail_write a b i off"
  by (auto simp: tail_write_def same_fs_only_file same_fs_simps)

lemma wrote_prefix_stable:
  assumes "wrote_prefix n n' off buf k" and "stable_below p n" and "length p \<le> off"
  shows "stable_below p n'"
proof -
  have d: "take (length p) (ino_data n) = p" using assms(2) by (simp add: stable_below_def)
  then have "length p \<le> length (ino_data n)" by (metis length_take min.cobounded1)
  then have sp: "take (length p) (splice (ino_data n) off b) = p" for b
    using d assms(3) by (simp add: take_splice)
  show ?thesis
    using assms(1,2) sp unfolding stable_below_def wrote_prefix_def by auto
qed

lemma write_full_spec:
  assumes "qdb__write_full w fd buf off = (rc, w')" and "w_fds w fd = Some i"
    and "unat off + length buf < 2 ^ 63" and "unat off \<le> length (ino_data (w_ino w i))"
  shows "tail_write w w' i (unat off) \<and> (rc = QDB_OK \<or> rc = QDB_ERR_IO) \<and>
    (\<exists>k. ino_data (w_ino w' i) = splice (ino_data (w_ino w i)) (unat off) (take k buf)) \<and>
    (rc = QDB_OK \<longrightarrow> ino_data (w_ino w' i) = splice (ino_data (w_ino w i)) (unat off) buf) \<and>
    (calm w \<longrightarrow> rc = QDB_OK)"
proof -
  have "unat off + length buf < 2 ^ 64" using assms(3) by simp
  from qdb__pwrite_spec [OF assms(1) [unfolded qdb__write_full_def] assms(2) this assms(4)]
  obtain k where k: "only_file w w' i" "rc = QDB_OK \<or> rc = QDB_ERR_IO"
    "wrote_prefix (w_ino w i) (w_ino w' i) (unat off) buf k" "rc = QDB_OK \<longrightarrow> k = length buf"
    by blast
  have "calm w \<longrightarrow> rc = QDB_OK"
    using qdb__pwrite_calm [OF _ assms(2,3)] assms(1) by (auto simp: qdb__write_full_def)
  with k wrote_prefix_stable [OF k(3)] show ?thesis
    by (auto simp: tail_write_def wrote_prefix_def)
qed

lemma sync_tail_write:
  assumes "qdb__file_sync w fd = (rc, w')" and "w_fds w fd = Some i"
  shows "tail_write w w' i off"
proof -
  note sp = qdb__file_sync_spec [OF assms]
  have "stable_below p (w_ino w' i)" if "stable_below p (w_ino w i)" for p
    using sp that unfolding stable_below_def by (cases "rc = QDB_OK") auto
  with sp show ?thesis by (simp add: tail_write_def)
qed

lemma tail_write_fds: "tail_write w w' i off \<Longrightarrow> w_fds w' = w_fds w"
  by (auto simp: tail_write_def only_file_def)

lemma tail_write_calm: "tail_write w w' i off \<Longrightarrow> calm w \<Longrightarrow> calm w'"
  by (auto simp: tail_write_def intro: calm_only_file)

section \<open>The header patch\<close>

lemma header_update_eq:
  "qdb__header_update w fd db =
     (let (rc, w1) = qdb__write_full w fd (drop 24 (hdr_bytes db)) 24 in
      if rc \<noteq> QDB_OK then (QDB_ERR_IO, w1) else qdb__file_sync w1 fd)"
proof -
  have "drop 24 (hdr_bytes db) = qdb__put_u64le (db_next_msg_id db) @ qdb__put_u64le (db_log_start_offset db) @
      qdb__put_u64le (db_log_end_offset db) @ qdb__put_u32le (db_flags db) @
      qdb__put_u32le (crc32 (hdr_fields db))"
    by (simp add: hdr_bytes_def hdr_fields_def)
  then show ?thesis
    by (simp add: qdb__header_update_def Let_def put_header_fields_eq)
qed

lemma header_update_spec:
  assumes up: "qdb__header_update w fd db = (rc, w')" and fd: "w_fds w fd = Some i"
    and len: "56 \<le> length (ino_data (w_ino w i))"
  shows "only_file w w' i \<and> (rc = QDB_OK \<or> rc = QDB_ERR_IO) \<and>
    (\<exists>k. ino_data (w_ino w' i) = splice (ino_data (w_ino w i)) 24 (take k (drop 24 (hdr_bytes db)))) \<and>
    (rc = QDB_OK \<longrightarrow> ino_data (w_ino w' i) = splice (ino_data (w_ino w i)) 24 (drop 24 (hdr_bytes db)) \<and>
       ino_old (w_ino w' i) = []) \<and> (calm w \<longrightarrow> rc = QDB_OK)"
proof -
  obtain rc1 w1 where wr: "qdb__write_full w fd (drop 24 (hdr_bytes db)) 24 = (rc1, w1)" by fastforce
  have "unat (24 :: u64) + length (drop 24 (hdr_bytes db)) < 2 ^ 63" by simp
  note sp = write_full_spec [OF wr fd this]
  have sp: "tail_write w w1 i 24" "rc1 = QDB_OK \<or> rc1 = QDB_ERR_IO"
    "\<exists>k. ino_data (w_ino w1 i) = splice (ino_data (w_ino w i)) 24 (take k (drop 24 (hdr_bytes db)))"
    "rc1 = QDB_OK \<longrightarrow> ino_data (w_ino w1 i) = splice (ino_data (w_ino w i)) 24 (drop 24 (hdr_bytes db))"
    "calm w \<longrightarrow> rc1 = QDB_OK"
    using sp len by simp_all
  show ?thesis
  proof (cases "rc1 = QDB_OK")
    case False
    with up wr sp show ?thesis by (auto simp: header_update_eq tail_write_only)
  next
    case True
    then have sy: "qdb__file_sync w1 fd = (rc, w')" using up wr by (simp add: header_update_eq)
    have fd1: "w_fds w1 fd = Some i" using fd tail_write_fds [OF sp(1)] by simp
    note s = qdb__file_sync_spec [OF sy fd1]
    show ?thesis
      using s sp True tail_write_calm [OF sp(1)] only_file_trans [OF tail_write_only [OF sp(1)]] by auto
  qed
qed

text \<open>What a header patch can leave behind, failed or not: every content is one with a part of the patch.\<close>

lemma header_update_contents:
  assumes up: "qdb__header_update w fd db = (rc, w')" and fd: "w_fds w fd = Some i"
    and len: "56 \<le> length (ino_data (w_ino w i))"
    and v: "v \<in> insert (ino_data (w_ino w' i)) (set (ino_old (w_ino w' i)))"
  shows "v \<in> set (ino_old (w_ino w i)) \<or> (\<exists>k. v = splice (ino_data (w_ino w i)) 24 (take k (drop 24 (hdr_bytes db))))"
proof -
  obtain rc1 w1 where wr: "qdb__write_full w fd (drop 24 (hdr_bytes db)) 24 = (rc1, w1)" by fastforce
  have "unat (24 :: u64) + length (drop 24 (hdr_bytes db)) < 2 ^ 64" by simp
  from qdb__pwrite_spec [OF wr [unfolded qdb__write_full_def] fd this] len obtain k where
    sp: "only_file w w1 i" "wrote_prefix (w_ino w i) (w_ino w1 i) 24 (drop 24 (hdr_bytes db)) k" by auto
  have "v \<in> insert (ino_data (w_ino w1 i)) (set (ino_old (w_ino w1 i)))"
  proof (cases "rc1 = QDB_OK")
    case False
    with up wr v show ?thesis by (simp add: header_update_eq)
  next
    case True
    then have sy: "qdb__file_sync w1 fd = (rc, w')" using up wr by (simp add: header_update_eq)
    have "w_fds w1 fd = Some i" using fd only_file_simps(2) [OF sp(1)] by simp
    from qdb__file_sync_spec [OF sy this] v show ?thesis by (cases "rc = QDB_OK") auto
  qed
  with sp(2) show ?thesis by (auto simp: wrote_prefix_def)
qed

section \<open>Appending a record\<close>

definition enc_rec :: "u8 \<Rightarrow> bytes \<Rightarrow> bytes" where
  "enc_rec t p = [t] @ qdb__put_u32le (of_nat (length p)) @ qdb__put_u32le (crc32 p) @ p @ [QDB_COMMIT_MARKER]"

lemma length_enc_rec [simp, slice_simps]: "length (enc_rec t p) = 10 + length p"
  by (simp add: enc_rec_def)

lemma enc_rec_not_Nil [simp]: "enc_rec t p \<noteq> []"
  by (simp add: enc_rec_def)

text \<open>
  One step of the append protocol (a write or a sync of the log's tail), and the outcome of a whole
  append that must end with contents \<open>dfin\<close> and offset \<open>ofin\<close>.
\<close>

definition log_step :: "world \<Rightarrow> nat \<Rightarrow> nat \<Rightarrow> nat \<Rightarrow> bytes \<Rightarrow> int \<times> world \<Rightarrow> bool" where
  "log_step w i off lim d res \<longleftrightarrow> (case res of (rc, w') \<Rightarrow>
     tail_write w w' i off \<and> length (ino_data (w_ino w' i)) \<le> max (length (ino_data (w_ino w i))) lim \<and> (rc = QDB_OK \<or> rc = QDB_ERR_IO) \<and>
     (rc = QDB_OK \<longrightarrow> ino_data (w_ino w' i) = d) \<and> (calm w \<longrightarrow> rc = QDB_OK))"

definition appended :: "world \<Rightarrow> nat \<Rightarrow> u64 \<Rightarrow> nat \<Rightarrow> bytes \<Rightarrow> u64 \<Rightarrow> int \<times> u64 \<times> world \<Rightarrow> bool" where
  "appended w i offset lim dfin ofin res \<longleftrightarrow> (case res of (rc, off', w') \<Rightarrow>
     tail_write w w' i (unat offset) \<and> length (ino_data (w_ino w' i)) \<le> max (length (ino_data (w_ino w i))) lim \<and> (rc = QDB_OK \<or> rc = QDB_ERR_IO) \<and>
     (rc = QDB_OK \<longrightarrow> ino_data (w_ino w' i) = dfin \<and> ino_old (w_ino w' i) = [] \<and> off' = ofin) \<and>
     (rc \<noteq> QDB_OK \<longrightarrow> off' = offset) \<and> (calm w \<longrightarrow> rc = QDB_OK))"

lemma log_step_write:
  assumes "w_fds w fd = Some i" and "unat woff + length buf < 2 ^ 63"
    and "unat woff \<le> length (ino_data (w_ino w i))" and "off \<le> unat woff" and "unat woff + length buf \<le> lim"
  shows "log_step w i off lim (splice (ino_data (w_ino w i)) (unat woff) buf) (qdb__write_full w fd buf woff)"
proof -
  obtain rc w' where wr: "qdb__write_full w fd buf woff = (rc, w')" by fastforce
  note sp = write_full_spec [OF wr assms(1-3)]
  then obtain k where "ino_data (w_ino w' i) = splice (ino_data (w_ino w i)) (unat woff) (take k buf)" by blast
  then have "length (ino_data (w_ino w' i)) \<le> max (length (ino_data (w_ino w i))) lim"
    using assms(5) by (auto simp: min_def max_def)
  with sp wr assms(4) show ?thesis by (auto simp: log_step_def intro: tail_write_mono)
qed

lemma log_step_sync:
  assumes "w_fds w fd = Some i"
  shows "log_step w i off lim (ino_data (w_ino w i)) (qdb__file_sync w fd)"
  using qdb__file_sync_spec [OF _ assms] sync_tail_write [OF _ assms]
  by (cases "qdb__file_sync w fd") (auto simp: log_step_def)

lemma appended_seq:
  assumes "log_step w i (unat offset) lim d1 res"
    and "\<And>w1. res = (QDB_OK, w1) \<Longrightarrow> w_fds w1 = w_fds w \<Longrightarrow> ino_data (w_ino w1 i) = d1 \<Longrightarrow>
      appended w1 i offset lim dfin ofin (k w1)"
  shows "appended w i offset lim dfin ofin
    (let (rc, w1) = res in if rc \<noteq> QDB_OK then (QDB_ERR_IO, offset, w1) else k w1)"
proof (cases res)
  case (Pair rc w1)
  show ?thesis
  proof (cases "rc = QDB_OK")
    case True
    have "appended w1 i offset lim dfin ofin (k w1)"
      using assms Pair True by (auto simp: log_step_def tail_write_fds)
    with assms(1) Pair True show ?thesis
      by (auto simp: appended_def log_step_def dest: tail_write_calm intro: tail_write_trans)
  qed (use assms(1) Pair in \<open>auto simp: appended_def log_step_def\<close>)
qed

lemma append_record_eq:
  assumes "length p = unat plen"
  shows "qdb__append_record w fd t p plen off =
    (let (rc, w1) = qdb__write_full w fd ([t] @ qdb__put_u32le plen @ qdb__put_u32le (crc32 p)) off in
     if rc \<noteq> QDB_OK then (QDB_ERR_IO, off, w1) else
     let (rc, w2) = (if plen > 0 then qdb__write_full w1 fd p (off + 9) else (QDB_OK, w1)) in
     if rc \<noteq> QDB_OK then (QDB_ERR_IO, off, w2) else
     let (rc, w3) = qdb__file_sync w2 fd in
     if rc \<noteq> QDB_OK then (QDB_ERR_IO, off, w3) else
     let (rc, w4) = qdb__write_full w3 fd [QDB_COMMIT_MARKER] (off + 9 + ucast plen) in
     if rc \<noteq> QDB_OK then (QDB_ERR_IO, off, w4) else
     let (rc, w5) = qdb__file_sync w4 fd in
     if rc \<noteq> QDB_OK then (QDB_ERR_IO, off, w5) else (QDB_OK, off + 9 + ucast plen + 1, w5))"
proof -
  have "take (unat plen) p = p" by (simp add: assms)
  then show ?thesis unfolding qdb__append_record_def by (simp only: Let_def crc_of_eq of_nat_numeral)
qed

lemma append_record_appended:
  assumes fd: "w_fds w fd = Some i"
    and len: "length p = unat plen" and bnd: "unat off + 10 + length p < 2 ^ 63"
    and off: "unat off \<le> length (ino_data (w_ino w i))"
  shows "appended w i off (unat off + 10 + length p) (splice (ino_data (w_ino w i)) (unat off) (enc_rec t p))
    (off + of_nat (10 + length p)) (qdb__append_record w fd t p plen off)"
proof -
  let ?d = "ino_data (w_ino w i)" and ?po = "off + 9" and ?mo = "off + 9 + ucast plen"
  let ?hdr = "[t] @ qdb__put_u32le plen @ qdb__put_u32le (crc32 p)"
  have po: "unat ?po = unat off + 9" using wf_offset [of off 9] bnd by simp
  have mo: "unat ?mo = unat off + 9 + length p"
    using unat_add_u64 [of ?po "ucast plen"] po len bnd by simp
  have sp: "splice (splice ?d (unat off) a) (unat off + length a) b = splice ?d (unat off) (a @ b)" for a b
    by (rule splice_splice [OF off])
  have hp: "splice (splice ?d (unat off) ?hdr) (unat off + 9) p = splice ?d (unat off) (?hdr @ p)"
    using sp [of ?hdr p] by simp
  have rec: "splice (splice ?d (unat off) (?hdr @ p)) (unat off + 9 + length p) [QDB_COMMIT_MARKER]
      = splice ?d (unat off) (enc_rec t p)"
    using sp [of "?hdr @ p" "[QDB_COMMIT_MARKER]"] by (simp add: enc_rec_def len add.assoc)
  have ofin: "?mo + 1 = off + of_nat (10 + length p)"
    by (simp add: len add.commute add.left_commute)
  let ?lim = "unat off + 10 + length p"
  have second: "log_step w1 i (unat off) ?lim (splice ?d (unat off) (?hdr @ p))
      (if plen > 0 then qdb__write_full w1 fd p ?po else (QDB_OK, w1))"
    if "w_fds w1 = w_fds w" "ino_data (w_ino w1 i) = splice ?d (unat off) ?hdr" for w1
    using log_step_write [of w1 fd i ?po p "unat off" ?lim] that fd off bnd hp len
    by (auto simp: po log_step_def word_less_nat_alt same_fs_tail_write)
  have last: "appended w4 i off ?lim (splice ?d (unat off) (enc_rec t p)) (off + of_nat (10 + length p))
      (let (rc, w5) = qdb__file_sync w4 fd in
       if rc \<noteq> QDB_OK then (QDB_ERR_IO, off, w5) else (QDB_OK, ?mo + 1, w5))"
    if "w_fds w4 = w_fds w" "ino_data (w_ino w4 i) = splice ?d (unat off) (enc_rec t p)" for w4
    using qdb__file_sync_spec [of w4 fd _ _ i] sync_tail_write [of w4 fd _ _ i "unat off"] that fd ofin
    by (auto simp: appended_def split: prod.splits)
  show ?thesis
    unfolding append_record_eq [OF len]
  proof (rule appended_seq [OF log_step_write [OF fd _ off order_refl]], goal_cases)
    case (3 w1)
    then show ?case
    proof (intro appended_seq [OF second], goal_cases)
      case (3 w2)
      note w2 = 3
      show ?case
      proof (rule appended_seq [OF log_step_sync [where off = "unat off"]], goal_cases)
        case (2 w3)
        then show ?case
          using w2 fd off bnd mo rec
          by (intro appended_seq [OF log_step_write] last) auto
      qed (use w2 fd in simp)
    qed auto
  qed (use bnd in simp_all)
qed

lemma append_record_spec:
  assumes "qdb__append_record w fd t p plen off = (rc, off', w')" and "w_fds w fd = Some i"
    and "length p = unat plen" and "unat off + 10 + length p < 2 ^ 63"
    and "unat off \<le> length (ino_data (w_ino w i))"
  shows "tail_write w w' i (unat off) \<and> (rc = QDB_OK \<or> rc = QDB_ERR_IO) \<and>
    length (ino_data (w_ino w' i)) \<le> max (length (ino_data (w_ino w i))) (unat off + 10 + length p) \<and>
    (rc = QDB_OK \<longrightarrow> ino_data (w_ino w' i) = splice (ino_data (w_ino w i)) (unat off) (enc_rec t p) \<and>
       ino_old (w_ino w' i) = [] \<and> off' = off + of_nat (10 + length p) \<and>
       unat off' = unat off + 10 + length p) \<and>
    (rc \<noteq> QDB_OK \<longrightarrow> off' = off) \<and> (calm w \<longrightarrow> rc = QDB_OK)"
proof -
  have "unat (off + of_nat (10 + length p)) = unat off + (10 + length p)"
    using assms(4) by (intro wf_offset) simp
  then show ?thesis
    using append_record_appended [OF assms(2-5), of t] assms(1) by (auto simp: appended_def)
qed

section \<open>Scanning a record\<close>

lemma scan_crc_spec:
  assumes "scan_crc w fd po plen remaining st = (rc, st', w')"
    and "unat remaining \<le> unat plen" and "unat po + unat plen < 2 ^ 64"
  shows "same_fs w w' \<and> (rc = QDB_OK \<or> rc = QDB_ERR_IO) \<and>
    (rc = QDB_OK \<longrightarrow>
       st' = fold crc_byte (slice (fdata w fd) (unat po + (unat plen - unat remaining)) (unat remaining)) st) \<and>
    (calm w \<and> w_fds w fd = Some i \<and> unat po + unat plen \<le> length (fdata w fd) \<and> length (fdata w fd) < 2 ^ 63
       \<longrightarrow> rc = QDB_OK)"
  using assms
proof (induction w fd po plen remaining st rule: scan_crc.induct)
  case (1 w fd po plen remaining st)
  show ?case
  proof (cases "remaining > 0")
    case False
    with "1.prems"(1) show ?thesis by (auto simp: scan_crc.simps [of w] word_less_nat_alt)
  next
    case True
    define n :: u32 where "n = (if remaining < 4096 then remaining else 4096)"
    define off where "off = po + ucast (plen - remaining)"
    have n: "unat n \<le> unat remaining" "unat n \<le> 4096" "n \<le> remaining"
      by (auto simp: n_def word_less_nat_alt word_le_nat_alt not_less)
    have pr: "unat (plen - remaining) = unat plen - unat remaining"
      using "1.prems"(2) by (simp add: unat_sub word_le_nat_alt)
    have off: "unat off = unat po + (unat plen - unat remaining)"
      using "1.prems"(3) pr unat_add_u64 [of po "ucast (plen - remaining)"] by (simp add: off_def)
    have rem: "unat (remaining - n) = unat remaining - unat n"
      using n(3) by (simp add: unat_sub)
    obtain r1 chunk w1 where rd: "qdb__read_full w fd (unat n) off = (r1, chunk, w1)"
      by (metis prod_cases3)
    have sp: "same_fs w w1" "r1 = QDB_OK \<or> r1 = QDB_ERR_IO"
      "r1 = QDB_OK \<longrightarrow> chunk = slice (fdata w fd) (unat off) (unat n)"
      using read_full_spec [OF rd] n(2) by auto
    note same = same_fs_simps [OF sp(1)]
    have calm1: "r1 = QDB_OK" if "calm w" "w_fds w fd = Some i"
      "unat po + unat plen \<le> length (fdata w fd)" "length (fdata w fd) < 2 ^ 63"
      using read_full_calm [OF rd that(1,2)] that(3,4) off n "1.prems"(2) by simp
    show ?thesis
    proof (cases "r1 = QDB_OK")
      case False
      with "1.prems"(1) True rd sp calm1 show ?thesis
        by (auto simp: scan_crc.simps [of w] Let_def n_def [symmetric] off_def [symmetric])
    next
      case r1: True
      have rec: "scan_crc w1 fd po plen (remaining - n) (crc_update st chunk) = (rc, st', w')"
        using "1.prems"(1) True rd r1
        by (simp add: scan_crc.simps [of w] Let_def n_def [symmetric] off_def [symmetric])
      have "unat (remaining - n) \<le> unat plen" using rem "1.prems"(2) by simp
      from "1.IH" [OF True n_def off_def refl rd [symmetric] refl _ rec this "1.prems"(3)] r1
      have ih: "same_fs w1 w'" "rc = QDB_OK \<or> rc = QDB_ERR_IO"
        "rc = QDB_OK \<Longrightarrow> st' = fold crc_byte (slice (fdata w fd)
            (unat po + (unat plen - unat (remaining - n))) (unat (remaining - n))) (fold crc_byte chunk st)"
        "calm w \<and> w_fds w fd = Some i \<and> unat po + unat plen \<le> length (fdata w fd) \<and>
            length (fdata w fd) < 2 ^ 63 \<Longrightarrow> rc = QDB_OK"
        by (auto simp: same calm_same_fs [OF sp(1)])
      have "slice (fdata w fd) (unat off) (unat remaining) =
          chunk @ slice (fdata w fd) (unat off + unat n) (unat remaining - unat n)"
        using slice_add [of "fdata w fd" "unat off" "unat n" "unat remaining - unat n"] sp(3) r1 n(1) by simp
      moreover have "unat po + (unat plen - unat (remaining - n)) = unat off + unat n"
        using off rem n(1) "1.prems"(2) by simp
      ultimately show ?thesis
        using ih same_fs_trans [OF sp(1)] by (auto simp: off rem add.assoc)
    qed
  qed
qed

text \<open>
  What a scan learns from the header bytes it reads, and that this plus the marker and the CRC is
  exactly an encoded record.
\<close>

lemma enc_rec_intro:
  assumes len: "off + 10 + n \<le> length d" and n: "n < 2 ^ 32"
    and plen: "qdb__get_u32le (drop (off + 1) d) = of_nat n"
    and crc: "qdb__get_u32le (drop (off + 5) d) = crc32 (slice d (off + 9) n)"
    and mark: "d ! (off + 9 + n) = QDB_COMMIT_MARKER"
  shows "slice d off (10 + n) = enc_rec (d ! off) (slice d (off + 9) n)"
proof -
  have one: "slice d k (Suc 0) = [d ! k]" if "k < length d" for k
    using that by (simp add: slice_def take_Suc Cons_nth_drop_Suc [symmetric])
  have "slice d off (10 + n) = slice d off (1 + (4 + (4 + (n + 1))))" by (simp add: add.commute)
  also have "\<dots> = slice d off 1 @ slice d (off + 1) 4 @ slice d (off + 5) 4 @ slice d (off + 9) n @
      slice d (off + 9 + n) 1"
    by (simp only: slice_add) (simp add: add.commute)
  also have "slice d (off + 1) 4 = qdb__put_u32le (of_nat n)"
    using u32le.put_get [of "drop (off + 1) d"] plen len by (simp add: slice_def)
  also have "slice d (off + 5) 4 = qdb__put_u32le (crc32 (slice d (off + 9) n))"
    using u32le.put_get [of "drop (off + 5) d"] crc len by (simp add: slice_def)
  finally show ?thesis using len mark by (simp add: one enc_rec_def)
qed

lemma enc_rec_elim:
  assumes enc: "slice d off (10 + length p) = enc_rec t p" and len: "off + 10 + length p \<le> length d"
  shows "d ! off = t" "qdb__get_u32le (drop (off + 1) d) = of_nat (length p)"
    "qdb__get_u32le (drop (off + 5) d) = crc32 p" "d ! (off + 9 + length p) = QDB_COMMIT_MARKER"
    "slice d (off + 9) (length p) = p"
proof -
  have nth: "d ! (off + k) = enc_rec t p ! k" if "k < 10 + length p" for k
    using that len unfolding enc [symmetric] by (simp add: slice_def)
  have sl: "slice d (off + k) m = slice (enc_rec t p) k m" if "k + m \<le> 10 + length p" for k m
    using slice_slice [OF that, of d off] enc by simp
  show "d ! off = t" using nth [of 0] by (simp add: enc_rec_def)
  show "d ! (off + 9 + length p) = QDB_COMMIT_MARKER"
    using nth [of "9 + length p"] by (simp add: enc_rec_def nth_append add.assoc)
  show "qdb__get_u32le (drop (off + 1) d) = of_nat (length p)"
    using sl [of 1 4] by (intro u32le.get_of_slice) (simp add: enc_rec_def slice_def)
  show "qdb__get_u32le (drop (off + 5) d) = crc32 p"
    using sl [of 5 4] by (intro u32le.get_of_slice) (simp add: enc_rec_def slice_def)
  show "slice d (off + 9) (length p) = p"
    using sl [of 9 "length p"] by (simp add: enc_rec_def slice_def)
qed

lemma scan_bounds:
  assumes "unat (off :: u64) < 2 ^ 63" and "plen \<le> QDB_MAX_RECORD_PAYLOAD"
  shows "unat (off + of_nat 9) = unat off + 9"
    "unat (off + of_nat 9 + ucast plen) = unat off + 9 + unat plen"
    "unat (off + of_nat 9 + ucast plen + 1) = unat off + 10 + unat plen"
proof -
  have p: "unat plen \<le> 67109376" using assms(2) by (simp add: word_le_nat_alt)
  have off: "unat off + (10 + unat plen) < 2 ^ 64" using assms(1) p by simp
  show 1: "unat (off + of_nat 9) = unat off + 9" using off by (intro wf_offset) simp
  show 2: "unat (off + of_nat 9 + ucast plen) = unat off + 9 + unat plen"
    using unat_add_u64 [of "off + of_nat 9" "ucast plen"] 1 off by simp
  show "unat (off + of_nat 9 + ucast plen + 1) = unat off + 10 + unat plen"
    using wf_offset [of "off + of_nat 9 + ucast plen" 1] 2 off by simp
qed

text \<open>
  The scan as the reads it makes: an accepted record went through all five tests on the bytes of
  the file, and every refusal leaves the offset where it was.
\<close>

lemma scan_record_eq:
  assumes "\<not> (off \<ge> eoff \<or> eoff - off < of_nat (9 + 1))"
    and 1: "qdb__read_full w fd 9 off = (r1, hdr, w1)" and "r1 = QDB_OK"
    and n: "n = qdb__get_u32le (drop 1 hdr)" "n \<le> QDB_MAX_RECORD_PAYLOAD"
    and 2: "qdb__read_full w1 fd 1 (off + of_nat 9 + ucast n) = (r2, mk, w2)"
    and 3: "scan_crc w2 fd (off + of_nat 9) n n 0xFFFFFFFF = (r3, st, w3)"
  shows "qdb__scan_record w fd off eoff =
      (if off + of_nat 9 + ucast n + 1 > eoff then (QDB__SCAN_PARTIAL, 0, 0, off, w1)
       else if r2 \<noteq> QDB_OK then (QDB_ERR_IO, 0, 0, off, w2)
       else if mk ! 0 \<noteq> QDB_COMMIT_MARKER then (QDB__SCAN_PARTIAL, 0, 0, off, w2)
       else if \<not> is_known_type (hdr ! 0) then (QDB_ERR_CORRUPT, 0, 0, off, w2)
       else if r3 \<noteq> QDB_OK then (QDB_ERR_IO, 0, 0, off, w3)
       else if qdb__crc32_end st \<noteq> qdb__get_u32le (drop 5 hdr) then (QDB_ERR_CORRUPT, 0, 0, off, w3)
       else (QDB_OK, hdr ! 0, n, off + of_nat 9 + ucast n + 1, w3))"
proof -
  have "qdb__get_u32le (drop (Suc 0) hdr) = n" by (simp add: n)
  then show ?thesis using assms by (auto simp: qdb__scan_record_def Let_def)
qed

text \<open>The header bytes of a record, read field by field.\<close>

lemma hdr_slice:
  assumes "off + 9 \<le> length d"
  shows "slice d off 9 ! 0 = d ! off"
    "k \<le> 5 \<Longrightarrow> qdb__get_u32le (drop k (slice d off 9)) = qdb__get_u32le (drop (off + k) d)"
  using assms u32le.get_take [of "9 - k" "drop (off + k) d"]
  by (simp_all add: slice_def drop_take add.commute)

lemma scan_record_spec:
  assumes sc: "qdb__scan_record w fd off eoff = (rc, t, plen, off', w')"
  shows "same_fs w w' \<and> (rc \<noteq> QDB_OK \<longrightarrow> off' = off) \<and>
    rc \<in> {QDB_OK, QDB__SCAN_END, QDB__SCAN_PARTIAL, QDB_ERR_CORRUPT, QDB_ERR_IO} \<and>
    (rc = QDB_OK \<longrightarrow>
       slice (fdata w fd) (unat off) (10 + unat plen)
         = enc_rec t (slice (fdata w fd) (unat off + 9) (unat plen)) \<and>
       unat off + 10 + unat plen \<le> length (fdata w fd) \<and> is_known_type t \<and>
       plen \<le> QDB_MAX_RECORD_PAYLOAD \<and> unat off' = unat off + 10 + unat plen \<and> off' \<le> eoff)"
proof (cases "off \<ge> eoff \<or> eoff - off < of_nat (9 + 1)")
  case True
  with sc show ?thesis by (auto simp: qdb__scan_record_def split: if_splits)
next
  case False
  obtain r1 hdr w1 where 1: "qdb__read_full w fd 9 off = (r1, hdr, w1)" by (metis prod_cases3)
  note s1 = read_full_spec [OF 1]
  note sc1 = sc [unfolded qdb__scan_record_def Let_def 1, simplified]
  show ?thesis
  proof (cases "r1 = QDB_OK \<and> qdb__get_u32le (drop 1 hdr) \<le> QDB_MAX_RECORD_PAYLOAD")
    case bad: False
    with False sc1 s1 show ?thesis by (auto split: if_splits)
  next
    case True
    define n where "n = qdb__get_u32le (drop 1 hdr)"
    define d where "d = fdata w fd"
    from s1 True have hdr: "hdr = slice d (unat off) 9" "same_fs w w1" "unat off < 2 ^ 63"
      "unat off + 9 \<le> length d" by (auto simp: d_def)
    note bnd = scan_bounds [OF hdr(3), of n]
    have n: "n \<le> QDB_MAX_RECORD_PAYLOAD" using True n_def by blast
    note hdr0 = hdr_slice(1) [OF hdr(4), folded hdr(1)] and get = hdr_slice(2) [OF hdr(4), folded hdr(1)]
    obtain r2 mk w2 where 2: "qdb__read_full w1 fd 1 (off + of_nat 9 + ucast n) = (r2, mk, w2)"
      by (metis prod_cases3)
    note s2 = read_full_spec [OF 2]
    obtain r3 st w3 where 3: "scan_crc w2 fd (off + of_nat 9) n n 0xFFFFFFFF = (r3, st, w3)"
      by (metis prod_cases3)
    have same2: "same_fs w w2" using s2 hdr(2) by (auto intro: same_fs_trans)
    have "unat (off + of_nat 9) + unat n < 2 ^ 64"
      using bnd(2) n unat_u64_lt [of "off + of_nat 9 + ucast n"] bnd(1) by simp
    note s3 = scan_crc_spec [OF 3 order_refl this]
    have ok1: "r1 = QDB_OK" and nn: "n = qdb__get_u32le (drop 1 hdr)" using True n_def by simp_all
    note fin = scan_record_eq [OF False 1 ok1 nn n 2 3]
    show ?thesis
    proof (cases "rc = QDB_OK")
      case bad: False
      then show ?thesis
        using sc fin hdr(2) same2 s3 same_fs_trans [OF same2]
        by (auto split: if_splits)
    next
      case ok: True
      with sc fin have acc: "\<not> off + of_nat 9 + ucast n + 1 > eoff" "r2 = QDB_OK" "mk ! 0 = QDB_COMMIT_MARKER"
        "is_known_type (hdr ! 0)" "r3 = QDB_OK" "qdb__crc32_end st = qdb__get_u32le (drop 5 hdr)"
        and res: "t = hdr ! 0" "plen = n" "off' = off + of_nat 9 + ucast n + 1" "w' = w3"
        by (auto split: if_splits)
      have mk: "mk = slice d (unat off + 9 + unat n) 1" "unat off + 10 + unat n \<le> length d"
        using s2 acc(2) bnd n by (auto simp: same_fs_simps [OF hdr(2)] d_def)
      have "mk ! 0 = d ! (unat off + 9 + unat n)"
        using mk by (simp add: slice_def)
      moreover have "st = fold crc_byte (slice d (unat off + 9) (unat n)) 0xFFFFFFFF"
        using s3 acc(5) bnd n by (simp add: same_fs_simps [OF same2] d_def)
      ultimately have "slice d (unat off) (10 + unat n) = enc_rec (d ! unat off) (slice d (unat off + 9) (unat n))"
        using mk(2) acc get [of 1] get [of 5] unat_u32_lt [of n]
        by (intro enc_rec_intro) (simp_all add: n_def qdb__crc32_end_def crc32_def)
      then show ?thesis
        using ok acc res mk(2) n s3 bnd hdr0 same_fs_trans [OF same2] by (auto simp: d_def)
    qed
  qed
qed

lemma scan_record_complete:
  assumes sc: "qdb__scan_record w fd off eoff = (rc, t', plen, off', w')"
    and fd: "w_fds w fd = Some i" and d: "d = fdata w fd" and lim: "length d < 2 ^ 63"
    and enc: "slice d (unat off) (10 + length p) = enc_rec t p"
    and t: "is_known_type t" and len: "length p \<le> 67109376"
    and fit: "unat off + 10 + length p \<le> unat eoff" "unat eoff \<le> length d"
  shows "same_fs w w' \<and>
    (rc = QDB_OK \<and> t' = t \<and> unat plen = length p \<and> off' = off + of_nat (10 + length p) \<or> rc = QDB_ERR_IO) \<and>
    (calm w \<longrightarrow> rc = QDB_OK)"
proof -
  have dl: "unat off + 10 + length p \<le> length d" using fit by simp
  note el = enc_rec_elim [OF enc dl]
  obtain r1 hdr w1 where 1: "qdb__read_full w fd 9 off = (r1, hdr, w1)" by (metis prod_cases3)
  have s1: "same_fs w w1" "r1 = QDB_OK \<or> r1 = QDB_ERR_IO" "r1 = QDB_OK \<Longrightarrow> hdr = slice d (unat off) 9"
    "calm w \<Longrightarrow> r1 = QDB_OK"
    using read_full_spec [OF 1] read_full_calm [OF 1 _ fd] dl lim by (auto simp: d)
  have "unat (eoff - off) = unat eoff - unat off" using fit(1) by (simp add: unat_sub word_le_nat_alt)
  then have guard: "\<not> (off \<ge> eoff \<or> eoff - off < of_nat (9 + 1))"
    using fit(1) by (auto simp: word_le_nat_alt word_less_nat_alt)
  show ?thesis
  proof (cases "r1 = QDB_OK")
    case False
    with sc guard 1 s1 show ?thesis by (auto simp: qdb__scan_record_def)
  next
    case True
    note hs = hdr_slice [of "unat off" d, folded s1(3) [OF True]]
    define n where "n = qdb__get_u32le (drop 1 hdr)"
    have un: "unat n = length p" using hs(2) [of 1] el(2) dl len by (simp add: n_def unat_of_nat_u32)
    then have n: "n \<le> QDB_MAX_RECORD_PAYLOAD" using len by (simp add: word_le_nat_alt)
    have lt: "unat off < 2 ^ 63" using dl lim by simp
    note bnd = scan_bounds [OF lt n]
    obtain r2 mk w2 where 2: "qdb__read_full w1 fd 1 (off + of_nat 9 + ucast n) = (r2, mk, w2)"
      by (metis prod_cases3)
    note e1 = same_fs_simps [OF s1(1)]
    have s2: "same_fs w1 w2" "r2 = QDB_OK \<or> r2 = QDB_ERR_IO" "r2 = QDB_OK \<Longrightarrow> mk ! 0 = QDB_COMMIT_MARKER"
      "calm w \<Longrightarrow> r2 = QDB_OK"
      using read_full_spec [OF 2] read_full_calm [OF 2 calm_same_fs [OF s1(1)]] el(4) dl lim bnd(2) un fd
      by (auto simp: e1 d [symmetric] slice_def)
    note same2 = same_fs_trans [OF s1(1) s2(1)]
    note e2 = same_fs_simps [OF same2]
    obtain r3 st w3 where 3: "scan_crc w2 fd (off + of_nat 9) n n 0xFFFFFFFF = (r3, st, w3)"
      by (metis prod_cases3)
    have "unat (off + of_nat 9) + unat n < 2 ^ 64" using bnd(1) un dl lim by simp
    note s3 = scan_crc_spec [OF 3 order_refl this, of i]
    have crc: "r3 = QDB_OK \<Longrightarrow> qdb__crc32_end st = crc32 p"
      using s3 el(5) bnd(1) un by (simp add: e2 d [symmetric] qdb__crc32_end_def crc32_def)
    have fine: "\<not> off + of_nat 9 + ucast n + 1 > eoff"
      using bnd(3) un fit by (simp add: word_less_nat_alt)
    have new: "off + of_nat 9 + ucast n + 1 = off + of_nat (10 + length p)"
      using bnd(3) un dl lim by (intro word_unat_eq_iff [THEN iffD2]) (subst wf_offset, simp_all)
    have hdr0: "hdr ! 0 = t" and hdr5: "qdb__get_u32le (drop 5 hdr) = crc32 p"
      using hs(1) hs(2) [of 5] el(1,3) dl by simp_all
    have calm3: "calm w \<Longrightarrow> r3 = QDB_OK"
      using s3 calm_same_fs [OF same2] fd bnd(1) un dl lim by (auto simp: e2 d [symmetric])
    note eq = scan_record_eq [OF guard 1 True n_def n 2 3, unfolded sc]
    show ?thesis
    proof (cases "r2 = QDB_OK \<and> r3 = QDB_OK")
      case ok: True
      then have "(rc, t', plen, off', w') = (QDB_OK, t, n, off + of_nat (10 + length p), w3)"
        using eq fine s2(3) crc hdr0 hdr5 t new by simp
      then show ?thesis using un s3 same_fs_trans [OF same2] by simp
    next
      case bad: False
      then have "rc = QDB_ERR_IO" "w' = w2 \<or> w' = w3"
        using eq fine s2(2,3) s3 hdr0 t by (auto split: if_splits)
      then show ?thesis using bad s2(4) calm3 s3 same2 same_fs_trans [OF same2] by auto
    qed
  qed
qed

section \<open>Writing and reading the header page\<close>

text \<open>\<open>load_header db0 db\<close>: the handle \<open>db0\<close> with the five header fields of \<open>db\<close>.\<close>

definition load_header :: "'a qdb \<Rightarrow> 'b qdb \<Rightarrow> 'a qdb" where
  "load_header db0 db = db0\<lparr>db_create_time_us := db_create_time_us db,
     db_next_msg_id := db_next_msg_id db, db_log_start_offset := db_log_start_offset db,
     db_log_end_offset := db_log_end_offset db, db_flags := db_flags db\<rparr>"

definition good_bounds :: "'st qdb \<Rightarrow> bool" where
  "good_bounds db \<longleftrightarrow> 4096 \<le> db_log_start_offset db \<and> db_log_start_offset db \<le> db_log_end_offset db"

lemma length_header_encode [simp]: "length (header_encode db) = 4096"
  by (simp add: header_encode_eq)

lemma header_write_spec:
  assumes hw: "qdb__header_write w fd db = (rc, w')" and fd: "w_fds w fd = Some i"
  shows "only_file w w' i \<and> (rc = QDB_OK \<or> rc = QDB_ERR_IO) \<and>
    (rc = QDB_OK \<longrightarrow> ino_data (w_ino w' i) = splice (ino_data (w_ino w i)) 0 (header_encode db) \<and>
       ino_old (w_ino w' i) = []) \<and> (calm w \<longrightarrow> rc = QDB_OK)"
proof -
  obtain rc1 w1 where wr: "qdb__write_full w fd (header_encode db) 0 = (rc1, w1)" by fastforce
  have sp: "tail_write w w1 i 0" "rc1 = QDB_OK \<or> rc1 = QDB_ERR_IO"
    "rc1 = QDB_OK \<longrightarrow> ino_data (w_ino w1 i) = splice (ino_data (w_ino w i)) 0 (header_encode db)"
    "calm w \<longrightarrow> rc1 = QDB_OK"
    using write_full_spec [OF wr fd] by simp_all
  show ?thesis
  proof (cases "rc1 = QDB_OK")
    case False
    with hw wr sp show ?thesis by (auto simp: qdb__header_write_def tail_write_only)
  next
    case True
    then have sy: "qdb__file_sync w1 fd = (rc, w')" using hw wr by (simp add: qdb__header_write_def)
    have fd1: "w_fds w1 fd = Some i" using fd tail_write_fds [OF sp(1)] by simp
    show ?thesis
      using qdb__file_sync_spec [OF sy fd1] sp True tail_write_calm [OF sp(1)]
        only_file_trans [OF tail_write_only [OF sp(1)]] by auto
  qed
qed

lemma header_read_spec:
  assumes hr: "qdb__header_read w fd db0 = (rc, db', w')" and fd: "w_fds w fd = Some i"
    and d: "d = ino_data (w_ino w i)" and lim: "length d < 2 ^ 63"
  shows "same_fs w w' \<and> rc \<in> {QDB_OK, QDB_ERR_IO, QDB_ERR_CORRUPT} \<and>
    (rc = QDB_OK \<longrightarrow> has_header d db' \<and> good_bounds db' \<and> 4096 \<le> length d \<and> db' = load_header db0 db') \<and>
    (calm w \<longrightarrow> rc \<noteq> QDB_ERR_IO) \<and>
    (has_header d db \<and> good_bounds db \<and> 4096 \<le> length d \<longrightarrow>
       rc = QDB_OK \<and> db' = load_header db0 db \<or> rc = QDB_ERR_IO)"
proof -
  have fdata: "fdata w fd = d" by (simp add: fdata_def fd d)
  obtain r1 sz w1 where 1: "qdb__file_size w fd = (r1, sz, w1)" by (metis prod_cases3)
  note s1 = qdb__file_size_spec [OF 1 fd, folded d]
  then have same1: "same_fs w w1" by simp
  obtain r2 buf w2 where 2: "qdb__read_full w1 fd 4096 0 = (r2, buf, w2)" by (metis prod_cases3)
  note e1 = same_fs_simps [OF same1]
  have s2: "same_fs w w2" "r2 = QDB_OK \<or> r2 = QDB_ERR_IO" "r2 = QDB_OK \<Longrightarrow> buf = take 4096 d \<and> 4096 \<le> length d"
    using read_full_spec [OF 2] fdata by (auto simp: e1 slice_def intro: same_fs_trans [OF same1])
  have calm2: "calm w \<Longrightarrow> 4096 \<le> length d \<Longrightarrow> r2 = QDB_OK"
    using read_full_calm [OF 2 calm_same_fs [OF same1]] fd fdata lim by (simp add: e1)
  have small: "sz < 4096 \<longleftrightarrow> length d < 4096" if "r1 = QDB_OK"
    using s1 that lim by (simp add: word_less_nat_alt unat_of_nat_u64)
  obtain r3 db3 where 3: "header_decode buf db0 = (r3, db3)" by fastforce
  show ?thesis
  proof (cases "r1 = QDB_OK \<and> \<not> sz < 4096 \<and> r2 = QDB_OK")
    case False
    then show ?thesis using hr 1 2 s1 s2 small calm2
      by (auto simp: qdb__header_read_def split: if_splits)
  next
    case True
    then have res: "rc = r3" "db' = db3" "w' = w2" using hr 1 2 3 by (simp_all add: qdb__header_read_def)
    have buf: "buf = take 4096 d" "4096 \<le> length d" using s2(3) True by auto
    have "r3 = QDB_OK \<or> r3 = QDB_ERR_CORRUPT"
      using 3 by (auto simp: header_decode_def Let_def split: if_splits)
    moreover have "has_header d db3 \<and> good_bounds db3 \<and> db3 = load_header db0 db3" if "r3 = QDB_OK"
      using header_decode_sound [OF 3 [unfolded that]] 3 that buf
      by (auto simp: has_header_take good_bounds_def load_header_def header_decode_def Let_def split: if_splits)
    moreover have "r3 = QDB_OK \<and> db3 = load_header db0 db" if "has_header d db" "good_bounds db"
      using header_decode_ok [of buf db db0] 3 that buf
      by (simp add: has_header_take good_bounds_def load_header_def)
    ultimately show ?thesis using res s2(1) buf(2) by auto
  qed
qed

section \<open>Properties of the file header and of the log records\<close>

lemma header_patch_page:
  assumes "db_create_time_us db2 = db_create_time_us db"
  shows "splice (splice d 0 (header_encode db)) 24 (drop 24 (hdr_bytes db2)) = splice d 0 (header_encode db2)"
proof -
  have "take 24 (hdr_bytes db) = take 24 (hdr_bytes db2)" using assms by (simp add: hdr_bytes_take24)
  then have "take 24 (hdr_bytes db) @ drop 24 (hdr_bytes db2) = hdr_bytes db2" by simp
  then show ?thesis by (simp add: splice_within header_encode_eq)
qed

text \<open>
  Theorem C33.  The header page written by \<open>qdb__header_write\<close> is read back by \<open>qdb__header_read\<close>
  into the same five fields; the 32-byte patch of \<open>qdb__header_update\<close> leaves exactly the bytes a full
  rewrite would leave, and is read back too.
\<close>

theorem header_round_trip:
  assumes calm: "calm w" and fd: "w_fds w fd = Some i" and len: "length (ino_data (w_ino w i)) < 2 ^ 63"
    and good: "good_bounds db" "good_bounds db2" and ct: "db_create_time_us db2 = db_create_time_us db"
  shows "\<exists>w1 w2 w3 w4. qdb__header_write w fd db = (QDB_OK, w1) \<and>
    qdb__header_read w1 fd db0 = (QDB_OK, load_header db0 db, w2) \<and>
    qdb__header_update w2 fd db2 = (QDB_OK, w3) \<and>
    ino_data (w_ino w3 i) = splice (ino_data (w_ino w i)) 0 (header_encode db2) \<and>
    ino_old (w_ino w3 i) = [] \<and>
    qdb__header_read w3 fd db0 = (QDB_OK, load_header db0 db2, w4)"
proof -
  let ?d = "ino_data (w_ino w i)"
  have page: "has_header (splice ?d 0 (header_encode x)) x" "4096 \<le> length (splice ?d 0 (header_encode x))"
    "length (splice ?d 0 (header_encode x)) < 2 ^ 63" for x :: "'x qdb"
    using len by (simp_all add: splice_within has_header_def header_encode_eq)
  obtain r1 w1 where 1: "qdb__header_write w fd db = (r1, w1)" by fastforce
  note s1 = header_write_spec [OF 1 fd]
  have c1: "calm w1" "w_fds w1 fd = Some i" using s1 calm fd calm_only_file only_file_simps(2) by metis+
  have d1: "ino_data (w_ino w1 i) = splice ?d 0 (header_encode db)" "r1 = QDB_OK" using s1 calm by auto
  obtain r2 x2 w2 where 2: "qdb__header_read w1 fd db0 = (r2, x2, w2)" by (metis prod_cases3)
  have s2: "same_fs w1 w2" "r2 = QDB_OK \<and> x2 = load_header db0 db"
    using header_read_spec [OF 2 c1(2) d1(1) [symmetric] page(3), of db] page good c1(1) by auto
  have c2: "calm w2" "w_fds w2 fd = Some i" "w_ino w2 = w_ino w1"
    using calm_same_fs [OF s2(1) c1(1)] same_fs_simps [OF s2(1)] c1(2) by simp_all
  obtain r3 w3 where 3: "qdb__header_update w2 fd db2 = (r3, w3)" by fastforce
  have s3: "only_file w2 w3 i" "r3 = QDB_OK" "ino_old (w_ino w3 i) = []"
    "ino_data (w_ino w3 i) = splice ?d 0 (header_encode db2)"
    using header_update_spec [OF 3 c2(2)] c2 d1(1) page(2) [of db] header_patch_page [OF ct, of ?d] by auto
  have c3: "calm w3" "w_fds w3 fd = Some i"
    using calm_only_file [OF s3(1) c2(1)] only_file_simps(2) [OF s3(1)] c2(2) by simp_all
  obtain r4 x4 w4 where 4: "qdb__header_read w3 fd db0 = (r4, x4, w4)" by (metis prod_cases3)
  have "r4 = QDB_OK \<and> x4 = load_header db0 db2"
    using header_read_spec [OF 4 c3(2) s3(4) [symmetric] page(3), of db2] page good c3(1) by auto
  then show ?thesis using 1 2 3 4 d1(2) s2(2) s3 by auto
qed

definition sample_db :: "u64 \<Rightarrow> u64 \<Rightarrow> unit qdb" where
  "sample_db next log_end = \<lparr>db_fd = 3, db_lock_fd = 4, db_path = ''q'', db_wal_path = ''q-wal'',
     db_lock_path = ''q-lock'', db_next_msg_id = next, db_next_lease_id = 1, db_log_start_offset = 4096,
     db_log_end_offset = log_end, db_create_time_us = 77, db_flags = 2, db_lease_timeout_us = 30000000,
     db_state = None\<rparr>"

theorem header_round_trip_witness:
  "\<exists>w1 w2 w3 w4. qdb__header_write (one_file_world [] []) 3 (sample_db 1 4096) = (QDB_OK, w1) \<and>
    qdb__header_read w1 3 (sample_db 0 0) = (QDB_OK, load_header (sample_db 0 0) (sample_db 1 4096), w2) \<and>
    qdb__header_update w2 3 (sample_db 2 4120) = (QDB_OK, w3) \<and>
    ino_data (w_ino w3 0) = splice (ino_data (w_ino (one_file_world [] []) 0)) 0 (header_encode (sample_db 2 4120)) \<and>
    ino_old (w_ino w3 0) = [] \<and>
    qdb__header_read w3 3 (sample_db 0 0) = (QDB_OK, load_header (sample_db 0 0) (sample_db 2 4120), w4)"
  by (rule header_round_trip) (simp_all add: good_bounds_def sample_db_def)

text \<open>
  Theorem C34.  A header page that \<open>header_decode\<close> accepts is, in its 56 meaningful bytes, exactly the
  page the code writes for the fields it decoded, and these satisfy the offset checks: no damaged
  magic, version, page size, field or checksum is ever accepted.
\<close>

theorem header_accepts_only_encodings:
  assumes "header_decode d db0 = (QDB_OK, db)" and "length d = 4096"
  shows "take 56 d = take 56 (header_encode db) \<and> 4096 \<le> db_log_start_offset db \<and>
    db_log_start_offset db \<le> db_log_end_offset db"
  using header_decode_sound [OF assms(1)] assms(2) by (simp add: has_header_def header_encode_eq)

theorem header_accepts_only_encodings_witness:
  "header_decode (header_encode (sample_db 9 5000)) (sample_db 0 0) = (QDB_OK, sample_db 9 5000) \<and>
   take 56 (header_encode (sample_db 9 5000)) = take 56 (header_encode (sample_db 9 5000)) \<and>
   (4096 :: u64) \<le> db_log_start_offset (sample_db 9 5000)"
proof -
  have "header_decode (header_encode (sample_db 9 5000)) (sample_db 0 0) = (QDB_OK, sample_db 9 5000)"
    using header_decode_ok [OF has_header_encode, of "sample_db 9 5000" "sample_db 0 0"]
    by (simp add: sample_db_def)
  with header_accepts_only_encodings [OF this] show ?thesis by simp
qed

text \<open>
  Theorem C31.  A record appended without failures is durable (nothing older can come back after a
  crash), leaves the bytes before it alone, and is scanned back at the same offset with its type and
  length, after which \<open>qdb__read_payload\<close> returns its payload.
\<close>

theorem append_scan_round_trip:
  assumes calm: "calm w" and fd: "w_fds w fd = Some i" and d: "d = ino_data (w_ino w i)"
    and len: "length p = unat plen" "length p \<le> 67109376"
    and off: "unat off \<le> length d" "length d + 10 + length p < 2 ^ 63" and t: "is_known_type t"
  shows "\<exists>off' w1 w2 w3. qdb__append_record w fd t p plen off = (QDB_OK, off', w1) \<and>
    unat off' = unat off + 10 + length p \<and>
    take (unat off) (ino_data (w_ino w1 i)) = take (unat off) d \<and> ino_old (w_ino w1 i) = [] \<and>
    qdb__scan_record w1 fd off off' = (QDB_OK, t, plen, off', w2) \<and>
    qdb__read_payload w2 fd (off + 9) plen = (QDB_OK, p, w3)"
proof -
  obtain r1 off' w1 where 1: "qdb__append_record w fd t p plen off = (r1, off', w1)" by (metis prod_cases3)
  have s1: "tail_write w w1 i (unat off)" "r1 = QDB_OK" "ino_old (w_ino w1 i) = []"
    "unat off' = unat off + 10 + length p" "ino_data (w_ino w1 i) = splice d (unat off) (enc_rec t p)"
    "off' = off + of_nat (10 + length p)"
    using append_record_spec [OF 1 fd len(1)] calm off by (auto simp: d)
  have c1: "calm w1" "w_fds w1 fd = Some i"
    using tail_write_calm [OF s1(1) calm] tail_write_fds [OF s1(1)] fd by simp_all
  have d1: "fdata w1 fd = splice d (unat off) (enc_rec t p)" using fdata_open [OF c1(2)] s1(5) by simp
  have at: "slice (fdata w1 fd) (unat off) (10 + length p) = enc_rec t p"
    "length (fdata w1 fd) < 2 ^ 63" "unat off' \<le> length (fdata w1 fd)"
    using off s1(4) by (auto simp: d1 intro: slice_splice_same)
  obtain r2 t' pl o2 w2 where 2: "qdb__scan_record w1 fd off off' = (r2, t', pl, o2, w2)" by (metis prod_cases5)
  have s2: "same_fs w1 w2" "r2 = QDB_OK" "t' = t" "unat pl = length p" "o2 = off'"
    using scan_record_complete [OF 2 c1(2) refl at(2,1) t len(2) _ at(3)] c1(1) s1(4,6) by auto
  obtain r3 b w3 where 3: "qdb__read_full w2 fd (unat plen) (off + 9) = (r3, b, w3)" by (metis prod_cases3)
  have o9: "unat (off + 9) = unat off + 9" using wf_offset [of off 9] off by simp
  have "r3 = QDB_OK"
    using read_full_calm [OF 3 calm_same_fs [OF s2(1) c1(1)]] c1(2) at(2,3) s1(4) len(1) o9
    by (simp add: same_fs_simps [OF s2(1)])
  then have "b = slice (fdata w1 fd) (unat off + 9) (length p)"
    using read_full_spec [OF 3] len o9 by (simp add: same_fs_simps [OF s2(1)])
  also have "\<dots> = p" using enc_rec_elim(5) [OF at(1)] at(3) s1(4) by simp
  finally have "qdb__read_payload w2 fd (off + 9) plen = (QDB_OK, p, w3)"
    using 3 \<open>r3 = QDB_OK\<close> by (simp add: qdb__read_payload_def)
  moreover have "pl = plen" using s2(4) len(1) by (simp add: word_unat_eq_iff)
  moreover have "take (unat off) (ino_data (w_ino w1 i)) = take (unat off) d"
    using off(1) by (simp add: s1(5) take_splice)
  ultimately show ?thesis using 1 2 s1(2,3,4) s2 by blast
qed

theorem append_scan_round_trip_witness:
  "\<exists>off' w1 w2 w3. qdb__append_record (one_file_world [7, 7] [Short 3]) 3 QDB_RT_MSG_ACK [1, 2, 3] 3 2 = (QDB_OK, off', w1) \<and>
    unat off' = unat (2 :: u64) + 10 + length [1, 2, 3 :: u8] \<and>
    take (unat (2 :: u64)) (ino_data (w_ino w1 0)) = take (unat (2 :: u64)) [7, 7] \<and> ino_old (w_ino w1 0) = [] \<and>
    qdb__scan_record w1 3 2 off' = (QDB_OK, QDB_RT_MSG_ACK, 3, off', w2) \<and>
    qdb__read_payload w2 3 (2 + 9) 3 = (QDB_OK, [1, 2, 3], w3)"
  by (rule append_scan_round_trip) (simp_all add: calm_def is_known_type_def)

text \<open>
  Theorem C30.  On any bytes and under any failures, a scan changes no file; it accepts only a
  complete record (known type, plausible length, matching CRC, commit marker) that lies within the
  file and within the scanned range, and then moves just past it; in every other case it leaves the
  offset alone and reports the end, a torn record, corruption or an I/O error.
\<close>

theorem scan_accepts_only_records:
  assumes "qdb__scan_record w fd off eoff = (rc, t, plen, off', w')"
  shows "same_fs w w' \<and> (rc \<noteq> QDB_OK \<longrightarrow> off' = off) \<and>
    rc \<in> {QDB_OK, QDB__SCAN_END, QDB__SCAN_PARTIAL, QDB_ERR_CORRUPT, QDB_ERR_IO} \<and>
    (rc = QDB_OK \<longrightarrow>
       (\<exists>p. length p = unat plen \<and> slice (fdata w fd) (unat off) (10 + unat plen) = enc_rec t p) \<and>
       is_known_type t \<and> plen \<le> QDB_MAX_RECORD_PAYLOAD \<and>
       unat off' = unat off + 10 + unat plen \<and> off' \<le> eoff \<and> unat off' \<le> length (fdata w fd))"
  using scan_record_spec [OF assms]
  by (auto intro!: exI [of _ "slice (fdata w fd) (unat off + 9) (unat plen)"])

theorem scan_accepts_only_records_witness:
  "\<exists>t plen off' w'. qdb__scan_record (one_file_world (replicate 12 0) []) 3 1 11 = (QDB__SCAN_PARTIAL, t, plen, off', w') \<and>
     off' = 1 \<and> same_fs (one_file_world (replicate 12 0) []) w'"
proof -
  let ?w = "one_file_world (replicate 12 0) []"
  have "qdb__read_full ?w 3 n k = (QDB_OK, slice (replicate 12 0) (unat k) n, ?w)" if "n = 9 \<and> k = 1 \<or> n = 1 \<and> k = 10" for n k
    using that by (auto simp: qdb__read_full_def qdb__pread_def pread_loop.simps sys_pread_def next_reply_def
        slice_def)
  from this [of 9 1] this [of 1 10]
  have sc: "qdb__scan_record ?w 3 1 11 = (QDB__SCAN_PARTIAL, 0, 0, 1, ?w)"
    by (simp add: qdb__scan_record_def slice_def encoding_eval word_le_nat_alt)
  from scan_accepts_only_records [OF sc] show ?thesis using sc by simp
qed

text \<open>
  Theorem C32.  Whatever fails during an append, nothing below the append offset changes: neither in
  the log file as the process sees it nor in any content a crash can bring back, and no other file
  changes; a failed append reports \<open>QDB_ERR_IO\<close> and keeps the caller's offset, so the next append
  overwrites its remains.
\<close>

theorem append_keeps_log:
  assumes "qdb__append_record w fd t p plen off = (rc, off', w')" and "w_fds w fd = Some i"
    and "length p = unat plen" and "unat off + 10 + length p < 2 ^ 63"
    and "unat off \<le> length (ino_data (w_ino w i))"
    and "stable_below q (w_ino w i)" and "length q \<le> unat off"
  shows "stable_below q (w_ino w' i) \<and> only_file w w' i \<and>
    (rc = QDB_OK \<and> unat off' = unat off + 10 + length p \<or> rc = QDB_ERR_IO \<and> off' = off)"
  using append_record_spec [OF assms(1-5)] assms(6,7) by (auto simp: tail_write_def)

theorem append_keeps_log_witness:
  "stable_below [5, 6] (w_ino (snd (snd (qdb__append_record (one_file_world [5, 6] [Short 4, Fail ENOSPC]) 3 QDB_RT_MSG_ACK [1, 2] 2 2))) 0)"
proof -
  let ?r = "qdb__append_record (one_file_world [5, 6] [Short 4, Fail ENOSPC]) 3 QDB_RT_MSG_ACK [1, 2] 2 2"
  obtain rc off' w' where r: "?r = (rc, off', w')" by (metis prod_cases3)
  from append_keeps_log [OF r, of 0 "[5, 6]"] r show ?thesis by (simp add: stable_below_def)
qed

end
