(* ===== verification/HashTable.thy ===== *)
theory HashTable
  imports Prelude
begin

text \<open>
  Separate chaining, as \<^verbatim>\<open>src/qdb_state.c\<close> uses it for messages, queues and leases: an array of
  buckets, each a linked list of nodes searched from the front.  A bucket is the list of its
  nodes in chain order.  The locale \<open>table\<close> is the contract the rest of the development relies on (what
  a lookup returns after an insert, an update through a node pointer, or a removal; what walking
  all buckets visits), with the counting facts derived from it once; \<open>HashTable\<close> proves the contract
  for chained buckets, and the theory \<open>State\<close> interprets it for the three tables of the code.
\<close>

section \<open>Chains\<close>

primrec chain_upd :: "('n \<Rightarrow> bool) \<Rightarrow> ('n \<Rightarrow> 'n) \<Rightarrow> 'n list \<Rightarrow> 'n list" where
  "chain_upd P f [] = []"
| "chain_upd P f (n # ns) = (if P n then f n # ns else n # chain_upd P f ns)"

primrec chain_remove :: "('n \<Rightarrow> bool) \<Rightarrow> 'n list \<Rightarrow> 'n list" where
  "chain_remove P [] = []"
| "chain_remove P (n # ns) = (if P n then ns else n # chain_remove P ns)"

lemma find_chain_upd:
  assumes "\<And>n. key (f n) = key n"
  shows "find (\<lambda>n. key n = k') (chain_upd (\<lambda>n. key n = k) f ns)
    = (if k' = k then map_option f (find (\<lambda>n. key n = k) ns) else find (\<lambda>n. key n = k') ns)"
  using assms by (induction ns) auto

lemma map_key_chain_upd:
  assumes "\<And>n. key (f n) = key n"
  shows "map key (chain_upd P f ns) = map key ns"
  using assms by (induction ns) auto

lemma set_chain_remove: "set (chain_remove P ns) \<subseteq> set ns"
  by (induction ns) auto

lemma distinct_chain_remove:
  "distinct (map key ns) \<Longrightarrow> distinct (map key (chain_remove P ns))"
  using set_chain_remove [of P] by (induction ns) auto

lemma find_chain_remove:
  assumes "distinct (map key ns)"
  shows "find (\<lambda>n. key n = k') (chain_remove (\<lambda>n. key n = k) ns)
    = (if k' = k then None else find (\<lambda>n. key n = k') ns)"
  using assms by (induction ns) (auto simp: find_None_iff image_iff dest: bspec)

lemma find_key_eq: "find (\<lambda>n. key n = k) ns = Some n \<Longrightarrow> key n = k \<and> n \<in> set ns"
  by (auto simp: find_Some_iff in_set_conv_nth)

lemma find_key_mem:
  assumes "distinct (map key ns)" and "n \<in> set ns"
  shows "find (\<lambda>x. key x = key n) ns = Some n"
  using assms by (induction ns) auto

lemma chain_upd_id: "find P ns = None \<Longrightarrow> chain_upd P f ns = ns"
  by (induction ns) (auto split: if_splits)

lemma chain_remove_id: "\<forall>n \<in> set ns. \<not> P n \<Longrightarrow> chain_remove P ns = ns"
  by (induction ns) auto

section \<open>The contract of a table\<close>

locale table =
  fixes ok :: "'s \<Rightarrow> bool"
    and get :: "'s \<Rightarrow> 'k \<Rightarrow> 'n option"
    and upd :: "'s \<Rightarrow> 'k \<Rightarrow> ('n \<Rightarrow> 'n) \<Rightarrow> 's"
    and ins :: "'s \<Rightarrow> 'n \<Rightarrow> 's"
    and nodes :: "'s \<Rightarrow> 'n list"
    and key :: "'n \<Rightarrow> 'k"
  assumes get_ins: "get (ins s n) k = (if k = key n then Some n else get s k)"
    and get_upd: "(\<And>n. key (f n) = key n) \<Longrightarrow>
      get (upd s k f) k' = (if k' = k then map_option f (get s k) else get s k')"
    and get_key: "get s k = Some n \<Longrightarrow> key n = k"
    and ok_ins: "ok s \<Longrightarrow> get s (key n) = None \<Longrightarrow> ok (ins s n)"
    and ok_upd: "ok s \<Longrightarrow> (\<And>n. key (f n) = key n) \<Longrightarrow> ok (upd s k f)"
    and nodes_distinct: "ok s \<Longrightarrow> distinct (map key (nodes s))"
    and nodes_get: "ok s \<Longrightarrow> n \<in> set (nodes s) \<longleftrightarrow> get s (key n) = Some n"
begin

definition sel :: "'s \<Rightarrow> ('n \<Rightarrow> bool) \<Rightarrow> 'k set" where
  "sel s P = {k. \<exists>n. get s k = Some n \<and> P n}"

lemma sel_nodes:
  assumes "ok s"
  shows "sel s P = key ` {n \<in> set (nodes s). P n}"
proof (intro set_eqI iffI)
  fix k assume "k \<in> sel s P"
  then obtain n where n: "get s k = Some n" "P n" by (auto simp: sel_def)
  then show "k \<in> key ` {n \<in> set (nodes s). P n}"
    using nodes_get [OF assms, of n] get_key [OF n(1)] by (intro image_eqI [of _ _ n]) auto
qed (use nodes_get [OF assms] in \<open>auto simp: sel_def\<close>)

lemma finite_sel: "ok s \<Longrightarrow> finite (sel s P)"
  by (simp add: sel_nodes)

text \<open>Counting the nodes of a walk over all buckets is counting keys.\<close>

lemma count_nodes:
  assumes "ok s"
  shows "length (filter P (nodes s)) = card (sel s P)"
proof -
  have "distinct (map key (filter P (nodes s)))"
    using nodes_distinct [OF assms] by (simp add: distinct_map inj_on_def)
  then have "card (key ` set (filter P (nodes s))) = length (map key (filter P (nodes s)))"
    by (metis distinct_card list.set_map)
  then show ?thesis by (simp add: sel_nodes [OF assms])
qed

lemma sel_ins:
  assumes "get s (key n) = None"
  shows "sel (ins s n) P = (if P n then insert (key n) (sel s P) else sel s P)"
  using assms by (auto simp: sel_def get_ins)

lemma card_ins:
  assumes "ok s" and "get s (key n) = None"
  shows "card (sel (ins s n) P) = card (sel s P) + (if P n then 1 else 0)"
proof -
  have "key n \<notin> sel s P" using assms(2) by (simp add: sel_def)
  then show ?thesis using sel_ins [OF assms(2), of P] finite_sel [OF assms(1), of P] by simp
qed

lemma sel_upd:
  assumes "\<And>n. key (f n) = key n" and "get s k = Some n"
  shows "sel (upd s k f) P = (if P (f n) then insert k (sel s P) else sel s P - {k})"
  using assms by (auto simp: sel_def get_upd split: if_splits)

text \<open>How a count moves when one node is updated, in wrap-around arithmetic.\<close>

lemma card_upd:
  assumes "ok s" and "\<And>n. key (f n) = key n" and "get s k = Some n"
  shows "card (sel (upd s k f) P) + (if P n then 1 else 0) = card (sel s P) + (if P (f n) then 1 else 0)"
proof -
  have mem: "k \<in> sel s P \<longleftrightarrow> P n" using assms(3) by (auto simp: sel_def)
  have fin: "finite (sel s P)" by (rule finite_sel [OF assms(1)])
  show ?thesis
    unfolding sel_upd [OF assms(2,3)]
    using mem fin card.remove [OF fin, of k] by (auto simp: card_insert_if)
qed

lemma count_upd:
  assumes "ok s" and "\<And>n. key (f n) = key n" and "get s k = Some n"
  shows "(of_nat (card (sel (upd s k f) P)) :: 'w::len word)
    = of_nat (card (sel s P)) + (if P (f n) then 1 else 0) - (if P n then 1 else 0)"
  using arg_cong [OF card_upd [OF assms, of P], of "of_nat :: nat \<Rightarrow> 'w word"]
  by (auto simp: algebra_simps split: if_splits)

lemma get_upd_same: "(\<And>n. key (f n) = key n) \<Longrightarrow> get s k = Some n \<Longrightarrow> get (upd s k f) k = Some (f n)"
  by (simp add: get_upd)

end

text \<open>A table whose nodes can be removed.\<close>

locale removable_table = table +
  fixes rem :: "'a \<Rightarrow> 'b \<Rightarrow> 'a"
  assumes get_rem: "ok s \<Longrightarrow> get (rem s k) k' = (if k' = k then None else get s k')"
    and ok_rem: "ok s \<Longrightarrow> ok (rem s k)"
begin

lemma sel_rem: "ok s \<Longrightarrow> sel (rem s k) P = sel s P - {k}"
  by (auto simp: sel_def get_rem split: if_splits)

lemma card_rem:
  assumes "ok s" and "get s k = Some n" and "P n"
  shows "Suc (card (sel (rem s k) P)) = card (sel s P)"
proof -
  have "k \<in> sel s P" using assms(2,3) by (auto simp: sel_def)
  then show ?thesis
    using card.remove [OF finite_sel [OF assms(1)]] by (simp add: sel_rem [OF assms(1)])
qed

end

section \<open>Buckets\<close>

definition hget :: "('k \<Rightarrow> u32) \<Rightarrow> ('n \<Rightarrow> 'k) \<Rightarrow> (u32 \<Rightarrow> 'n list) \<Rightarrow> 'k \<Rightarrow> 'n option" where
  "hget bucket key B k = find (\<lambda>n. key n = k) (B (bucket k))"

definition hupd :: "('k \<Rightarrow> u32) \<Rightarrow> ('n \<Rightarrow> 'k) \<Rightarrow> (u32 \<Rightarrow> 'n list) \<Rightarrow> 'k \<Rightarrow> ('n \<Rightarrow> 'n) \<Rightarrow> u32 \<Rightarrow> 'n list" where
  "hupd bucket key B k f = B(bucket k := chain_upd (\<lambda>n. key n = k) f (B (bucket k)))"

definition hins :: "('k \<Rightarrow> u32) \<Rightarrow> ('n \<Rightarrow> 'k) \<Rightarrow> (u32 \<Rightarrow> 'n list) \<Rightarrow> 'n \<Rightarrow> u32 \<Rightarrow> 'n list" where
  "hins bucket key B n = B(bucket (key n) := n # B (bucket (key n)))"

definition hrem :: "('k \<Rightarrow> u32) \<Rightarrow> ('n \<Rightarrow> 'k) \<Rightarrow> (u32 \<Rightarrow> 'n list) \<Rightarrow> 'k \<Rightarrow> u32 \<Rightarrow> 'n list" where
  "hrem bucket key B k = B(bucket k := chain_remove (\<lambda>n. key n = k) (B (bucket k)))"

definition hnodes :: "nat \<Rightarrow> (u32 \<Rightarrow> 'n list) \<Rightarrow> 'n list" where
  "hnodes N B = concat (map (\<lambda>i. B (of_nat i)) [0..<N])"

definition hok :: "('k \<Rightarrow> u32) \<Rightarrow> ('n \<Rightarrow> 'k) \<Rightarrow> (u32 \<Rightarrow> 'n list) \<Rightarrow> bool" where
  "hok bucket key B \<longleftrightarrow> (\<forall>b. (\<forall>n \<in> set (B b). bucket (key n) = b) \<and> distinct (map key (B b)))"

lemma hok_empty: "hok bucket key (\<lambda>_. [])"
  by (simp add: hok_def)

lemma hget_hins: "hget bucket key (hins bucket key B n) k = (if k = key n then Some n else hget bucket key B k)"
  by (auto simp: hget_def hins_def)

lemma hget_hupd:
  "(\<And>n. key (f n) = key n) \<Longrightarrow> hget bucket key (hupd bucket key B k f) k'
    = (if k' = k then map_option f (hget bucket key B k) else hget bucket key B k')"
  by (simp add: hget_def hupd_def find_chain_upd)

lemma hget_key: "hget bucket key B k = Some n \<Longrightarrow> key n = k"
  by (auto simp: hget_def dest: find_key_eq)

lemma hok_hins:
  assumes "hok bucket key B" and "hget bucket key B (key n) = None"
  shows "hok bucket key (hins bucket key B n)"
proof -
  have "key n \<notin> set (map key (B (bucket (key n))))"
    using assms(2) by (auto simp: hget_def find_None_iff image_iff)
  then show ?thesis using assms(1) unfolding hok_def hins_def by simp
qed

lemma hok_hupd:
  assumes "hok bucket key B" and key: "\<And>n. key (f n) = key n"
  shows "hok bucket key (hupd bucket key B k f)"
proof -
  have keys: "map key (hupd bucket key B k f b) = map key (B b)" for b
    using key by (simp add: hupd_def map_key_chain_upd)
  have "bucket (key n) = b" if "n \<in> set (hupd bucket key B k f b)" for n b
  proof -
    from that have "key n \<in> set (map key (B b))" by (metis image_eqI keys list.set_map)
    then show ?thesis using assms(1) by (auto simp: hok_def)
  qed
  with assms(1) show ?thesis by (simp add: hok_def keys)
qed

lemma hok_hrem: "hok bucket key B \<Longrightarrow> hok bucket key (hrem bucket key B k)"
  by (auto simp: hok_def hrem_def intro: distinct_chain_remove dest: subsetD [OF set_chain_remove])

lemma hget_hrem:
  assumes "hok bucket key B"
  shows "hget bucket key (hrem bucket key B k) k' = (if k' = k then None else hget bucket key B k')"
  using assms by (auto simp: hget_def hrem_def hok_def find_chain_remove find_None_iff)

lemma hnodes_mem:
  assumes "hok bucket key B" and "\<And>k. unat (bucket k) < N"
  shows "n \<in> set (hnodes N B) \<longleftrightarrow> hget bucket key B (key n) = Some n"
proof
  assume "n \<in> set (hnodes N B)"
  then obtain i where n: "n \<in> set (B (of_nat i))" by (auto simp: hnodes_def)
  then have "bucket (key n) = of_nat i" using assms(1) by (simp add: hok_def)
  then show "hget bucket key B (key n) = Some n"
    using find_key_mem [of key "B (of_nat i)" n] n assms(1) by (simp add: hget_def hok_def)
next
  assume "hget bucket key B (key n) = Some n"
  then have "n \<in> set (B (bucket (key n)))" by (auto simp: hget_def dest: find_key_eq)
  then have "n \<in> set (B (of_nat (unat (bucket (key n)))))" by simp
  then show "n \<in> set (hnodes N B)"
    using assms(2) [of "key n"] by (force simp: hnodes_def)
qed

lemma hnodes_distinct:
  assumes "hok bucket key B" and "N \<le> 2 ^ 32"
  shows "distinct (map key (hnodes N B))"
  using assms(2)
proof (induction N)
  case (Suc N)
  have "key n \<notin> set (map key (B (of_nat N)))" if "n \<in> set (B (of_nat i))" "i < N" for n i
  proof
    assume "key n \<in> set (map key (B (of_nat N)))"
    then have "bucket (key n) = (of_nat N :: u32)" using assms(1) by (auto simp: hok_def)
    moreover have "bucket (key n) = of_nat i" using that(1) assms(1) by (simp add: hok_def)
    ultimately have "unat (of_nat i :: u32) = unat (of_nat N :: u32)" by simp
    then show False using that(2) Suc.prems unat_of_nat_u32 [of i] unat_of_nat_u32 [of N] by simp
  qed
  then have "set (map key (hnodes N B)) \<inter> set (map key (B (of_nat N))) = {}"
    by (auto simp: hnodes_def) (metis image_eqI)
  then show ?case
    using Suc assms(1) by (simp add: hnodes_def hok_def)
qed (simp add: hnodes_def)

end
