(* ===== verification/State.thy ===== *)
theory State
  imports HashTable Platform
begin

text \<open>
  \<^verbatim>\<open>src/qdb_state.c\<close> and \<^verbatim>\<open>src/qdb_state.h\<close>: the in-memory queue state.  The three hash tables
  are functions from bucket index to chain.  A pointer to a node is the key of the node, and a
  store through it (\<open>msg_upd\<close>, \<open>queue_upd\<close>) updates the node where the chain holds it, so two
  pointers to one node alias as they do in C.  A name of \<open>name_len\<close> bytes is the list of these bytes.
  The tables are interpreted as instances of the contract of the theory \<open>HashTable\<close>.
\<close>

unbundle bit_operations_syntax

section \<open>Data\<close>

datatype qdb_msg_state = QDB_MSG_STATE_PENDING | QDB_MSG_STATE_LEASED | QDB_MSG_STATE_ACKED | QDB_MSG_STATE_DEAD

record qdb__msg =
  m_id :: u64
  m_data_file_offset :: u64
  m_data_len :: u32
  m_queue_name :: bytes
  m_state :: qdb_msg_state
  m_lease_id :: u64
  m_lease_expiry_us :: u64
  m_retry_count :: u32
  m_next_pending :: u64
  m_prev_pending :: u64

record qdb__queue =
  q_name :: bytes
  q_pending_count :: u32
  q_leased_count :: u32
  q_acked_count :: u32
  q_pending_head :: u64
  q_pending_tail :: u64

record qdb__lease =
  l_lease_id :: u64
  l_msg_id :: u64
  l_expiry_us :: u64

abbreviation (input) QDB__MSG_BUCKETS :: nat where "QDB__MSG_BUCKETS \<equiv> 1024"
abbreviation (input) QDB__QUEUE_BUCKETS :: nat where "QDB__QUEUE_BUCKETS \<equiv> 64"
abbreviation (input) QDB__LEASE_BUCKETS :: nat where "QDB__LEASE_BUCKETS \<equiv> 1024"

record qdb__state =
  msg_buckets :: "u32 \<Rightarrow> qdb__msg list"
  queue_buckets :: "u32 \<Rightarrow> qdb__queue list"
  lease_buckets :: "u32 \<Rightarrow> qdb__lease list"
  msg_count :: u64
  queue_count :: u64
  lease_count :: u64

section \<open>Hash functions\<close>

definition msg_bucket :: "u64 \<Rightarrow> u32" where
  "msg_bucket mid = (let h = mid * 11400714819323198485 in ucast (drop_bit (64 - 10) h))"

definition lease_bucket :: "u64 \<Rightarrow> u32" where
  "lease_bucket mid = (let h = mid * 11400714819323198485 in ucast (drop_bit (64 - 10) h))"

definition queue_bucket :: "bytes \<Rightarrow> u32" where
  "queue_bucket name =
     fold (\<lambda>c h. (h XOR ucast c) * 16777619) name 2166136261 AND (of_nat QDB__QUEUE_BUCKETS - 1)"

section \<open>State lifecycle\<close>

text \<open>What \<open>calloc\<close> gives: empty tables.  \<open>None\<close> when it fails.\<close>

definition empty_state :: qdb__state where
  "empty_state = \<lparr>msg_buckets = (\<lambda>_. []), queue_buckets = (\<lambda>_. []), lease_buckets = (\<lambda>_. []),
     msg_count = 0, queue_count = 0, lease_count = 0\<rparr>"

definition qdb__state_alloc :: "world \<Rightarrow> qdb__state option \<times> world" where
  "qdb__state_alloc w = (let (ok, w1) = heap_alloc w in (if ok then Some empty_state else None, w1))"

section \<open>Message table\<close>

definition qdb__msg_get :: "qdb__state \<Rightarrow> u64 \<Rightarrow> qdb__msg option" where
  "qdb__msg_get st mid = (let b = msg_bucket mid in find (\<lambda>m. m_id m = mid) (msg_buckets st b))"

definition qdb__msg_insert :: "qdb__state \<Rightarrow> qdb__msg \<Rightarrow> int \<times> qdb__state" where
  "qdb__msg_insert st m =
     (let b = msg_bucket (m_id m) in
      (QDB_OK, st\<lparr>msg_buckets := (msg_buckets st)(b := m # msg_buckets st b),
                  msg_count := msg_count st + 1\<rparr>))"

text \<open>A store through the pointer that \<open>qdb__msg_get st mid\<close> returned.\<close>

definition msg_upd :: "qdb__state \<Rightarrow> u64 \<Rightarrow> (qdb__msg \<Rightarrow> qdb__msg) \<Rightarrow> qdb__state" where
  "msg_upd st mid f =
     (let b = msg_bucket mid in
      st\<lparr>msg_buckets := (msg_buckets st)(b := chain_upd (\<lambda>m. m_id m = mid) f (msg_buckets st b))\<rparr>)"

text \<open>A zeroed message with the fields that a push sets.\<close>

definition new_msg :: "u64 \<Rightarrow> u64 \<Rightarrow> u32 \<Rightarrow> bytes \<Rightarrow> qdb__msg" where
  "new_msg k off len name = \<lparr>m_id = k, m_data_file_offset = off, m_data_len = len, m_queue_name = name,
     m_state = QDB_MSG_STATE_PENDING, m_lease_id = 0, m_lease_expiry_us = 0, m_retry_count = 0,
     m_next_pending = 0, m_prev_pending = 0\<rparr>"

section \<open>Queue table\<close>

definition qdb__queue_get :: "qdb__state \<Rightarrow> bytes \<Rightarrow> qdb__queue option" where
  "qdb__queue_get st name =
     (let b = queue_bucket name in find (\<lambda>q. q_name q = name) (queue_buckets st b))"

definition queue_upd :: "qdb__state \<Rightarrow> bytes \<Rightarrow> (qdb__queue \<Rightarrow> qdb__queue) \<Rightarrow> qdb__state" where
  "queue_upd st name f =
     (let b = queue_bucket name in
      st\<lparr>queue_buckets := (queue_buckets st)(b := chain_upd (\<lambda>q. q_name q = name) f (queue_buckets st b))\<rparr>)"

definition new_queue :: "bytes \<Rightarrow> qdb__queue" where
  "new_queue name = \<lparr>q_name = name, q_pending_count = 0, q_leased_count = 0, q_acked_count = 0,
     q_pending_head = 0, q_pending_tail = 0\<rparr>"

definition queue_link :: "qdb__state \<Rightarrow> qdb__queue \<Rightarrow> qdb__state" where
  "queue_link st q =
     (let b = queue_bucket (q_name q) in
      st\<lparr>queue_buckets := (queue_buckets st)(b := q # queue_buckets st b),
         queue_count := queue_count st + 1\<rparr>)"

text \<open>The first component is whether the returned pointer is not NULL.\<close>

definition qdb__queue_get_or_create :: "world \<Rightarrow> qdb__state \<Rightarrow> bytes \<Rightarrow> bool \<times> qdb__state \<times> world" where
  "qdb__queue_get_or_create w st name =
     (case qdb__queue_get st name of
        Some q \<Rightarrow> (True, st, w)
      | None \<Rightarrow>
          let (ok, w1) = heap_alloc w in
          if \<not> ok then (False, st, w1)
          else (True, queue_link st (new_queue name), w1))"

text \<open>
  The two list operations get the queue \<open>q\<close> by its name and the message \<open>m\<close> by its mid; every
  read and every store goes to the node in the table, in the order of the C statements.
\<close>

definition qdb__queue_pending_append :: "qdb__state \<Rightarrow> bytes \<Rightarrow> u64 \<Rightarrow> qdb__state" where
  "qdb__queue_pending_append st name mid =
     (let pending_tail = (\<lambda>st. case qdb__queue_get st name of Some q \<Rightarrow> q_pending_tail q | None \<Rightarrow> 0);
          st = msg_upd st mid (\<lambda>m. m\<lparr>m_next_pending := 0\<rparr>);
          st = msg_upd st mid (\<lambda>m. m\<lparr>m_prev_pending := pending_tail st\<rparr>);
          st = (if pending_tail st \<noteq> 0 then
                  (case qdb__msg_get st (pending_tail st) of
                     Some tail \<Rightarrow> msg_upd st (pending_tail st) (\<lambda>tail. tail\<lparr>m_next_pending := mid\<rparr>)
                   | None \<Rightarrow> st)
                else queue_upd st name (\<lambda>q. q\<lparr>q_pending_head := mid\<rparr>));
          st = queue_upd st name (\<lambda>q. q\<lparr>q_pending_tail := mid\<rparr>)
      in queue_upd st name (\<lambda>q. q\<lparr>q_pending_count := q_pending_count q + 1\<rparr>))"

definition qdb__queue_pending_remove :: "qdb__state \<Rightarrow> bytes \<Rightarrow> u64 \<Rightarrow> qdb__state" where
  "qdb__queue_pending_remove st name mid =
     (let prev_pending = (\<lambda>st. case qdb__msg_get st mid of Some m \<Rightarrow> m_prev_pending m | None \<Rightarrow> 0);
          next_pending = (\<lambda>st. case qdb__msg_get st mid of Some m \<Rightarrow> m_next_pending m | None \<Rightarrow> 0);
          st = (if prev_pending st \<noteq> 0 then
                  (case qdb__msg_get st (prev_pending st) of
                     Some prev \<Rightarrow> msg_upd st (prev_pending st) (\<lambda>prev. prev\<lparr>m_next_pending := next_pending st\<rparr>)
                   | None \<Rightarrow> st)
                else queue_upd st name (\<lambda>q. q\<lparr>q_pending_head := next_pending st\<rparr>));
          st = (if next_pending st \<noteq> 0 then
                  (case qdb__msg_get st (next_pending st) of
                     Some next \<Rightarrow> msg_upd st (next_pending st) (\<lambda>next. next\<lparr>m_prev_pending := prev_pending st\<rparr>)
                   | None \<Rightarrow> st)
                else queue_upd st name (\<lambda>q. q\<lparr>q_pending_tail := prev_pending st\<rparr>));
          st = msg_upd st mid (\<lambda>m. m\<lparr>m_next_pending := 0\<rparr>);
          st = msg_upd st mid (\<lambda>m. m\<lparr>m_prev_pending := 0\<rparr>)
      in queue_upd st name (\<lambda>q. q\<lparr>q_pending_count := q_pending_count q - 1\<rparr>))"

section \<open>Lease table\<close>

definition qdb__lease_get :: "qdb__state \<Rightarrow> u64 \<Rightarrow> qdb__lease option" where
  "qdb__lease_get st lease_id =
     (let b = lease_bucket lease_id in find (\<lambda>l. l_lease_id l = lease_id) (lease_buckets st b))"

definition qdb__lease_insert :: "qdb__state \<Rightarrow> qdb__lease \<Rightarrow> int \<times> qdb__state" where
  "qdb__lease_insert st l =
     (let b = lease_bucket (l_lease_id l) in
      (QDB_OK, st\<lparr>lease_buckets := (lease_buckets st)(b := l # lease_buckets st b),
                  lease_count := lease_count st + 1\<rparr>))"

definition qdb__lease_remove :: "qdb__state \<Rightarrow> u64 \<Rightarrow> qdb__state" where
  "qdb__lease_remove st lease_id =
     (let b = lease_bucket lease_id in
      if qdb__lease_get st lease_id = None then st
      else st\<lparr>lease_buckets := (lease_buckets st)(b := chain_remove (\<lambda>l. l_lease_id l = lease_id) (lease_buckets st b)),
              lease_count := lease_count st - 1\<rparr>)"

section \<open>Iteration\<close>

definition msg_nodes :: "qdb__state \<Rightarrow> qdb__msg list" where
  "msg_nodes st = concat (map (\<lambda>i. msg_buckets st (of_nat i)) [0..<QDB__MSG_BUCKETS])"

definition queue_nodes :: "qdb__state \<Rightarrow> qdb__queue list" where
  "queue_nodes st = concat (map (\<lambda>i. queue_buckets st (of_nat i)) [0..<QDB__QUEUE_BUCKETS])"

definition lease_nodes :: "qdb__state \<Rightarrow> qdb__lease list" where
  "lease_nodes st = concat (map (\<lambda>i. lease_buckets st (of_nat i)) [0..<QDB__LEASE_BUCKETS])"

definition qdb__state_iter_msgs :: "qdb__state \<Rightarrow> (qdb__msg \<Rightarrow> 'c \<Rightarrow> 'c) \<Rightarrow> 'c \<Rightarrow> 'c" where
  "qdb__state_iter_msgs st fn ctx = fold fn (msg_nodes st) ctx"

definition qdb__state_iter_queues :: "qdb__state \<Rightarrow> (qdb__queue \<Rightarrow> 'c \<Rightarrow> 'c) \<Rightarrow> 'c \<Rightarrow> 'c" where
  "qdb__state_iter_queues st fn ctx = fold fn (queue_nodes st) ctx"

section \<open>The bucket arrays are never indexed out of range\<close>

lemma fib_bucket_bound: "unat (ucast (drop_bit 54 (h :: u64)) :: u32) < 1024"
proof -
  have "unat (drop_bit 54 h) = unat h div 2 ^ 54"
    by (rule trans [OF unat_drop_bit_eq drop_bit_eq_div])
  moreover have "unat h div 2 ^ 54 < 2 ^ 10"
    by (rule less_mult_imp_div_less) (use unat_u64_lt [of h] in simp)
  ultimately show ?thesis
    by (simp add: unsigned_ucast_eq take_bit_nat_eq_self_iff take_bit_nat_eq_self)
qed

lemma msg_bucket_bound: "unat (msg_bucket mid) < 1024"
  by (simp add: msg_bucket_def Let_def fib_bucket_bound)

lemma lease_bucket_bound: "unat (lease_bucket mid) < 1024"
  by (simp add: lease_bucket_def Let_def fib_bucket_bound)

lemma queue_bucket_bound: "unat (queue_bucket name) < 64"
proof -
  have "unat (x AND 63) < 64" for x :: u32
    using word_and_le1 [of x 63] by (simp add: word_le_nat_alt)
  then show ?thesis by (simp add: queue_bucket_def)
qed

section \<open>The three tables meet the table contract\<close>

abbreviation (input) msg_link :: "qdb__state \<Rightarrow> qdb__msg \<Rightarrow> qdb__state" where
  "msg_link st m \<equiv> snd (qdb__msg_insert st m)"

abbreviation (input) lease_link :: "qdb__state \<Rightarrow> qdb__lease \<Rightarrow> qdb__state" where
  "lease_link st l \<equiv> snd (qdb__lease_insert st l)"

definition msgs_ok :: "qdb__state \<Rightarrow> bool" where
  "msgs_ok st \<longleftrightarrow> hok msg_bucket m_id (msg_buckets st)"

definition queues_ok :: "qdb__state \<Rightarrow> bool" where
  "queues_ok st \<longleftrightarrow> hok queue_bucket q_name (queue_buckets st)"

definition leases_ok :: "qdb__state \<Rightarrow> bool" where
  "leases_ok st \<longleftrightarrow> hok lease_bucket l_lease_id (lease_buckets st)"

lemma msg_ops_eq:
  "qdb__msg_get st = hget msg_bucket m_id (msg_buckets st)"
  "msg_buckets (msg_link st m) = hins msg_bucket m_id (msg_buckets st) m"
  "msg_buckets (msg_upd st mid f) = hupd msg_bucket m_id (msg_buckets st) mid f"
  "msg_nodes st = hnodes 1024 (msg_buckets st)"
  by (auto simp: qdb__msg_get_def hget_def qdb__msg_insert_def hins_def msg_upd_def hupd_def
      msg_nodes_def hnodes_def Let_def fun_eq_iff)

lemma queue_ops_eq:
  "qdb__queue_get st = hget queue_bucket q_name (queue_buckets st)"
  "queue_buckets (queue_link st q) = hins queue_bucket q_name (queue_buckets st) q"
  "queue_buckets (queue_upd st name g) = hupd queue_bucket q_name (queue_buckets st) name g"
  "queue_nodes st = hnodes 64 (queue_buckets st)"
  by (auto simp: qdb__queue_get_def hget_def queue_link_def hins_def queue_upd_def hupd_def
      queue_nodes_def hnodes_def Let_def fun_eq_iff)

lemma lease_remove_buckets:
  "lease_buckets (qdb__lease_remove st k) = hrem lease_bucket l_lease_id (lease_buckets st) k"
proof (cases "qdb__lease_get st k")
  case None
  then have "chain_remove (\<lambda>l. l_lease_id l = k) (lease_buckets st (lease_bucket k)) = lease_buckets st (lease_bucket k)"
    by (auto simp: qdb__lease_get_def Let_def find_None_iff intro: chain_remove_id)
  with None show ?thesis by (simp add: qdb__lease_remove_def hrem_def)
qed (simp add: qdb__lease_remove_def hrem_def Let_def)

lemma lease_ops_eq:
  "qdb__lease_get st = hget lease_bucket l_lease_id (lease_buckets st)"
  "lease_buckets (lease_link st l) = hins lease_bucket l_lease_id (lease_buckets st) l"
  "lease_nodes st = hnodes 1024 (lease_buckets st)"
  by (auto simp: qdb__lease_get_def hget_def qdb__lease_insert_def hins_def
      lease_nodes_def hnodes_def Let_def fun_eq_iff)

interpretation mt: table msgs_ok qdb__msg_get msg_upd msg_link msg_nodes m_id
  by (unfold_locales; unfold msg_ops_eq msgs_ok_def;
      (rule hget_hins | erule hget_key | erule (1) hok_hins | erule hnodes_distinct, simp
        | erule hnodes_mem [OF _ msg_bucket_bound] | rule hget_hupd, simp | erule hok_hupd, simp))

interpretation qt: table queues_ok qdb__queue_get queue_upd queue_link queue_nodes q_name
  by (unfold_locales; unfold queue_ops_eq queues_ok_def;
      (rule hget_hins | erule hget_key | erule (1) hok_hins | erule hnodes_distinct, simp
        | erule hnodes_mem [OF _ queue_bucket_bound] | rule hget_hupd, simp | erule hok_hupd, simp))

text \<open>No code stores through a lease pointer; the operation completes the contract.\<close>

definition lease_upd :: "qdb__state \<Rightarrow> u64 \<Rightarrow> (qdb__lease \<Rightarrow> qdb__lease) \<Rightarrow> qdb__state" where
  "lease_upd st k f = st\<lparr>lease_buckets := hupd lease_bucket l_lease_id (lease_buckets st) k f\<rparr>"

lemma lease_upd_buckets: "lease_buckets (lease_upd st k f) = hupd lease_bucket l_lease_id (lease_buckets st) k f"
  by (simp add: lease_upd_def)

interpretation lt: removable_table leases_ok qdb__lease_get lease_upd lease_link lease_nodes l_lease_id qdb__lease_remove
  by (unfold_locales; unfold lease_ops_eq lease_remove_buckets lease_upd_buckets leases_ok_def;
      (rule hget_hins | erule hget_key | erule (1) hok_hins | erule hnodes_distinct, simp
        | erule hnodes_mem [OF _ lease_bucket_bound] | rule hget_hupd, simp | erule hok_hupd, simp | erule hget_hrem | erule hok_hrem))

section \<open>What each operation leaves alone\<close>

named_theorems st_simps \<open>lookups, counters and table invariants after one store\<close>

lemma get_frame [st_simps]:
  "qdb__msg_get (queue_upd st n g) = qdb__msg_get st" "qdb__msg_get (queue_link st q) = qdb__msg_get st"
  "qdb__msg_get (lease_link st l) = qdb__msg_get st" "qdb__msg_get (qdb__lease_remove st k) = qdb__msg_get st"
  "qdb__queue_get (msg_upd st i f) = qdb__queue_get st" "qdb__queue_get (msg_link st m) = qdb__queue_get st"
  "qdb__queue_get (lease_link st l) = qdb__queue_get st" "qdb__queue_get (qdb__lease_remove st k) = qdb__queue_get st"
  "qdb__lease_get (msg_upd st i f) = qdb__lease_get st" "qdb__lease_get (msg_link st m) = qdb__lease_get st"
  "qdb__lease_get (queue_upd st n g) = qdb__lease_get st" "qdb__lease_get (queue_link st q) = qdb__lease_get st"
  by (auto simp: fun_eq_iff qdb__msg_get_def qdb__queue_get_def qdb__lease_get_def qdb__msg_insert_def
      qdb__lease_insert_def qdb__lease_remove_def queue_upd_def queue_link_def msg_upd_def Let_def)

lemma ok_frame [st_simps]:
  "msgs_ok (queue_upd st n g) = msgs_ok st" "msgs_ok (queue_link st q) = msgs_ok st"
  "msgs_ok (lease_link st l) = msgs_ok st" "msgs_ok (qdb__lease_remove st k) = msgs_ok st"
  "queues_ok (msg_upd st i f) = queues_ok st" "queues_ok (msg_link st m) = queues_ok st"
  "queues_ok (lease_link st l) = queues_ok st" "queues_ok (qdb__lease_remove st k) = queues_ok st"
  "leases_ok (msg_upd st i f) = leases_ok st" "leases_ok (msg_link st m) = leases_ok st"
  "leases_ok (queue_upd st n g) = leases_ok st" "leases_ok (queue_link st q) = leases_ok st"
  by (auto simp: msgs_ok_def queues_ok_def leases_ok_def qdb__msg_insert_def
      qdb__lease_insert_def qdb__lease_remove_def queue_upd_def queue_link_def msg_upd_def Let_def)

lemma count_frame [st_simps]:
  "msg_count (queue_upd st n g) = msg_count st" "msg_count (queue_link st q) = msg_count st"
  "msg_count (lease_link st l) = msg_count st" "msg_count (qdb__lease_remove st k) = msg_count st"
  "msg_count (msg_upd st i f) = msg_count st" "msg_count (msg_link st m) = msg_count st + 1"
  "queue_count (queue_upd st n g) = queue_count st" "queue_count (queue_link st q) = queue_count st + 1"
  "queue_count (lease_link st l) = queue_count st" "queue_count (qdb__lease_remove st k) = queue_count st"
  "queue_count (msg_upd st i f) = queue_count st" "queue_count (msg_link st m) = queue_count st"
  "lease_count (queue_upd st n g) = lease_count st" "lease_count (queue_link st q) = lease_count st"
  "lease_count (lease_link st l) = lease_count st + 1" "lease_count (msg_upd st i f) = lease_count st"
  "lease_count (msg_link st m) = lease_count st"
  "qdb__lease_get st k \<noteq> None \<Longrightarrow> lease_count (qdb__lease_remove st k) = lease_count st - 1"
  by (auto simp: qdb__msg_insert_def qdb__lease_insert_def qdb__lease_remove_def queue_upd_def
      queue_link_def msg_upd_def Let_def)

lemmas table_simps [st_simps] =
  mt.get_upd mt.get_ins mt.ok_upd mt.ok_ins qt.get_upd qt.get_ins qt.ok_upd qt.ok_ins
  lt.get_ins lt.ok_ins lt.get_rem lt.ok_rem

text \<open>Stores to different tables commute, and two stores to one node are one.\<close>

lemma upd_commute:
  "queue_upd (msg_upd st i f) n g = msg_upd (queue_upd st n g) i f"
  "qdb__lease_remove (msg_upd st i f) k = msg_upd (qdb__lease_remove st k) i f"
  "qdb__lease_remove (queue_upd st n g) k = queue_upd (qdb__lease_remove st k) n g"
  by (auto simp: queue_upd_def msg_upd_def qdb__lease_remove_def qdb__lease_get_def Let_def)

lemma chain_upd_twice:
  "(\<And>n. key (f n) = key n) \<Longrightarrow> chain_upd (\<lambda>n. key n = k) g (chain_upd (\<lambda>n. key n = k) f ns)
     = chain_upd (\<lambda>n. key n = k) (\<lambda>n. g (f n)) ns"
  by (induction ns) auto

lemma upd_twice:
  "(\<And>m. m_id (f m) = m_id m) \<Longrightarrow> msg_upd (msg_upd st i f) i f' = msg_upd st i (\<lambda>m. f' (f m))"
  "(\<And>q. q_name (g q) = q_name q) \<Longrightarrow> queue_upd (queue_upd st n g) n g' = queue_upd st n (\<lambda>q. g' (g q))"
  by (simp_all add: msg_upd_def queue_upd_def chain_upd_twice Let_def)

lemma empty_state_simps [simp]:
  "qdb__msg_get empty_state k = None" "qdb__queue_get empty_state n = None" "qdb__lease_get empty_state k = None"
  "msgs_ok empty_state" "queues_ok empty_state" "leases_ok empty_state"
  "msg_count empty_state = 0" "queue_count empty_state = 0" "lease_count empty_state = 0"
  by (simp_all add: empty_state_def qdb__msg_get_def qdb__queue_get_def qdb__lease_get_def msgs_ok_def
      queues_ok_def leases_ok_def hok_empty Let_def)

end
