(* ===== verification/Pending.thy ===== *)
theory Pending
  imports State
begin

text \<open>
  The PENDING list of a queue: an intrusive doubly linked list threaded through the message table
  by id, with 0 as the end.  \<open>list_ok g q ids\<close> says that the list of queue \<open>q\<close> is \<open>ids\<close>, in both
  directions.  Shown: \<open>qdb__queue_pending_append\<close> puts the message at the end, and
  \<open>qdb__queue_pending_remove\<close> takes it out wherever it is; both change nothing but link
  fields of the messages, the two ends and the counter of the queue.
\<close>

section \<open>Doubly linked segments\<close>

definition hdo :: "'a list \<Rightarrow> 'a \<Rightarrow> 'a" where
  "hdo xs d = (case xs of [] \<Rightarrow> d | x # _ \<Rightarrow> x)"

definition lasto :: "'a list \<Rightarrow> 'a \<Rightarrow> 'a" where
  "lasto xs d = (if xs = [] then d else last xs)"

lemma hdo_simps [simp]: "hdo [] d = d" "hdo (x # xs) d = x" "hdo (xs @ [y]) d = hdo xs y"
  "hdo (xs @ y # ys) d = hdo xs y"
  by (auto simp: hdo_def split: list.splits)

lemma lasto_simps [simp]: "lasto [] d = d" "lasto [x] d = x" "lasto (xs @ [y]) d = y"
  "lasto (x # y # ys) d = lasto (y # ys) d" "lasto (xs @ y # ys) d = lasto (y # ys) d"
  by (auto simp: lasto_def)

lemma lasto_Cons: "lasto (x # xs) d = lasto xs x"
  by (simp add: lasto_def)

lemma hdo_hd: "xs \<noteq> [] \<Longrightarrow> hdo xs d = hd xs"
  by (cases xs) auto

lemma last_notin_butlast: "distinct xs \<Longrightarrow> last xs \<notin> set (butlast xs)"
  by (cases xs rule: rev_cases) auto

lemma hd_notin_tl: "distinct xs \<Longrightarrow> hd xs \<notin> set (tl xs) \<or> xs = []"
  by (cases xs) auto

lemma in_set_tlD: "x \<in> set (tl xs) \<Longrightarrow> x \<in> set xs"
  by (cases xs) auto

lemma ends_0: "0 \<notin> set xs \<Longrightarrow> lasto xs (0 :: u64) = 0 \<longleftrightarrow> xs = []"
  "0 \<notin> set xs \<Longrightarrow> hdo xs (0 :: u64) = 0 \<longleftrightarrow> xs = []"
  by (cases xs rule: rev_cases; auto) (cases xs; auto)

primrec dseg :: "(u64 \<rightharpoonup> qdb__msg) \<Rightarrow> u64 \<Rightarrow> u64 list \<Rightarrow> u64 \<Rightarrow> bool" where
  "dseg g p [] nx \<longleftrightarrow> True"
| "dseg g p (x # xs) nx \<longleftrightarrow>
     (\<exists>m. g x = Some m \<and> m_prev_pending m = p \<and> m_next_pending m = hdo xs nx) \<and> dseg g x xs nx"

lemma dseg_append: "dseg g p (xs @ ys) nx \<longleftrightarrow> dseg g p xs (hdo ys nx) \<and> dseg g (lasto xs p) ys nx"
proof (induction xs arbitrary: p)
  case (Cons x xs)
  have "hdo (xs @ ys) nx = hdo xs (hdo ys nx)" by (cases xs) auto
  then show ?case using Cons.IH [of x] by (auto simp: lasto_Cons)
qed simp

lemma dseg_cong:
  assumes "\<And>x. x \<in> set xs \<Longrightarrow> g' x = g x"
  shows "dseg g' p xs nx = dseg g p xs nx"
  using assms by (induction xs arbitrary: p) auto

lemma dseg_mem: "dseg g p xs nx \<Longrightarrow> x \<in> set xs \<Longrightarrow> \<exists>m. g x = Some m"
  by (induction xs arbitrary: p) auto

definition list_ok :: "(u64 \<rightharpoonup> qdb__msg) \<Rightarrow> qdb__queue \<Rightarrow> u64 list \<Rightarrow> bool" where
  "list_ok g q ids \<longleftrightarrow> dseg g 0 ids 0 \<and> distinct ids \<and> 0 \<notin> set ids \<and>
     q_pending_head q = hdo ids 0 \<and> q_pending_tail q = lasto ids 0 \<and>
     q_pending_count q = of_nat (length ids)"

lemma list_ok_cong:
  assumes "\<And>x. x \<in> set ids \<Longrightarrow> g' x = g x"
    and "q_pending_head q' = q_pending_head q" and "q_pending_tail q' = q_pending_tail q"
    and "q_pending_count q' = q_pending_count q"
  shows "list_ok g' q' ids = list_ok g q ids"
  using assms dseg_cong [of ids g' g] by (simp add: list_ok_def)

text \<open>The end of a list extended, and a node unlinked, on the level of segments.\<close>

lemma dseg_extend:
  assumes seg: "dseg g 0 ids 0" and "distinct (ids @ [i])"
    and new: "\<exists>m. g' i = Some m \<and> m_prev_pending m = lasto ids 0 \<and> m_next_pending m = 0"
    and old: "\<And>x. x \<in> set (butlast ids) \<Longrightarrow> g' x = g x"
    and tail: "ids \<noteq> [] \<Longrightarrow> \<exists>m. g (last ids) = Some m \<and> g' (last ids) = Some (m\<lparr>m_next_pending := i\<rparr>)"
  shows "dseg g' 0 (ids @ [i]) 0"
proof (cases ids rule: rev_cases)
  case (snoc zs z)
  have "dseg g' 0 zs z = dseg g 0 zs z" using old snoc by (intro dseg_cong) auto
  then show ?thesis using seg new tail snoc by (auto simp: dseg_append)
qed (use new in simp)

lemma dseg_unlink:
  assumes seg: "dseg g 0 (xs @ i # ys) 0" and dist: "distinct (xs @ i # ys)"
    and old: "\<And>x. x \<in> set (butlast xs) \<union> set (tl ys) \<Longrightarrow> g' x = g x"
    and prv: "xs \<noteq> [] \<Longrightarrow> \<exists>m. g (last xs) = Some m \<and> g' (last xs) = Some (m\<lparr>m_next_pending := hdo ys 0\<rparr>)"
    and nxt: "ys \<noteq> [] \<Longrightarrow> \<exists>m. g (hd ys) = Some m \<and> g' (hd ys) = Some (m\<lparr>m_prev_pending := lasto xs 0\<rparr>)"
  shows "dseg g' 0 (xs @ ys) 0"
proof -
  have front: "dseg g' 0 xs (hdo ys 0)"
  proof (cases xs rule: rev_cases)
    case (snoc zs z)
    have "dseg g' 0 zs z = dseg g 0 zs z" using old snoc by (intro dseg_cong) auto
    then show ?thesis using seg prv snoc by (auto simp: dseg_append)
  qed simp
  have "dseg g' (lasto xs 0) ys 0"
  proof (cases ys)
    case (Cons y zs)
    have "dseg g' y zs 0 = dseg g y zs 0" using old Cons by (intro dseg_cong) auto
    then show ?thesis using seg nxt Cons by (auto simp: dseg_append)
  qed simp
  with front show ?thesis by (simp add: dseg_append)
qed

section \<open>Appending\<close>

text \<open>\<open>strip m\<close>: the message without its links.\<close>

definition strip :: "qdb__msg \<Rightarrow> qdb__msg" where
  "strip m = m\<lparr>m_next_pending := 0, m_prev_pending := 0\<rparr>"

lemma strip_upd [simp]:
  "strip (m\<lparr>m_next_pending := a\<rparr>) = strip m" "strip (m\<lparr>m_prev_pending := a\<rparr>) = strip m"
  by (simp_all add: strip_def)

lemma strip_the: "x = Some (the x) \<Longrightarrow> Some (strip (the x)) = map_option strip x"
  by (cases x) auto

text \<open>
  \<open>same_but_links st st' ids name\<close>: the messages outside \<open>ids\<close> and the queues other than \<open>name\<close> are as
  they were, and the messages in \<open>ids\<close> differ in their links only.
\<close>

definition same_but_links :: "qdb__state \<Rightarrow> qdb__state \<Rightarrow> u64 set \<Rightarrow> bytes \<Rightarrow> bool" where
  "same_but_links st st' S name \<longleftrightarrow>
     (\<forall>k. k \<notin> S \<longrightarrow> qdb__msg_get st' k = qdb__msg_get st k) \<and>
     (\<forall>k. map_option strip (qdb__msg_get st' k) = map_option strip (qdb__msg_get st k)) \<and>
     (\<forall>n. n \<noteq> name \<longrightarrow> qdb__queue_get st' n = qdb__queue_get st n)"

text \<open>Everything but the links of messages and the list fields of the queue is left alone.\<close>

definition relink :: "qdb__state \<Rightarrow> qdb__state \<Rightarrow> bool" where
  "relink st st' \<longleftrightarrow> qdb__lease_get st' = qdb__lease_get st \<and> lease_nodes st' = lease_nodes st \<and>
     (msgs_ok st \<longrightarrow> msgs_ok st') \<and> (queues_ok st \<longrightarrow> queues_ok st') \<and> leases_ok st' = leases_ok st \<and>
     msg_count st' = msg_count st \<and> queue_count st' = queue_count st \<and> lease_count st' = lease_count st"

lemma relink_simps:
  "relink st st" "relink a b \<Longrightarrow> relink b c \<Longrightarrow> relink a c"
  "(\<And>m. m_id (f m) = m_id m) \<Longrightarrow> relink st (msg_upd st i f)"
  "(\<And>q. q_name (g q) = q_name q) \<Longrightarrow> relink st (queue_upd st n g)"
  by (auto simp: relink_def st_simps lease_nodes_def) (auto simp: msg_upd_def queue_upd_def Let_def)

lemma relink_step:
  assumes "relink a st" and "\<And>m. m_id (f m) = m_id m" and "\<And>q. q_name (g q) = q_name q"
  shows "relink a (if c then (case x of None \<Rightarrow> st | Some y \<Rightarrow> msg_upd st k f) else queue_upd st n g)"
  using assms by (auto intro: relink_simps(2) [OF assms(1)] relink_simps(3,4) split: option.split)

lemma relink_upd:
  "relink a st \<Longrightarrow> (\<And>m. m_id (f m) = m_id m) \<Longrightarrow> relink a (msg_upd st i f)"
  "relink a st \<Longrightarrow> (\<And>q. q_name (g q) = q_name q) \<Longrightarrow> relink a (queue_upd st n g)"
  by (blast intro: relink_simps(2-4))+

lemma pending_append_get:
  assumes q: "qdb__queue_get st name = Some q" and m: "qdb__msg_get st i = Some m"
    and t: "q_pending_tail q = t" "t \<noteq> 0 \<Longrightarrow> t \<noteq> i \<and> qdb__msg_get st t = Some tm"
  shows "qdb__queue_get (qdb__queue_pending_append st name i) n =
      (if n = name then Some (q\<lparr>q_pending_head := if t = 0 then i else q_pending_head q,
          q_pending_tail := i, q_pending_count := q_pending_count q + 1\<rparr>)
       else qdb__queue_get st n)"
    and "qdb__msg_get (qdb__queue_pending_append st name i) k =
      (if k = i then Some (m\<lparr>m_next_pending := 0, m_prev_pending := t\<rparr>)
       else if t \<noteq> 0 \<and> k = t then Some (tm\<lparr>m_next_pending := i\<rparr>) else qdb__msg_get st k)"
proof -
  show "qdb__queue_get (qdb__queue_pending_append st name i) n =
      (if n = name then Some (q\<lparr>q_pending_head := if t = 0 then i else q_pending_head q,
          q_pending_tail := i, q_pending_count := q_pending_count q + 1\<rparr>)
       else qdb__queue_get st n)"
    using q t m by (cases "t = 0") (simp_all add: qdb__queue_pending_append_def Let_def st_simps)
  show "qdb__msg_get (qdb__queue_pending_append st name i) k =
      (if k = i then Some (m\<lparr>m_next_pending := 0, m_prev_pending := t\<rparr>)
       else if t \<noteq> 0 \<and> k = t then Some (tm\<lparr>m_next_pending := i\<rparr>) else qdb__msg_get st k)"
    using q t m by (cases "t = 0") (simp_all add: qdb__queue_pending_append_def Let_def st_simps)
qed

lemma pending_append_relink: "relink st (qdb__queue_pending_append st name i)"
  unfolding qdb__queue_pending_append_def Let_def
  by (intro relink_upd relink_step relink_simps(1)) simp_all

lemma pending_append_list:
  assumes q: "qdb__queue_get st name = Some q" and m: "qdb__msg_get st i = Some m"
    and l: "list_ok (qdb__msg_get st) q ids" and i: "i \<notin> set ids" "i \<noteq> 0"
  obtains q' where "qdb__queue_get (qdb__queue_pending_append st name i) name = Some q'"
    "list_ok (qdb__msg_get (qdb__queue_pending_append st name i)) q' (ids @ [i])"
    "q_leased_count q' = q_leased_count q" "q_acked_count q' = q_acked_count q" "q_name q' = q_name q"
    "same_but_links st (qdb__queue_pending_append st name i) (set (ids @ [i])) name"
proof -
  let ?st' = "qdb__queue_pending_append st name i" and ?t = "lasto ids 0"
  have t: "q_pending_tail q = ?t" "?t = 0 \<longleftrightarrow> ids = []" using l ends_0(1) [of ids] by (simp_all add: list_ok_def)
  have tm: "?t \<noteq> i \<and> qdb__msg_get st ?t = Some (the (qdb__msg_get st ?t))" if "?t \<noteq> 0"
    using that l i(1) t(2) dseg_mem [of "qdb__msg_get st" 0 ids 0 ?t] by (auto simp: list_ok_def lasto_def)
  note get = pending_append_get [OF q m t(1) tm]
  have "dseg (qdb__msg_get ?st') 0 (ids @ [i]) 0"
  proof (rule dseg_extend)
    show "\<And>x. x \<in> set (butlast ids) \<Longrightarrow> qdb__msg_get ?st' x = qdb__msg_get st x"
      using l i(1) by (cases ids rule: rev_cases) (auto simp: get list_ok_def)
    show "\<exists>m. qdb__msg_get st (last ids) = Some m \<and> qdb__msg_get ?st' (last ids) = Some (m\<lparr>m_next_pending := i\<rparr>)"
      if "ids \<noteq> []"
      using tm that t(2) i(1) by (auto simp: get lasto_def intro!: exI [of _ "the (qdb__msg_get st (last ids))"])
  qed (use l i in \<open>auto simp: get list_ok_def\<close>)
  moreover have "hdo (ids @ [i]) 0 = (if ids = [] then i else hdo ids 0)" by (cases ids) auto
  moreover have "?t \<noteq> 0 \<longrightarrow> ?t \<in> set ids" using t(2) by (auto simp: lasto_def)
  then have "same_but_links st ?st' (set (ids @ [i])) name"
    using m tm by (auto simp: same_but_links_def get intro!: strip_the)
  ultimately show thesis
    using l i t(2) by (intro that [OF get(1) [of name, unfolded if_P [OF refl]]]) (auto simp: list_ok_def)
qed

section \<open>Removing\<close>

lemma pending_remove_get:
  assumes q: "qdb__queue_get st name = Some q" and m: "qdb__msg_get st i = Some m"
    and p: "m_prev_pending m = p" "p \<noteq> 0 \<Longrightarrow> p \<noteq> i \<and> qdb__msg_get st p = Some pm"
    and x: "m_next_pending m = x" "x \<noteq> 0 \<Longrightarrow> x \<noteq> i \<and> x \<noteq> p \<and> qdb__msg_get st x = Some xm"
  shows "qdb__queue_get (qdb__queue_pending_remove st name i) n =
      (if n = name then Some (q\<lparr>q_pending_head := if p = 0 then x else q_pending_head q,
          q_pending_tail := if x = 0 then p else q_pending_tail q, q_pending_count := q_pending_count q - 1\<rparr>)
       else qdb__queue_get st n)"
    and "qdb__msg_get (qdb__queue_pending_remove st name i) k =
      (if k = i then Some (m\<lparr>m_next_pending := 0, m_prev_pending := 0\<rparr>)
       else if p \<noteq> 0 \<and> k = p then Some (pm\<lparr>m_next_pending := x\<rparr>)
       else if x \<noteq> 0 \<and> k = x then Some (xm\<lparr>m_prev_pending := p\<rparr>) else qdb__msg_get st k)"
proof -
  have ne: "p \<noteq> 0 \<Longrightarrow> i \<noteq> p" "x \<noteq> 0 \<Longrightarrow> i \<noteq> x" "x \<noteq> 0 \<Longrightarrow> p \<noteq> x" using p(2) x(2) by auto
  show "qdb__queue_get (qdb__queue_pending_remove st name i) n =
      (if n = name then Some (q\<lparr>q_pending_head := if p = 0 then x else q_pending_head q,
          q_pending_tail := if x = 0 then p else q_pending_tail q, q_pending_count := q_pending_count q - 1\<rparr>)
       else qdb__queue_get st n)"
    using q m p x ne
    by (cases "p = 0"; cases "x = 0") (simp_all add: qdb__queue_pending_remove_def Let_def st_simps)
  show "qdb__msg_get (qdb__queue_pending_remove st name i) k =
      (if k = i then Some (m\<lparr>m_next_pending := 0, m_prev_pending := 0\<rparr>)
       else if p \<noteq> 0 \<and> k = p then Some (pm\<lparr>m_next_pending := x\<rparr>)
       else if x \<noteq> 0 \<and> k = x then Some (xm\<lparr>m_prev_pending := p\<rparr>) else qdb__msg_get st k)"
    using q m p x ne
    by (cases "p = 0"; cases "x = 0") (simp_all add: qdb__queue_pending_remove_def Let_def st_simps)
qed

lemma pending_remove_relink: "relink st (qdb__queue_pending_remove st name i)"
  unfolding qdb__queue_pending_remove_def Let_def
  by (intro relink_upd relink_step relink_simps(1)) simp_all

lemma list_ok_links:
  assumes l: "list_ok g q (xs @ i # ys)" and m: "g i = Some m"
  shows "m_prev_pending m = lasto xs 0" "m_next_pending m = hdo ys 0"
    "lasto xs 0 \<noteq> 0 \<Longrightarrow> xs \<noteq> [] \<and> lasto xs 0 \<noteq> i \<and> (\<exists>pm. g (lasto xs 0) = Some pm)"
    "hdo ys 0 \<noteq> 0 \<Longrightarrow> ys \<noteq> [] \<and> hdo ys 0 \<noteq> i \<and> hdo ys 0 \<noteq> lasto xs 0 \<and> (\<exists>xm. g (hdo ys 0) = Some xm)"
    "lasto xs 0 = 0 \<longleftrightarrow> xs = []" "hdo ys 0 = 0 \<longleftrightarrow> ys = []"
proof -
  have d: "dseg g 0 (xs @ i # ys) 0" "distinct (xs @ i # ys)" "0 \<notin> set (xs @ i # ys)"
    using l by (auto simp: list_ok_def)
  show "m_prev_pending m = lasto xs 0" "m_next_pending m = hdo ys 0" using d(1) m by (auto simp: dseg_append)
  show ends: "lasto xs 0 = 0 \<longleftrightarrow> xs = []" "hdo ys 0 = 0 \<longleftrightarrow> ys = []"
    using d(3) by (simp_all add: ends_0)
  show "xs \<noteq> [] \<and> lasto xs 0 \<noteq> i \<and> (\<exists>pm. g (lasto xs 0) = Some pm)" if "lasto xs 0 \<noteq> 0"
    using that ends d dseg_mem [OF d(1), of "lasto xs 0"] by (auto simp: lasto_def)
  show "ys \<noteq> [] \<and> hdo ys 0 \<noteq> i \<and> hdo ys 0 \<noteq> lasto xs 0 \<and> (\<exists>xm. g (hdo ys 0) = Some xm)" if "hdo ys 0 \<noteq> 0"
    using that ends d dseg_mem [OF d(1), of "hdo ys 0"]
    by (cases ys) (auto simp: lasto_def split: if_splits)
qed

lemma pending_remove_list:
  assumes q: "qdb__queue_get st name = Some q" and m: "qdb__msg_get st i = Some m"
    and l: "list_ok (qdb__msg_get st) q (xs @ i # ys)"
  obtains q' where "qdb__queue_get (qdb__queue_pending_remove st name i) name = Some q'"
    "list_ok (qdb__msg_get (qdb__queue_pending_remove st name i)) q' (xs @ ys)"
    "q_leased_count q' = q_leased_count q" "q_acked_count q' = q_acked_count q" "q_name q' = q_name q"
    "same_but_links st (qdb__queue_pending_remove st name i) (set (xs @ i # ys)) name"
    "qdb__msg_get (qdb__queue_pending_remove st name i) i = Some (m\<lparr>m_next_pending := 0, m_prev_pending := 0\<rparr>)"
proof -
  let ?st' = "qdb__queue_pending_remove st name i" and ?g = "qdb__msg_get st"
  note lk = list_ok_links [OF l m]
  have pf: "lasto xs 0 \<noteq> i \<and> ?g (lasto xs 0) = Some (the (?g (lasto xs 0)))" if "lasto xs 0 \<noteq> 0"
    using lk(3) that by auto
  have xf: "hdo ys 0 \<noteq> i \<and> hdo ys 0 \<noteq> lasto xs 0 \<and> ?g (hdo ys 0) = Some (the (?g (hdo ys 0)))"
    if "hdo ys 0 \<noteq> 0" using lk(4) that by auto
  have get: "\<And>n. qdb__queue_get ?st' n = (if n = name then Some (q\<lparr>q_pending_head := if xs = [] then hdo ys 0 else q_pending_head q,
        q_pending_tail := if ys = [] then lasto xs 0 else q_pending_tail q, q_pending_count := q_pending_count q - 1\<rparr>)
       else qdb__queue_get st n)"
    "\<And>k. qdb__msg_get ?st' k = (if k = i then Some (m\<lparr>m_next_pending := 0, m_prev_pending := 0\<rparr>)
       else if xs \<noteq> [] \<and> k = lasto xs 0 then Some (the (?g (lasto xs 0))\<lparr>m_next_pending := hdo ys 0\<rparr>)
       else if ys \<noteq> [] \<and> k = hdo ys 0 then Some (the (?g (hdo ys 0))\<lparr>m_prev_pending := lasto xs 0\<rparr>) else ?g k)"
    using pending_remove_get [OF q m lk(1) pf lk(2) xf] unfolding lk(5,6) by blast+
  have d: "distinct (xs @ i # ys)" "dseg ?g 0 (xs @ i # ys) 0" using l by (auto simp: list_ok_def)
  have "dseg (qdb__msg_get ?st') 0 (xs @ ys) 0"
  proof (rule dseg_unlink [OF d(2,1)])
    fix k assume "k \<in> set (butlast xs) \<union> set (tl ys)"
    then have "k \<noteq> i" and "xs \<noteq> [] \<longrightarrow> k \<noteq> lasto xs 0" and "ys \<noteq> [] \<longrightarrow> k \<noteq> hdo ys 0"
      using d(1) in_set_butlastD [of k xs] in_set_tlD [of k ys] last_in_set [of xs] list.set_sel(1) [of ys] last_notin_butlast [of xs] hd_notin_tl [of ys]
      by (auto simp: lasto_def hdo_hd disjoint_iff)
    then show "qdb__msg_get ?st' k = ?g k" by (auto simp: get)
  next
    assume "xs \<noteq> []"
    then show "\<exists>m. ?g (last xs) = Some m \<and> qdb__msg_get ?st' (last xs) = Some (m\<lparr>m_next_pending := hdo ys 0\<rparr>)"
    proof -
      have la: "lasto xs 0 = last xs" using \<open>xs \<noteq> []\<close> by (simp add: lasto_def)
      obtain pm where "?g (last xs) = Some pm" "last xs \<noteq> i" using lk(3,5) \<open>xs \<noteq> []\<close> by (auto simp: la)
      then show ?thesis using \<open>xs \<noteq> []\<close> by (simp add: get(2) la)
    qed
  next
    assume ne: "ys \<noteq> []"
    then have "hd ys = hdo ys 0" by (cases ys) auto
    then show "\<exists>m. ?g (hd ys) = Some m \<and> qdb__msg_get ?st' (hd ys) = Some (m\<lparr>m_prev_pending := lasto xs 0\<rparr>)"
      using lk(4,6) ne by (auto simp: get)
  qed
  moreover have "hdo (xs @ ys) 0 = (if xs = [] then hdo ys 0 else hdo (xs @ i # ys) 0)"
    "lasto (xs @ ys) 0 = (if ys = [] then lasto xs 0 else lasto (xs @ i # ys) 0)"
    by (cases xs; simp) (cases ys rule: rev_cases; simp add: lasto_def)
  moreover have "xs \<noteq> [] \<longrightarrow> lasto xs 0 \<in> set xs" "ys \<noteq> [] \<longrightarrow> hdo ys 0 \<in> set ys"
    by (simp_all add: lasto_def hdo_hd)
  then have "same_but_links st ?st' (set (xs @ i # ys)) name"
    using m pf xf lk(5,6) by (auto simp: same_but_links_def get intro!: strip_the)
  ultimately show thesis
    using l get(2) [of i]
    by (intro that [OF get(1) [of name, unfolded if_P [OF refl]]]) (auto simp: list_ok_def)
qed

end
