(* ===== verification/QueueSpec.thy ===== *)
theory QueueSpec
  imports Prelude
begin

text \<open>
  The abstract specification of the queue state: what a QDB database promises, without tables,
  links or files.  A message has a queue, a place and length of its data in the log, a retry count
  and a status; every queue has the sequence of its pending messages.  The four transitions are
  push, lease, acknowledge and return (nack or expiry).  \<open>ainv\<close> is the invariant: a message is in
  the sequence of its queue exactly while it is pending, and no two messages share a lease.  The
  theory \<open>Refine\<close> shows that the tables of \<open>qdb_state.c\<close> implement this specification.
\<close>

section \<open>State\<close>

datatype astatus = APending | ALeased u64 u64 | AAcked

record amsg =
  am_queue :: bytes
  am_off :: u64
  am_len :: u32
  am_retry :: u32
  am_status :: astatus

record astate =
  a_msgs :: "u64 \<rightharpoonup> amsg"
  a_pending :: "bytes \<Rightarrow> u64 list"
  a_queues :: "bytes set"

definition a_empty :: astate where
  "a_empty = \<lparr>a_msgs = Map.empty, a_pending = (\<lambda>_. []), a_queues = {}\<rparr>"

definition a_with :: "astate \<Rightarrow> bytes \<Rightarrow> (astatus \<Rightarrow> bool) \<Rightarrow> u64 set" where
  "a_with A n P = {k. \<exists>am. a_msgs A k = Some am \<and> am_queue am = n \<and> P (am_status am)}"

fun is_leased :: "astatus \<Rightarrow> bool" where
  "is_leased (ALeased _ _) = True"
| "is_leased _ = False"

definition a_leases :: "astate \<Rightarrow> u64 set" where
  "a_leases A = {k. \<exists>am. a_msgs A k = Some am \<and> is_leased (am_status am)}"

definition name_ok :: "bytes \<Rightarrow> bool" where
  "name_ok n \<longleftrightarrow> 0 < length n \<and> length n \<le> QDB_QUEUE_NAME_MAX"

section \<open>Transitions\<close>

definition a_push :: "u64 \<Rightarrow> bytes \<Rightarrow> u64 \<Rightarrow> u32 \<Rightarrow> astate \<Rightarrow> astate" where
  "a_push k n off len A =
     A\<lparr>a_msgs := (a_msgs A)(k \<mapsto> \<lparr>am_queue = n, am_off = off, am_len = len, am_retry = 0, am_status = APending\<rparr>),
       a_pending := (a_pending A)(n := a_pending A n @ [k]),
       a_queues := insert n (a_queues A)\<rparr>"

definition a_lease :: "u64 \<Rightarrow> u64 \<Rightarrow> u64 \<Rightarrow> astate \<Rightarrow> astate" where
  "a_lease k lid e A =
     (case a_msgs A k of None \<Rightarrow> A | Some am \<Rightarrow>
      A\<lparr>a_msgs := (a_msgs A)(k \<mapsto> am\<lparr>am_status := ALeased lid e\<rparr>),
        a_pending := (a_pending A)(am_queue am := remove1 k (a_pending A (am_queue am)))\<rparr>)"

definition a_ack :: "u64 \<Rightarrow> astate \<Rightarrow> astate" where
  "a_ack k A =
     (case a_msgs A k of None \<Rightarrow> A | Some am \<Rightarrow>
      A\<lparr>a_msgs := (a_msgs A)(k \<mapsto> am\<lparr>am_status := AAcked\<rparr>)\<rparr>)"

definition a_return :: "u64 \<Rightarrow> astate \<Rightarrow> astate" where
  "a_return k A =
     (case a_msgs A k of None \<Rightarrow> A | Some am \<Rightarrow>
      A\<lparr>a_msgs := (a_msgs A)(k \<mapsto> am\<lparr>am_status := APending, am_retry := am_retry am + 1\<rparr>),
        a_pending := (a_pending A)(am_queue am := a_pending A (am_queue am) @ [k])\<rparr>)"

section \<open>Invariant\<close>

definition leases_inj :: "astate \<Rightarrow> bool" where
  "leases_inj A \<longleftrightarrow> (\<forall>k am l e. a_msgs A k = Some am \<longrightarrow> am_status am = ALeased l e \<longrightarrow>
     l \<noteq> 0 \<and> (\<forall>k' am' e'. a_msgs A k' = Some am' \<longrightarrow> am_status am' = ALeased l e' \<longrightarrow> k' = k))"

definition pending_ok :: "astate \<Rightarrow> bool" where
  "pending_ok A \<longleftrightarrow> (\<forall>n. distinct (a_pending A n) \<and> set (a_pending A n) = a_with A n (\<lambda>s. s = APending))"

definition ainv :: "astate \<Rightarrow> bool" where
  "ainv A \<longleftrightarrow> finite (dom (a_msgs A)) \<and> finite (a_queues A) \<and> a_msgs A 0 = None \<and>
     (\<forall>k am. a_msgs A k = Some am \<longrightarrow> am_queue am \<in> a_queues A) \<and>
     (\<forall>n \<in> a_queues A. name_ok n) \<and> pending_ok A \<and> leases_inj A"

lemma ainvD:
  assumes "ainv A"
  shows "finite (dom (a_msgs A))" "finite (a_queues A)" "a_msgs A 0 = None"
    "a_msgs A k = Some am \<Longrightarrow> am_queue am \<in> a_queues A" "n \<in> a_queues A \<Longrightarrow> name_ok n"
    "distinct (a_pending A n)" "set (a_pending A n) = a_with A n (\<lambda>s. s = APending)"
    "leases_inj A"
  using assms by (simp_all add: ainv_def pending_ok_def)

lemma leases_injD:
  assumes "ainv A" and "a_msgs A k = Some am" and "am_status am = ALeased l e"
  shows "l \<noteq> 0" "a_msgs A k' = Some am' \<Longrightarrow> am_status am' = ALeased l e' \<Longrightarrow> k' = k"
  using ainvD(8) [OF assms(1)] assms(2,3) unfolding leases_inj_def by blast+

lemma ainv_empty: "ainv a_empty"
  by (simp add: ainv_def a_empty_def a_with_def pending_ok_def leases_inj_def)

lemma a_with_finite: "ainv A \<Longrightarrow> finite (a_with A n P)"
  by (rule finite_subset [OF _ ainvD(1)]) (auto simp: a_with_def)

lemma a_leases_finite: "ainv A \<Longrightarrow> finite (a_leases A)"
  by (rule finite_subset [OF _ ainvD(1)]) (auto simp: a_leases_def)

lemma pending_queue:
  assumes "ainv A" and "k \<in> set (a_pending A n)"
  obtains am where "a_msgs A k = Some am" "am_queue am = n" "am_status am = APending" "n \<in> a_queues A" "k \<noteq> 0"
proof -
  from assms obtain am where am: "a_msgs A k = Some am" "am_queue am = n" "am_status am = APending"
    by (auto simp: ainvD(7) a_with_def)
  moreover have "k \<noteq> 0" using am(1) ainvD(3) [OF assms(1)] by auto
  ultimately show thesis using that ainvD(4) [OF assms(1) am(1)] by auto
qed

lemma pending_disjoint:
  assumes "ainv A" and "n \<noteq> n'"
  shows "set (a_pending A n) \<inter> set (a_pending A n') = {}"
  using assms by (auto simp: ainvD(7) a_with_def)

text \<open>How the sets of messages by status move when the status of one message changes.\<close>

lemma a_with_set:
  assumes "a_msgs A' = (a_msgs A)(k \<mapsto> am)"
  shows "a_with A' n P = (if am_queue am = n \<and> P (am_status am) then insert k (a_with A n P) else a_with A n P - {k})"
  using assms by (auto simp: a_with_def split: if_splits)

lemma a_leases_set:
  assumes "a_msgs A' = (a_msgs A)(k \<mapsto> am)"
  shows "a_leases A' = (if is_leased (am_status am) then insert k (a_leases A) else a_leases A - {k})"
  using assms by (auto simp: a_leases_def split: if_splits)

text \<open>What has to be checked when one message changes.\<close>

lemma leases_inj_set:
  assumes "leases_inj A" and "a_msgs A' = (a_msgs A)(k \<mapsto> am)"
    and "\<And>l e k' am' e'. am_status am = ALeased l e \<Longrightarrow>
      l \<noteq> 0 \<and> (a_msgs A k' = Some am' \<longrightarrow> am_status am' \<noteq> ALeased l e')"
  shows "leases_inj A'"
  unfolding leases_inj_def assms(2)
proof (intro allI impI)
  fix k1 a1 l e
  assume 1: "((a_msgs A)(k \<mapsto> am)) k1 = Some a1" and s1: "am_status a1 = ALeased l e"
  show "l \<noteq> 0 \<and> (\<forall>k2 a2 e'. ((a_msgs A)(k \<mapsto> am)) k2 = Some a2 \<longrightarrow> am_status a2 = ALeased l e' \<longrightarrow> k2 = k1)"
  proof (cases "k1 = k")
    case True
    with 1 s1 have s: "am_status am = ALeased l e" by simp
    show ?thesis using assms(3) [OF s] True by (simp split: if_split)
  next
    case False
    with 1 have a1: "a_msgs A k1 = Some a1" by simp
    then have "am_status am \<noteq> ALeased l e'" for e' using assms(3) s1 by blast
    then show ?thesis using assms(1) a1 s1 unfolding leases_inj_def by (simp split: if_split)
  qed
qed

lemma ainv_set:
  assumes inv: "ainv A" and m: "a_msgs A' = (a_msgs A)(k \<mapsto> am)" and "k \<noteq> 0"
    and q: "a_queues A' = insert (am_queue am) (a_queues A)" and "name_ok (am_queue am)"
    and "pending_ok A'" and "leases_inj A'"
  shows "ainv A'"
  using assms ainvD(1-5) [OF inv] by (auto simp: ainv_def)

lemma ainv_push:
  assumes inv: "ainv A" and k: "a_msgs A k = None" "k \<noteq> 0" and n: "name_ok n"
  shows "ainv (a_push k n off len A)"
proof -
  let ?A = "a_push k n off len A" and ?am = "\<lparr>am_queue = n, am_off = off, am_len = len, am_retry = 0, am_status = APending\<rparr>"
  have m: "a_msgs ?A = (a_msgs A)(k \<mapsto> ?am)" by (simp add: a_push_def)
  have kn: "k \<notin> a_with A n' P" for n' P using k(1) by (simp add: a_with_def)
  have p: "a_pending ?A = (a_pending A)(n := a_pending A n @ [k])" by (simp add: a_push_def)
  have "pending_ok ?A"
    using kn ainvD(6,7) [OF inv] unfolding pending_ok_def a_with_set [OF m] p by auto
  moreover have "leases_inj ?A" by (rule leases_inj_set [OF ainvD(8) [OF inv] m]) simp
  ultimately show ?thesis using k n by (intro ainv_set [OF inv m]) (simp_all add: a_push_def)
qed

lemma ainv_lease:
  assumes inv: "ainv A" and am: "a_msgs A k = Some am" and st: "am_status am = APending" and lid: "lid \<noteq> 0"
    and new: "\<And>k' am' e'. a_msgs A k' = Some am' \<Longrightarrow> am_status am' \<noteq> ALeased lid e'"
  shows "ainv (a_lease k lid e A)"
proof -
  let ?A = "a_lease k lid e A"
  have m: "a_msgs ?A = (a_msgs A)(k \<mapsto> am\<lparr>am_status := ALeased lid e\<rparr>)" by (simp add: a_lease_def am)
  have kn: "k \<notin> a_with A n' P" if "n' \<noteq> am_queue am" for n' P using am that by (simp add: a_with_def)
  have p: "a_pending ?A = (a_pending A)(am_queue am := remove1 k (a_pending A (am_queue am)))" by (simp add: a_lease_def am)
  have "pending_ok ?A"
    using kn ainvD(6,7) [OF inv] am unfolding pending_ok_def a_with_set [OF m] p by auto
  moreover have "leases_inj ?A" using lid new by (intro leases_inj_set [OF ainvD(8) [OF inv] m]) auto
  moreover have "k \<noteq> 0" using am ainvD(3) [OF inv] by auto
  ultimately show ?thesis using ainvD(4,5) [OF inv] am
    by (intro ainv_set [OF inv m]) (auto simp: a_lease_def)
qed

lemma leased_not_pending:
  "a_msgs A k = Some am \<Longrightarrow> am_status am = ALeased l e \<Longrightarrow> k \<notin> a_with A n (\<lambda>s. s = APending)"
  by (simp add: a_with_def)

lemma ainv_ack:
  assumes inv: "ainv A" and am: "a_msgs A k = Some am" and st: "am_status am = ALeased l e"
  shows "ainv (a_ack k A)"
proof -
  let ?A = "a_ack k A"
  have m: "a_msgs ?A = (a_msgs A)(k \<mapsto> am\<lparr>am_status := AAcked\<rparr>)" by (simp add: a_ack_def am)
  have p: "a_pending ?A = a_pending A" by (simp add: a_ack_def am)
  have "pending_ok ?A"
    using leased_not_pending [OF am st] ainvD(6,7) [OF inv] am unfolding pending_ok_def a_with_set [OF m] p by auto
  moreover have "leases_inj ?A" by (rule leases_inj_set [OF ainvD(8) [OF inv] m]) simp
  moreover have "k \<noteq> 0" using am ainvD(3) [OF inv] by auto
  ultimately show ?thesis using ainvD(4,5) [OF inv] am
    by (intro ainv_set [OF inv m]) (auto simp: a_ack_def)
qed

lemma ainv_return:
  assumes inv: "ainv A" and am: "a_msgs A k = Some am" and st: "am_status am = ALeased l e"
  shows "ainv (a_return k A)"
proof -
  let ?A = "a_return k A"
  have m: "a_msgs ?A = (a_msgs A)(k \<mapsto> am\<lparr>am_status := APending, am_retry := am_retry am + 1\<rparr>)"
    by (simp add: a_return_def am)
  have p: "a_pending ?A = (a_pending A)(am_queue am := a_pending A (am_queue am) @ [k])" by (simp add: a_return_def am)
  have "pending_ok ?A"
    using leased_not_pending [OF am st] ainvD(6,7) [OF inv] am unfolding pending_ok_def a_with_set [OF m] p by auto
  moreover have "leases_inj ?A" by (rule leases_inj_set [OF ainvD(8) [OF inv] m]) simp
  moreover have "k \<noteq> 0" using am ainvD(3) [OF inv] by auto
  ultimately show ?thesis using ainvD(4,5) [OF inv] am
    by (intro ainv_set [OF inv m]) (auto simp: a_return_def)
qed

end
