(* ===== verification/Refine.thy ===== *)
theory Refine
  imports Pending QueueSpec
begin

text \<open>
  The in-memory state of \<^verbatim>\<open>src/qdb_state.c\<close> implements the abstract queue state.  \<open>absR st A\<close>
  relates the tables to the specification state: the message table holds the messages of \<open>A\<close>, the
  linked list of every queue is its pending sequence, the lease table holds exactly the leased
  messages, and all counters count (modulo their width).  \<open>st_push\<close>, \<open>st_lease\<close>, \<open>st_ack\<close> and
  \<open>st_nack\<close> are the in-memory effects shared by the API functions of \<^verbatim>\<open>src/qdb.c\<close> and the replay
  handlers of \<^verbatim>\<open>src/qdb_replay.c\<close>; each is shown to simulate its transition.
\<close>

section \<open>The relation\<close>

definition astatus_of :: "qdb__msg \<Rightarrow> astatus" where
  "astatus_of m = (case m_state m of QDB_MSG_STATE_PENDING \<Rightarrow> APending
     | QDB_MSG_STATE_LEASED \<Rightarrow> ALeased (m_lease_id m) (m_lease_expiry_us m) | _ \<Rightarrow> AAcked)"

definition amsg_of :: "qdb__msg \<Rightarrow> amsg" where
  "amsg_of m = \<lparr>am_queue = m_queue_name m, am_off = m_data_file_offset m, am_len = m_data_len m,
     am_retry = m_retry_count m, am_status = astatus_of m\<rparr>"

text \<open>A message that is not leased has no lease, and one that is not pending has no links.\<close>

definition msg_tidy :: "qdb__msg \<Rightarrow> bool" where
  "msg_tidy m \<longleftrightarrow> m_state m \<noteq> QDB_MSG_STATE_DEAD \<and>
     (m_state m \<noteq> QDB_MSG_STATE_LEASED \<longrightarrow> m_lease_id m = 0 \<and> m_lease_expiry_us m = 0)"

definition msgs_rel :: "qdb__state \<Rightarrow> astate \<Rightarrow> bool" where
  "msgs_rel st A \<longleftrightarrow> msgs_ok st \<and> (\<forall>k. a_msgs A k = map_option amsg_of (qdb__msg_get st k)) \<and>
     (\<forall>k m. qdb__msg_get st k = Some m \<longrightarrow> msg_tidy m) \<and> msg_count st = of_nat (card (dom (a_msgs A)))"

definition queue_rel :: "qdb__state \<Rightarrow> astate \<Rightarrow> bytes \<Rightarrow> qdb__queue \<Rightarrow> bool" where
  "queue_rel st A n q \<longleftrightarrow> list_ok (qdb__msg_get st) q (a_pending A n) \<and>
     q_leased_count q = of_nat (card (a_with A n is_leased)) \<and>
     q_acked_count q = of_nat (card (a_with A n (\<lambda>s. s = AAcked)))"

definition queues_rel :: "qdb__state \<Rightarrow> astate \<Rightarrow> bool" where
  "queues_rel st A \<longleftrightarrow> queues_ok st \<and> (\<forall>n. n \<in> a_queues A \<longleftrightarrow> qdb__queue_get st n \<noteq> None) \<and>
     (\<forall>n q. qdb__queue_get st n = Some q \<longrightarrow> queue_rel st A n q) \<and>
     queue_count st = of_nat (card (a_queues A))"

definition leases_rel :: "qdb__state \<Rightarrow> astate \<Rightarrow> bool" where
  "leases_rel st A \<longleftrightarrow> leases_ok st \<and>
     (\<forall>lid l. qdb__lease_get st lid = Some l \<longleftrightarrow> l_lease_id l = lid \<and>
        (\<exists>am. a_msgs A (l_msg_id l) = Some am \<and> am_status am = ALeased lid (l_expiry_us l))) \<and>
     lease_count st = of_nat (card (a_leases A))"

definition absR :: "qdb__state \<Rightarrow> astate \<Rightarrow> bool" where
  "absR st A \<longleftrightarrow> ainv A \<and> msgs_rel st A \<and> queues_rel st A \<and> leases_rel st A"

lemma absRD:
  assumes "absR st A"
  shows "ainv A" "msgs_rel st A" "queues_rel st A" "leases_rel st A" "msgs_ok st" "queues_ok st" "leases_ok st"
    "a_msgs A k = map_option amsg_of (qdb__msg_get st k)"
    "qdb__msg_get st k = Some m \<Longrightarrow> msg_tidy m"
    "n \<in> a_queues A \<longleftrightarrow> qdb__queue_get st n \<noteq> None"
    "qdb__queue_get st n = Some q \<Longrightarrow> queue_rel st A n q"
  using assms by (simp_all add: absR_def msgs_rel_def queues_rel_def leases_rel_def)

lemma absR_empty: "absR empty_state a_empty"
  using ainv_empty by (simp add: absR_def msgs_rel_def queues_rel_def leases_rel_def a_empty_def a_leases_def)

text \<open>Every message has a queue, and what the state of a message says about its status.\<close>

lemma absR_msg:
  assumes R: "absR st A" and m: "qdb__msg_get st k = Some m"
  shows "a_msgs A k = Some (amsg_of m)" "m_id m = k" "k \<noteq> 0" "m_queue_name m \<in> a_queues A"
    "\<exists>q. qdb__queue_get st (m_queue_name m) = Some q" "name_ok (m_queue_name m)"
proof -
  show am: "a_msgs A k = Some (amsg_of m)" using absRD(8) [OF R] m by simp
  show "m_id m = k" using mt.get_key [OF m] .
  show "k \<noteq> 0" using am ainvD(3) [OF absRD(1) [OF R]] by auto
  show q: "m_queue_name m \<in> a_queues A"
    using ainvD(4) [OF absRD(1) [OF R] am] by (simp add: amsg_of_def)
  show "\<exists>q. qdb__queue_get st (m_queue_name m) = Some q" using q absRD(10) [OF R] by auto
  show "name_ok (m_queue_name m)" using ainvD(5) [OF absRD(1) [OF R] q] .
qed

lemma astatus_of_simps [simp]:
  "am_status (amsg_of m) = astatus_of m" "am_queue (amsg_of m) = m_queue_name m"
  "am_retry (amsg_of m) = m_retry_count m" "am_off (amsg_of m) = m_data_file_offset m"
  "am_len (amsg_of m) = m_data_len m"
  by (simp_all add: amsg_of_def)

lemma astatus_of_iff:
  "m_state m \<noteq> QDB_MSG_STATE_DEAD \<Longrightarrow> astatus_of m = APending \<longleftrightarrow> m_state m = QDB_MSG_STATE_PENDING"
  "astatus_of m = ALeased l e \<longleftrightarrow> m_state m = QDB_MSG_STATE_LEASED \<and> m_lease_id m = l \<and> m_lease_expiry_us m = e"
  "is_leased (astatus_of m) \<longleftrightarrow> m_state m = QDB_MSG_STATE_LEASED"
  by (auto simp: astatus_of_def split: qdb_msg_state.splits)

lemma amsg_of_strip [simp]: "amsg_of (strip m) = amsg_of m" "msg_tidy (strip m) = msg_tidy m"
  by (simp_all add: amsg_of_def strip_def astatus_of_def msg_tidy_def split: qdb_msg_state.split)

lemma strip_eq_amsg:
  assumes "strip a = strip b"
  shows "amsg_of a = amsg_of b" "msg_tidy a = msg_tidy b"
  using assms amsg_of_strip by metis+

lemma links_only_amsg:
  assumes "map_option strip x = map_option strip y"
  shows "map_option amsg_of x = map_option amsg_of y"
    "x = Some mx \<Longrightarrow> \<exists>my. y = Some my \<and> msg_tidy mx = msg_tidy my"
  using assms by (cases x; cases y; auto dest: strip_eq_amsg)+

section \<open>In-memory effects\<close>

definition queue_ensure :: "qdb__state \<Rightarrow> bytes \<Rightarrow> qdb__state" where
  "queue_ensure st name =
     (case qdb__queue_get st name of Some q \<Rightarrow> st | None \<Rightarrow> queue_link st (new_queue name))"

definition st_push :: "qdb__state \<Rightarrow> u64 \<Rightarrow> u64 \<Rightarrow> u32 \<Rightarrow> bytes \<Rightarrow> qdb__state" where
  "st_push st k off len name =
     qdb__queue_pending_append (queue_ensure (msg_link st (new_msg k off len name)) name) name k"

definition st_lease :: "qdb__state \<Rightarrow> bytes \<Rightarrow> u64 \<Rightarrow> u64 \<Rightarrow> u64 \<Rightarrow> qdb__state" where
  "st_lease st name k lid e =
     (let st = qdb__queue_pending_remove st name k;
          st = msg_upd st k (\<lambda>m. m\<lparr>m_state := QDB_MSG_STATE_LEASED, m_lease_id := lid, m_lease_expiry_us := e\<rparr>);
          st = queue_upd st name (\<lambda>q. q\<lparr>q_leased_count := q_leased_count q + 1\<rparr>)
      in lease_link st \<lparr>l_lease_id = lid, l_msg_id = k, l_expiry_us = e\<rparr>)"

definition st_ack :: "qdb__state \<Rightarrow> bytes \<Rightarrow> u64 \<Rightarrow> u64 \<Rightarrow> qdb__state" where
  "st_ack st name k lid =
     (let st = qdb__lease_remove st lid;
          st = msg_upd st k (\<lambda>m. m\<lparr>m_state := QDB_MSG_STATE_ACKED, m_lease_id := 0, m_lease_expiry_us := 0\<rparr>)
      in queue_upd st name (\<lambda>q. q\<lparr>q_leased_count := q_leased_count q - 1, q_acked_count := q_acked_count q + 1\<rparr>))"

definition st_nack :: "qdb__state \<Rightarrow> bytes \<Rightarrow> u64 \<Rightarrow> u64 \<Rightarrow> qdb__state" where
  "st_nack st name k lid =
     (let st = qdb__lease_remove st lid;
          st = msg_upd st k (\<lambda>m. m\<lparr>m_state := QDB_MSG_STATE_PENDING, m_lease_id := 0, m_lease_expiry_us := 0,
                                    m_retry_count := m_retry_count m + 1\<rparr>);
          st = queue_upd st name (\<lambda>q. q\<lparr>q_leased_count := q_leased_count q - 1\<rparr>)
      in qdb__queue_pending_append st name k)"

section \<open>One message changes\<close>

lemma count_with:
  assumes inv: "ainv A" and m: "a_msgs A' = (a_msgs A)(k \<mapsto> am')" and old: "a_msgs A k = Some am"
    and q: "am_queue am = n" "am_queue am' = n"
  shows "(of_nat (card (a_with A' n P)) :: 'w::len word) =
    of_nat (card (a_with A n P)) + (if P (am_status am') then 1 else 0) - (if P (am_status am) then 1 else 0)"
proof -
  have fin: "finite (a_with A n P)" by (rule a_with_finite [OF inv])
  have mem: "k \<in> a_with A n P \<longleftrightarrow> P (am_status am)" using old q by (simp add: a_with_def)
  have "card (a_with A' n P) + (if P (am_status am) then 1 else 0)
      = card (a_with A n P) + (if P (am_status am') then 1 else 0)"
    using mem q fin card.remove [OF fin, of k] by (simp add: a_with_set [OF m] card_insert_if)
  from arg_cong [OF this, of "of_nat :: nat \<Rightarrow> 'w word"] show ?thesis
    by (auto simp: algebra_simps split: if_splits)
qed

lemma count_with_new:
  assumes inv: "ainv A" and m: "a_msgs A' = (a_msgs A)(k \<mapsto> am')" and old: "a_msgs A k = None"
    and q: "am_queue am' = n"
  shows "card (a_with A' n P) = card (a_with A n P) + (if P (am_status am') then 1 else 0)"
proof -
  have "k \<notin> a_with A n P" using old by (simp add: a_with_def)
  then show ?thesis using a_with_finite [OF inv, of n P] q by (simp add: a_with_set [OF m])
qed

lemma count_leases:
  assumes inv: "ainv A" and m: "a_msgs A' = (a_msgs A)(k \<mapsto> am')" and old: "a_msgs A k = Some am"
  shows "(of_nat (card (a_leases A')) :: 'w::len word) = of_nat (card (a_leases A)) +
    (if is_leased (am_status am') then 1 else 0) - (if is_leased (am_status am) then 1 else 0)"
proof -
  have fin: "finite (a_leases A)" by (rule a_leases_finite [OF inv])
  have mem: "k \<in> a_leases A \<longleftrightarrow> is_leased (am_status am)" using old by (simp add: a_leases_def)
  have "card (a_leases A') + (if is_leased (am_status am) then 1 else 0)
      = card (a_leases A) + (if is_leased (am_status am') then 1 else 0)"
    using mem fin card.remove [OF fin, of k] by (simp add: a_leases_set [OF m] card_insert_if)
  from arg_cong [OF this, of "of_nat :: nat \<Rightarrow> 'w word"] show ?thesis
    by (auto simp: algebra_simps split: if_splits)
qed

lemma msgs_rel_set:
  assumes R: "absR st A" and "msgs_ok st'" and k: "qdb__msg_get st' k = Some m'" "msg_tidy m'"
    and m: "a_msgs A' = (a_msgs A)(k \<mapsto> amsg_of m')"
    and others: "\<And>j. j \<noteq> k \<Longrightarrow> map_option strip (qdb__msg_get st' j) = map_option strip (qdb__msg_get st j)"
    and cnt: "msg_count st' = msg_count st + (if a_msgs A k = None then 1 else 0)"
  shows "msgs_rel st' A'"
proof -
  have "a_msgs A' j = map_option amsg_of (qdb__msg_get st' j)" for j
    using links_only_amsg(1) [OF others [of j]] absRD(8) [OF R, of j] k(1) by (simp add: m)
  moreover have "msg_tidy mj" if "qdb__msg_get st' j = Some mj" for j mj
    using links_only_amsg(2) [OF others [of j] that] absRD(9) [OF R, of j] k that by (cases "j = k") auto
  moreover have "card (dom (a_msgs A')) = card (dom (a_msgs A)) + (if a_msgs A k = None then 1 else 0)"
    using ainvD(1) [OF absRD(1) [OF R]] by (simp add: m card_insert_if domIff)
  ultimately show ?thesis
    using assms(2) cnt absRD(2) [OF R] by (simp add: msgs_rel_def)
qed

lemma queues_rel_set:
  assumes R: "absR st A" and "queues_ok st'"
    and m: "a_msgs A' = (a_msgs A)(k \<mapsto> am')" and q: "am_queue am' = n" "\<And>am. a_msgs A k = Some am \<Longrightarrow> am_queue am = n"
    and others: "\<And>n'. n' \<noteq> n \<Longrightarrow> qdb__queue_get st' n' = qdb__queue_get st n'"
      "\<And>n'. n' \<noteq> n \<Longrightarrow> a_pending A' n' = a_pending A n'"
      "\<And>j. j \<notin> set (a_pending A n) \<Longrightarrow> j \<noteq> k \<Longrightarrow> qdb__msg_get st' j = qdb__msg_get st j"
    and cur: "qdb__queue_get st' n = Some q'" "queue_rel st' A' n q'"
    and qs: "a_queues A' = insert n (a_queues A)"
      "queue_count st' = queue_count st + (if n \<in> a_queues A then 0 else 1)"
  shows "queues_rel st' A'"
proof -
  note inv = absRD(1) [OF R]
  have oth: "queue_rel st' A' n' q2" if "n' \<noteq> n" "qdb__queue_get st' n' = Some q2" for n' q2
  proof -
    have rel: "queue_rel st A n' q2" using absRD(11) [OF R] that others(1) by simp
    have "k \<notin> a_with A n' P" for P using q(2) that(1) by (auto simp: a_with_def)
    then have w: "a_with A' n' P = a_with A n' P" for P using q(1) that(1) by (simp add: a_with_set [OF m])
    have "qdb__msg_get st' j = qdb__msg_get st j" if "j \<in> set (a_pending A n')" for j
      using that others(3) [of j] pending_disjoint [OF inv \<open>n' \<noteq> n\<close>] \<open>\<And>P. k \<notin> a_with A n' P\<close> ainvD(7) [OF inv, of n']
      by blast
    then have "list_ok (qdb__msg_get st') q2 (a_pending A n') = list_ok (qdb__msg_get st) q2 (a_pending A n')"
      by (intro list_ok_cong) auto
    then show ?thesis using rel others(2) [OF that(1)] by (simp add: queue_rel_def w)
  qed
  have "queue_rel st' A' n' q2" if "qdb__queue_get st' n' = Some q2" for n' q2
    using oth that cur by (cases "n' = n") auto
  moreover have "card (a_queues A') = card (a_queues A) + (if n \<in> a_queues A then 0 else 1)"
    using ainvD(2) [OF inv] by (simp add: qs card_insert_if)
  moreover have "n' \<in> a_queues A' \<longleftrightarrow> qdb__queue_get st' n' \<noteq> None" for n'
    using absRD(10) [OF R] others(1) cur(1) by (cases "n' = n") (auto simp: qs(1))
  ultimately show ?thesis
    using assms(2) cur qs(2) absRD(3) [OF R] unfolding queues_rel_def by auto
qed

section \<open>Push\<close>

lemma new_msg_simps [simp]:
  "m_id (new_msg k off len n) = k" "m_queue_name (new_msg k off len n) = n"
  "amsg_of (new_msg k off len n) = \<lparr>am_queue = n, am_off = off, am_len = len, am_retry = 0, am_status = APending\<rparr>"
  "msg_tidy (new_msg k off len n)"
  by (simp_all add: new_msg_def amsg_of_def astatus_of_def msg_tidy_def)

lemma queue_ensure_get:
  "qdb__queue_get (queue_ensure st n) n' = (if n' = n \<and> qdb__queue_get st n = None then Some (new_queue n) else qdb__queue_get st n')"
  "qdb__msg_get (queue_ensure st n) = qdb__msg_get st" "qdb__lease_get (queue_ensure st n) = qdb__lease_get st"
  "queues_ok st \<Longrightarrow> queues_ok (queue_ensure st n)" "msgs_ok (queue_ensure st n) = msgs_ok st"
  "leases_ok (queue_ensure st n) = leases_ok st" "msg_count (queue_ensure st n) = msg_count st"
  "lease_count (queue_ensure st n) = lease_count st"
  "queue_count (queue_ensure st n) = queue_count st + (if qdb__queue_get st n = None then 1 else 0)"
  by (auto simp: queue_ensure_def st_simps new_queue_def split: option.split)

lemma pending_mem_msg:
  assumes R: "absR st A" and "k \<in> set (a_pending A n)"
  obtains m where "qdb__msg_get st k = Some m" "m_queue_name m = n" "m_state m = QDB_MSG_STATE_PENDING" "k \<noteq> 0"
proof -
  from pending_queue [OF absRD(1) [OF R] assms(2)] obtain am where
    am: "a_msgs A k = Some am" "am_queue am = n" "am_status am = APending" "k \<noteq> 0" by metis
  then obtain m where m: "qdb__msg_get st k = Some m" "am = amsg_of m" using absRD(8) [OF R, of k] by auto
  have "m_state m = QDB_MSG_STATE_PENDING"
    using am(3) m absRD(9) [OF R m(1)] astatus_of_iff(1) [of m] by (simp add: msg_tidy_def)
  then show thesis using that m am by auto
qed

lemma queue_ensure_list:
  assumes R: "absR st A" and k: "qdb__msg_get st k = None"
  obtains q where "qdb__queue_get (queue_ensure (msg_link st (new_msg k off len n)) n) n = Some q"
    "list_ok (qdb__msg_get (queue_ensure (msg_link st (new_msg k off len n)) n)) q (a_pending A n)"
    "q_leased_count q = of_nat (card (a_with A n is_leased))"
    "q_acked_count q = of_nat (card (a_with A n (\<lambda>s. s = AAcked)))"
proof -
  let ?st1 = "queue_ensure (msg_link st (new_msg k off len n)) n"
  have kn: "j \<noteq> k" if "j \<in> set (a_pending A n)" for j by (rule pending_mem_msg [OF R that]) (use k in auto)
  show thesis
  proof (cases "qdb__queue_get st n")
    case None
    then have "n \<notin> a_queues A" using absRD(10) [OF R] by simp
    then have w: "a_with A n P = {}" for P using ainvD(4) [OF absRD(1) [OF R]] by (auto simp: a_with_def)
    then have "a_pending A n = []" using ainvD(7) [OF absRD(1) [OF R], of n] by simp
    with None w show thesis
      by (intro that [of "new_queue n"]) (simp_all add: queue_ensure_get st_simps list_ok_def new_queue_def)
  next
    case (Some q)
    have rel: "queue_rel st A n q" by (rule absRD(11) [OF R Some])
    have "list_ok (qdb__msg_get ?st1) q (a_pending A n) = list_ok (qdb__msg_get st) q (a_pending A n)"
      using kn by (intro list_ok_cong) (auto simp: queue_ensure_get st_simps)
    with Some rel show thesis by (intro that [of q]) (simp_all add: queue_ensure_get st_simps queue_rel_def)
  qed
qed

lemma absR_push:
  assumes R: "absR st A" and k: "qdb__msg_get st k = None" "k \<noteq> 0" and n: "name_ok n"
  shows "absR (st_push st k off len n) (a_push k n off len A)"
proof -
  let ?m = "new_msg k off len n" and ?A = "a_push k n off len A" and ?st' = "st_push st k off len n"
  let ?st1 = "queue_ensure (msg_link st ?m) n"
  have ak: "a_msgs A k = None" using k(1) absRD(8) [OF R] by simp
  have m: "a_msgs ?A = (a_msgs A)(k \<mapsto> amsg_of ?m)" by (simp add: a_push_def)
  have get1: "qdb__msg_get ?st1 j = (if j = k then Some ?m else qdb__msg_get st j)" for j
    by (simp add: queue_ensure_get st_simps)
  obtain q where q: "qdb__queue_get ?st1 n = Some q" "list_ok (qdb__msg_get ?st1) q (a_pending A n)"
    "q_leased_count q = of_nat (card (a_with A n is_leased))"
    "q_acked_count q = of_nat (card (a_with A n (\<lambda>s. s = AAcked)))"
    by (rule queue_ensure_list [OF R k(1)])
  have "k \<notin> set (a_pending A n)" by (rule notI, erule pending_mem_msg [OF R]) (use k(1) in simp)
  then obtain q' where q': "qdb__queue_get ?st' n = Some q'" "list_ok (qdb__msg_get ?st') q' (a_pending A n @ [k])"
    "q_leased_count q' = q_leased_count q" "q_acked_count q' = q_acked_count q"
    "same_but_links ?st1 ?st' (set (a_pending A n @ [k])) n"
    using pending_append_list [OF q(1) _ q(2) _ k(2)] get1 [of k] unfolding st_push_def by metis
  have rl: "relink ?st1 ?st'" unfolding st_push_def by (rule pending_append_relink)
  have "map_option strip (qdb__msg_get ?st' k) = Some (strip ?m)"
    using q'(5) get1 [of k] by (simp add: same_but_links_def)
  then obtain mk where mk: "qdb__msg_get ?st' k = Some mk" "strip mk = strip ?m" by auto
  have "msgs_ok ?st'" "queues_ok ?st'" "leases_ok ?st'" using rl absRD(5-7) [OF R] k(1)
    by (auto simp: relink_def queue_ensure_get st_simps)
  moreover have "msgs_rel ?st' ?A"
    using rl q'(5) get1 mk strip_eq_amsg [OF mk(2)] absRD(5-7) [OF R] k(1) ak
    by (intro msgs_rel_set [OF R _ mk(1) _ _ _]) (auto simp: relink_def same_but_links_def m queue_ensure_get st_simps)
  moreover have "queue_rel ?st' ?A n q'"
    using q' q count_with_new [OF absRD(1) [OF R] m ak]
    by (simp add: queue_rel_def) (simp add: a_push_def)
  then have "queues_rel ?st' ?A"
    using rl q'(1,5) get1 absRD(5-7,10) [OF R] k(1) ak
    by (intro queues_rel_set [OF R _ m]) (auto simp: relink_def same_but_links_def queue_ensure_get st_simps a_push_def)
  moreover have "leases_rel ?st' ?A"
  proof -
    have "qdb__lease_get ?st' = qdb__lease_get st" "lease_count ?st' = lease_count st"
      using rl by (simp_all add: relink_def queue_ensure_get st_simps)
    moreover have "a_leases ?A = a_leases A" using ak by (simp add: a_leases_set [OF m]) (simp add: a_leases_def)
    ultimately show ?thesis using absRD(4) [OF R] \<open>leases_ok ?st'\<close> ak by (auto simp: leases_rel_def m)
  qed
  ultimately show ?thesis using ainv_push [OF absRD(1) [OF R] ak k(2) n] by (simp add: absR_def)
qed

section \<open>Lease\<close>

lemma absR_pending:
  assumes R: "absR st A" and m: "qdb__msg_get st k = Some m" "m_state m = QDB_MSG_STATE_PENDING"
  obtains q xs ys where "qdb__queue_get st (m_queue_name m) = Some q" "queue_rel st A (m_queue_name m) q"
    "a_pending A (m_queue_name m) = xs @ k # ys" "k \<notin> set (xs @ ys)" "astatus_of m = APending"
proof -
  let ?n = "m_queue_name m"
  have s: "astatus_of m = APending" using m(2) by (simp add: astatus_of_def)
  obtain q where q: "qdb__queue_get st ?n = Some q" using absR_msg(5) [OF R m(1)] by blast
  have "k \<in> set (a_pending A ?n)"
    using ainvD(7) [OF absRD(1) [OF R]] absR_msg(1) [OF R m(1)] s by (simp add: a_with_def)
  then obtain xs ys where x: "a_pending A ?n = xs @ k # ys" by (meson split_list)
  have "distinct (xs @ k # ys)" using ainvD(6) [OF absRD(1) [OF R]] x by metis
  then show thesis using that [OF q absRD(11) [OF R q] x _ s] by simp
qed

lemma lease_absent:
  assumes R: "absR st A" and "qdb__lease_get st lid = None" and "a_msgs A k = Some am"
  shows "am_status am \<noteq> ALeased lid e"
proof
  assume "am_status am = ALeased lid e"
  then have "qdb__lease_get st lid = Some \<lparr>l_lease_id = lid, l_msg_id = k, l_expiry_us = e\<rparr>"
    using absRD(4) [OF R] assms(3) unfolding leases_rel_def by auto
  then show False using assms(2) by simp
qed

lemma leases_rel_link:
  assumes R: "absR st A" and new: "qdb__lease_get st lid = None" and m: "a_msgs A k = Some am" "am_status am = APending"
    and A': "a_msgs A' = (a_msgs A)(k \<mapsto> am\<lparr>am_status := ALeased lid e\<rparr>)"
    and st': "qdb__lease_get st' = (qdb__lease_get st)(lid \<mapsto> \<lparr>l_lease_id = lid, l_msg_id = k, l_expiry_us = e\<rparr>)"
      "leases_ok st'" "lease_count st' = lease_count st + 1"
  shows "leases_rel st' A'"
proof -
  have rel: "qdb__lease_get st l' = Some l \<longleftrightarrow> l_lease_id l = l' \<and>
      (\<exists>am. a_msgs A (l_msg_id l) = Some am \<and> am_status am = ALeased l' (l_expiry_us l))" for l' l
    using absRD(4) [OF R] by (simp add: leases_rel_def)
  have "qdb__lease_get st' l' = Some l \<longleftrightarrow> l_lease_id l = l' \<and>
      (\<exists>am. a_msgs A' (l_msg_id l) = Some am \<and> am_status am = ALeased l' (l_expiry_us l))" for l' l
  proof (cases "l_msg_id l = k")
    case True
    have "qdb__lease_get st l' \<noteq> Some l" using True rel [of l' l] m by auto
    then show ?thesis using True by (cases l) (auto simp: st'(1) A')
  next
    case False
    then show ?thesis using rel [of l' l] lease_absent [OF R new] by (auto simp: st'(1) A')
  qed
  moreover have "lease_count st' = of_nat (card (a_leases A'))"
    using st'(3) absRD(4) [OF R] m(2) by (simp add: leases_rel_def count_leases [OF absRD(1) [OF R] A' m(1)])
  ultimately show ?thesis using st'(2) by (simp add: leases_rel_def)
qed

lemma absR_lease:
  assumes R: "absR st A" and m: "qdb__msg_get st k = Some m" "m_state m = QDB_MSG_STATE_PENDING"
    and lid: "lid \<noteq> 0" "qdb__lease_get st lid = None" and n: "n = m_queue_name m"
  shows "absR (st_lease st n k lid e) (a_lease k lid e A)"
proof -
  let ?A = "a_lease k lid e A" and ?st' = "st_lease st n k lid e" and ?st1 = "qdb__queue_pending_remove st n k"
  let ?m' = "m\<lparr>m_next_pending := 0, m_prev_pending := 0, m_state := QDB_MSG_STATE_LEASED, m_lease_id := lid, m_lease_expiry_us := e\<rparr>"
  obtain q xs ys where q: "qdb__queue_get st n = Some q" "queue_rel st A n q" "a_pending A n = xs @ k # ys"
    "k \<notin> set (xs @ ys)" "astatus_of m = APending" using absR_pending [OF R m] unfolding n by blast
  have lst: "list_ok (qdb__msg_get st) q (xs @ k # ys)" using q(2,3) by (simp add: queue_rel_def)
  obtain q1 where q1: "qdb__queue_get ?st1 n = Some q1" "list_ok (qdb__msg_get ?st1) q1 (xs @ ys)"
    "q_leased_count q1 = q_leased_count q" "q_acked_count q1 = q_acked_count q"
    "same_but_links st ?st1 (set (xs @ k # ys)) n" "qdb__msg_get ?st1 k = Some (m\<lparr>m_next_pending := 0, m_prev_pending := 0\<rparr>)"
    by (rule pending_remove_list [OF q(1) m(1) lst])
  have rl: "relink st ?st1" by (rule pending_remove_relink)
  have am: "a_msgs A k = Some (amsg_of m)" by (rule absR_msg(1) [OF R m(1)])
  have get: "qdb__msg_get ?st' j = (if j = k then Some ?m' else qdb__msg_get ?st1 j)"
    "qdb__queue_get ?st' n' = (if n' = n then Some (q1\<lparr>q_leased_count := q_leased_count q1 + 1\<rparr>) else qdb__queue_get st n')" for j n'
    using q1(1,5,6) by (simp_all add: st_lease_def Let_def st_simps same_but_links_def)
  have A': "a_msgs ?A = (a_msgs A)(k \<mapsto> (amsg_of m)\<lparr>am_status := ALeased lid e\<rparr>)" "a_queues ?A = a_queues A"
    "a_pending ?A = (a_pending A)(n := xs @ ys)"
    using q(3,4) by (simp_all add: a_lease_def am n remove1_append)
  have m': "amsg_of ?m' = (amsg_of m)\<lparr>am_status := ALeased lid e\<rparr>" "msg_tidy ?m'"
    by (simp_all add: amsg_of_def astatus_of_def msg_tidy_def)
  have ok: "msgs_ok ?st'" "queues_ok ?st'" "leases_ok ?st'" and cnt: "msg_count ?st' = msg_count st"
    "queue_count ?st' = queue_count st" "lease_count ?st' = lease_count st + 1"
    using rl absRD(5-7) [OF R] lid(2) by (auto simp: st_lease_def Let_def st_simps relink_def)
  have "msgs_rel ?st' ?A"
    using ok(1) m' q1(5) am cnt by (intro msgs_rel_set [OF R _ _ m'(2)]) (auto simp: get A' same_but_links_def)
  moreover have "queue_rel ?st' ?A n (q1\<lparr>q_leased_count := q_leased_count q1 + 1\<rparr>)"
  proof -
    have "list_ok (qdb__msg_get ?st') (q1\<lparr>q_leased_count := q_leased_count q1 + 1\<rparr>) (xs @ ys)"
      using q1(2) q(4) by (subst list_ok_cong [of _ _ "qdb__msg_get ?st1" _ q1]) (auto simp: get)
    then show ?thesis
      using q(2,5) q1(3,4) n
      by (simp add: queue_rel_def A'(3) count_with [OF absRD(1) [OF R] A'(1) am])
  qed
  then have "queues_rel ?st' ?A"
    using ok(2) cnt q1(5) q(1,3) am absR_msg(4) [OF R m(1)] unfolding n [symmetric]
    by (intro queues_rel_set [OF R _ A'(1)]) (auto simp: get A' same_but_links_def n [symmetric])
  moreover have "leases_rel ?st' ?A"
    using am q(5) rl ok(3) cnt(3) lid(2)
    by (intro leases_rel_link [OF R lid(2) am _ A'(1)]) (auto simp: st_lease_def Let_def st_simps relink_def fun_eq_iff)
  moreover have "ainv ?A"
    using q(5) lid(1) lease_absent [OF R lid(2)] by (intro ainv_lease [OF absRD(1) [OF R] am]) auto
  ultimately show ?thesis by (simp add: absR_def)
qed

section \<open>Acknowledge and return\<close>

lemma absR_leased:
  assumes R: "absR st A" and m: "qdb__msg_get st k = Some m" "m_state m = QDB_MSG_STATE_LEASED"
  obtains q where "qdb__queue_get st (m_queue_name m) = Some q" "queue_rel st A (m_queue_name m) q"
    "k \<notin> set (a_pending A n)" "astatus_of m = ALeased (m_lease_id m) (m_lease_expiry_us m)"
    "qdb__lease_get st (m_lease_id m) \<noteq> None"
proof -
  have s: "astatus_of m = ALeased (m_lease_id m) (m_lease_expiry_us m)" using m(2) by (simp add: astatus_of_def)
  note am = absR_msg(1) [OF R m(1)]
  obtain q where q: "qdb__queue_get st (m_queue_name m) = Some q" using absR_msg(5) [OF R m(1)] by blast
  have "k \<notin> set (a_pending A n)"
    using ainvD(7) [OF absRD(1) [OF R]] leased_not_pending [OF am] s by simp
  moreover have "qdb__lease_get st (m_lease_id m) = Some \<lparr>l_lease_id = m_lease_id m, l_msg_id = k, l_expiry_us = m_lease_expiry_us m\<rparr>"
    using absRD(4) [OF R] am s unfolding leases_rel_def by auto
  ultimately show thesis using that [OF q absRD(11) [OF R q] _ s] by simp
qed

lemma leases_rel_unlink:
  assumes R: "absR st A" and m: "a_msgs A k = Some am" "am_status am = ALeased lid e"
    and A': "a_msgs A' = (a_msgs A)(k \<mapsto> am')" "\<not> is_leased (am_status am')"
    and st': "qdb__lease_get st' = (qdb__lease_get st)(lid := None)" "leases_ok st'" "lease_count st' = lease_count st - 1"
  shows "leases_rel st' A'"
proof -
  have rel: "qdb__lease_get st l' = Some l \<longleftrightarrow> l_lease_id l = l' \<and>
      (\<exists>am. a_msgs A (l_msg_id l) = Some am \<and> am_status am = ALeased l' (l_expiry_us l))" for l' l
    using absRD(4) [OF R] by (simp add: leases_rel_def)
  have "qdb__lease_get st' l' = Some l \<longleftrightarrow> l_lease_id l = l' \<and>
      (\<exists>am. a_msgs A' (l_msg_id l) = Some am \<and> am_status am = ALeased l' (l_expiry_us l))" for l' l
  proof (cases "l_msg_id l = k")
    case True
    have "qdb__lease_get st l' = Some l \<Longrightarrow> l' = lid" using True rel [of l' l] m by auto
    moreover have "am_status am' \<noteq> ALeased l' x" for x using A'(2) by auto
    ultimately show ?thesis using True by (auto simp: st'(1) A'(1))
  next
    case False
    have "l' \<noteq> lid" if "a_msgs A (l_msg_id l) = Some a" "am_status a = ALeased l' x" for a x
      using leases_injD(2) [OF absRD(1) [OF R] m that(1)] that(2) False by auto
    then show ?thesis using False rel [of l' l] by (auto simp: st'(1) A'(1))
  qed
  moreover have "lease_count st' = of_nat (card (a_leases A'))"
    using st'(3) absRD(4) [OF R] m(2) A'(2)
    by (simp add: leases_rel_def count_leases [OF absRD(1) [OF R] A'(1) m(1)])
  ultimately show ?thesis using st'(2) by (simp add: leases_rel_def)
qed

lemma absR_ack:
  assumes R: "absR st A" and m: "qdb__msg_get st k = Some m" "m_state m = QDB_MSG_STATE_LEASED"
    and lid: "m_lease_id m = lid" and n: "m_queue_name m = n"
  shows "absR (st_ack st n k lid) (a_ack k A)"
proof -
  let ?A = "a_ack k A" and ?st' = "st_ack st n k lid"
  let ?m' = "m\<lparr>m_state := QDB_MSG_STATE_ACKED, m_lease_id := 0, m_lease_expiry_us := 0\<rparr>"
  obtain q where q: "qdb__queue_get st n = Some q" "queue_rel st A n q" "k \<notin> set (a_pending A n)"
    "astatus_of m = ALeased lid (m_lease_expiry_us m)" "qdb__lease_get st lid \<noteq> None"
    using absR_leased [OF R m, of n] unfolding n lid by blast
  let ?q' = "q\<lparr>q_leased_count := q_leased_count q - 1, q_acked_count := q_acked_count q + 1\<rparr>"
  note am = absR_msg(1) [OF R m(1)]
  have get: "qdb__msg_get ?st' j = (if j = k then Some ?m' else qdb__msg_get st j)"
    "qdb__queue_get ?st' n' = (if n' = n then Some ?q' else qdb__queue_get st n')" for j n'
    using m(1) q(1) by (simp_all add: st_ack_def Let_def st_simps)
  have A': "a_msgs ?A = (a_msgs A)(k \<mapsto> (amsg_of m)\<lparr>am_status := AAcked\<rparr>)" "a_queues ?A = a_queues A"
    "a_pending ?A = a_pending A" by (simp_all add: a_ack_def am)
  have m': "amsg_of ?m' = (amsg_of m)\<lparr>am_status := AAcked\<rparr>" "msg_tidy ?m'"
    by (simp_all add: amsg_of_def astatus_of_def msg_tidy_def)
  have ok: "msgs_ok ?st'" "queues_ok ?st'" "leases_ok ?st'" and cnt: "msg_count ?st' = msg_count st"
    "queue_count ?st' = queue_count st" "lease_count ?st' = lease_count st - 1"
    using absRD(5-7) [OF R] q(5) by (simp_all add: st_ack_def Let_def st_simps)
  have "msgs_rel ?st' ?A"
    using ok(1) m' am cnt by (intro msgs_rel_set [OF R _ _ m'(2)]) (auto simp: get A')
  moreover have "queue_rel ?st' ?A n ?q'"
  proof -
    have "list_ok (qdb__msg_get ?st') ?q' (a_pending A n) = list_ok (qdb__msg_get st) q (a_pending A n)"
      using q(3) by (intro list_ok_cong) (auto simp: get)
    then show ?thesis using q(2,4) n by (simp add: queue_rel_def A'(3) count_with [OF absRD(1) [OF R] A'(1) am])
  qed
  then have "queues_rel ?st' ?A"
    using ok(2) cnt am n absR_msg(4) [OF R m(1)] by (intro queues_rel_set [OF R _ A'(1)]) (auto simp: get A')
  moreover have "leases_rel ?st' ?A"
    using am q(4) ok(3) cnt(3) absRD(7) [OF R]
    by (intro leases_rel_unlink [OF R am _ A'(1)]) (auto simp: st_ack_def Let_def st_simps fun_eq_iff)
  moreover have "ainv ?A" using q(4) by (intro ainv_ack [OF absRD(1) [OF R] am]) simp
  ultimately show ?thesis by (simp add: absR_def)
qed

lemma absR_nack:
  assumes R: "absR st A" and m: "qdb__msg_get st k = Some m" "m_state m = QDB_MSG_STATE_LEASED"
    and lid: "m_lease_id m = lid" and n: "m_queue_name m = n"
  shows "absR (st_nack st n k lid) (a_return k A)"
proof -
  let ?A = "a_return k A" and ?st' = "st_nack st n k lid" and ?ids = "a_pending A n"
  let ?m' = "m\<lparr>m_state := QDB_MSG_STATE_PENDING, m_lease_id := 0, m_lease_expiry_us := 0, m_retry_count := m_retry_count m + 1\<rparr>"
  let ?st1 = "queue_upd (msg_upd (qdb__lease_remove st lid) k (\<lambda>m. m\<lparr>m_state := QDB_MSG_STATE_PENDING, m_lease_id := 0,
      m_lease_expiry_us := 0, m_retry_count := m_retry_count m + 1\<rparr>)) n (\<lambda>q. q\<lparr>q_leased_count := q_leased_count q - 1\<rparr>)"
  obtain q where q: "qdb__queue_get st n = Some q" "queue_rel st A n q" "k \<notin> set ?ids"
    "astatus_of m = ALeased lid (m_lease_expiry_us m)" "qdb__lease_get st lid \<noteq> None"
    using absR_leased [OF R m, of n] unfolding n lid by blast
  let ?q1 = "q\<lparr>q_leased_count := q_leased_count q - 1\<rparr>"
  note am = absR_msg(1) [OF R m(1)] and k0 = absR_msg(3) [OF R m(1)]
  have get1: "qdb__msg_get ?st1 j = (if j = k then Some ?m' else qdb__msg_get st j)"
    "qdb__queue_get ?st1 n' = (if n' = n then Some ?q1 else qdb__queue_get st n')" for j n'
    using m(1) q(1) by (simp_all add: st_simps)
  have st': "?st' = qdb__queue_pending_append ?st1 n k" by (simp add: st_nack_def Let_def)
  have "list_ok (qdb__msg_get ?st1) ?q1 ?ids = list_ok (qdb__msg_get st) q ?ids"
    using q(3) by (intro list_ok_cong) (auto simp: get1)
  then have l1: "list_ok (qdb__msg_get ?st1) ?q1 ?ids" using q(2) by (simp add: queue_rel_def)
  have q1: "qdb__queue_get ?st1 n = Some ?q1" "qdb__msg_get ?st1 k = Some ?m'" by (simp_all add: get1)
  obtain q' where q': "qdb__queue_get ?st' n = Some q'" "list_ok (qdb__msg_get ?st') q' (?ids @ [k])"
    "q_leased_count q' = q_leased_count ?q1" "q_acked_count q' = q_acked_count ?q1"
    "same_but_links ?st1 ?st' (set (?ids @ [k])) n"
    by (rule pending_append_list [OF q1 l1 q(3) k0, folded st'])
  have A': "a_msgs ?A = (a_msgs A)(k \<mapsto> (amsg_of m)\<lparr>am_status := APending, am_retry := m_retry_count m + 1\<rparr>)"
    "a_queues ?A = a_queues A" "a_pending ?A = (a_pending A)(n := ?ids @ [k])" by (simp_all add: a_return_def am n)
  have m': "amsg_of ?m' = (amsg_of m)\<lparr>am_status := APending, am_retry := m_retry_count m + 1\<rparr>" "msg_tidy ?m'"
    by (simp_all add: amsg_of_def astatus_of_def msg_tidy_def)
  have rl: "relink ?st1 ?st'" unfolding st' by (rule pending_append_relink)
  have "map_option strip (qdb__msg_get ?st' k) = Some (strip ?m')"
    using q'(5) get1(1) [of k] by (simp add: same_but_links_def)
  then obtain mk where mk: "qdb__msg_get ?st' k = Some mk" "strip mk = strip ?m'" by auto
  note eq = strip_eq_amsg [OF mk(2)]
  have ok: "msgs_ok ?st'" "queues_ok ?st'" "leases_ok ?st'" and cnt: "msg_count ?st' = msg_count st"
    "queue_count ?st' = queue_count st" "lease_count ?st' = lease_count st - 1"
    and lg: "qdb__lease_get ?st' = (qdb__lease_get st)(lid := None)"
    using rl absRD(5-7) [OF R] q(5) by (auto simp: relink_def st_simps fun_eq_iff)
  have "msgs_rel ?st' ?A"
    using ok(1) eq m' am cnt q'(5) get1 by (intro msgs_rel_set [OF R _ mk(1)]) (auto simp: A' same_but_links_def)
  moreover have "queue_rel ?st' ?A n q'"
    using q' q(2,4) n by (simp add: queue_rel_def A'(3) count_with [OF absRD(1) [OF R] A'(1) am])
  then have "queues_rel ?st' ?A"
    using ok(2) cnt am n absR_msg(4) [OF R m(1)] q'(1,5) get1
    by (intro queues_rel_set [OF R _ A'(1)]) (auto simp: A' same_but_links_def)
  moreover have "leases_rel ?st' ?A"
    using am q(4) ok(3) cnt(3) lg by (intro leases_rel_unlink [OF R am _ A'(1)]) auto
  moreover have "ainv ?A" using q(4) by (intro ainv_return [OF absRD(1) [OF R] am]) simp
  ultimately show ?thesis by (simp add: absR_def)
qed

end
