(* ===== verification/Replay.thy ===== *)
theory Replay
  imports RecordIO Refine
begin

text \<open>
  \<^verbatim>\<open>src/qdb_replay.c\<close>: rebuilding the in-memory state from the log.  The handlers and the loop
  are the C functions over files and allocations; \<open>rec_apply\<close> and \<open>rec_fold\<close> are what they compute,
  on the records alone.  Shown: the loop ends; replaying a log of records gives \<open>rec_fold\<close> of them, or
  reports an I/O or allocation failure; and whatever bytes the log holds, a replay that succeeds
  yields a state that satisfies the refinement relation.
\<close>

type_synonym db = "qdb__state qdb"

section \<open>Payload sizes and offsets\<close>

abbreviation (input) QDB_PAYLOAD_LEASE_SIZE :: nat where "QDB_PAYLOAD_LEASE_SIZE \<equiv> 24"
abbreviation (input) QDB_PAYLOAD_ACK_SIZE :: nat where "QDB_PAYLOAD_ACK_SIZE \<equiv> 16"
abbreviation (input) QDB_PAYLOAD_NACK_SIZE :: nat where "QDB_PAYLOAD_NACK_SIZE \<equiv> 16"
abbreviation (input) QDB_PAYLOAD_EXPIRE_SIZE :: nat where "QDB_PAYLOAD_EXPIRE_SIZE \<equiv> 16"
abbreviation (input) QDB_PAYLOAD_CHECKPOINT_SIZE :: nat where "QDB_PAYLOAD_CHECKPOINT_SIZE \<equiv> 24"
abbreviation (input) QDB_PUSH_OFF_MSG_ID :: nat where "QDB_PUSH_OFF_MSG_ID \<equiv> 0"
abbreviation (input) QDB_PUSH_OFF_QNAME_LEN :: nat where "QDB_PUSH_OFF_QNAME_LEN \<equiv> 8"
abbreviation (input) QDB_PUSH_HDR_SIZE :: nat where "QDB_PUSH_HDR_SIZE \<equiv> 9"
abbreviation (input) QDB_PUSH_MIN_PLEN :: u32 where "QDB_PUSH_MIN_PLEN \<equiv> 10"
abbreviation (input) QDB_LEASE_OFF_MSG_ID :: nat where "QDB_LEASE_OFF_MSG_ID \<equiv> 0"
abbreviation (input) QDB_LEASE_OFF_EXPIRY :: nat where "QDB_LEASE_OFF_EXPIRY \<equiv> 8"
abbreviation (input) QDB_LEASE_OFF_LEASE_ID :: nat where "QDB_LEASE_OFF_LEASE_ID \<equiv> 16"
abbreviation (input) QDB_ACK_OFF_MSG_ID :: nat where "QDB_ACK_OFF_MSG_ID \<equiv> 0"
abbreviation (input) QDB_ACK_OFF_LEASE_ID :: nat where "QDB_ACK_OFF_LEASE_ID \<equiv> 8"
abbreviation (input) QDB_CKPT_OFF_NEXT_MSG_ID :: nat where "QDB_CKPT_OFF_NEXT_MSG_ID \<equiv> 8"
abbreviation (input) QDB_CKPT_OFF_NEXT_LEASE_ID :: nat where "QDB_CKPT_OFF_NEXT_LEASE_ID \<equiv> 16"

section \<open>Record handlers\<close>

definition replay_push :: "world \<Rightarrow> db \<Rightarrow> qdb__state \<Rightarrow> u64 \<Rightarrow> u32 \<Rightarrow> int \<times> db \<times> qdb__state \<times> world" where
  "replay_push w db st payload_off plen =
     (if plen < QDB_PUSH_MIN_PLEN then (QDB_ERR_CORRUPT, db, st, w)
      else let (rc, prefix, w1) = qdb__read_full w (db_fd db) QDB_PUSH_HDR_SIZE payload_off
      in if rc \<noteq> QDB_OK then (QDB_ERR_IO, db, st, w1)
      else let msg_id = qdb__get_u64le (drop QDB_PUSH_OFF_MSG_ID prefix);
               name_len = prefix ! QDB_PUSH_OFF_QNAME_LEN
      in if name_len = 0 then (QDB_ERR_CORRUPT, db, st, w1)
      else if plen < of_nat QDB_PUSH_HDR_SIZE + ucast name_len then (QDB_ERR_CORRUPT, db, st, w1)
      else if msg_id = 0 then (QDB_ERR_CORRUPT, db, st, w1)
      else let (rc, queue_name, w2) =
                 qdb__read_full w1 (db_fd db) (unat name_len) (payload_off + of_nat QDB_PUSH_HDR_SIZE)
      in if rc \<noteq> QDB_OK then (QDB_ERR_IO, db, st, w2)
      else if qdb__msg_get st msg_id \<noteq> None then (QDB_ERR_CORRUPT, db, st, w2)
      else let data_len = plen - of_nat QDB_PUSH_HDR_SIZE - ucast name_len;
               data_off = payload_off + of_nat QDB_PUSH_HDR_SIZE + ucast name_len;
               (ok, w3) = heap_alloc w2
      in if \<not> ok then (QDB_ERR_NOMEM, db, st, w3)
      else let (rc, st1) = qdb__msg_insert st (new_msg msg_id data_off data_len queue_name)
      in if rc \<noteq> QDB_OK then (QDB_ERR_NOMEM, db, st1, w3)
      else let (q, st2, w4) = qdb__queue_get_or_create w3 st1 queue_name
      in if \<not> q then (QDB_ERR_NOMEM, db, st2, w4)
      else let st3 = qdb__queue_pending_append st2 queue_name msg_id;
               db1 = (if msg_id \<ge> db_next_msg_id db then db\<lparr>db_next_msg_id := msg_id + 1\<rparr> else db)
      in (QDB_OK, db1, st3, w4))"

definition replay_lease :: "world \<Rightarrow> db \<Rightarrow> qdb__state \<Rightarrow> u64 \<Rightarrow> u32 \<Rightarrow> int \<times> db \<times> qdb__state \<times> world" where
  "replay_lease w db st payload_off plen =
     (if plen \<noteq> of_nat QDB_PAYLOAD_LEASE_SIZE then (QDB_ERR_CORRUPT, db, st, w)
      else let (rc, buf, w1) = qdb__read_full w (db_fd db) QDB_PAYLOAD_LEASE_SIZE payload_off
      in if rc \<noteq> QDB_OK then (QDB_ERR_IO, db, st, w1)
      else let msg_id = qdb__get_u64le (drop QDB_LEASE_OFF_MSG_ID buf);
               expiry_us = qdb__get_u64le (drop QDB_LEASE_OFF_EXPIRY buf);
               lease_id = qdb__get_u64le (drop QDB_LEASE_OFF_LEASE_ID buf)
      in if lease_id = 0 then (QDB_ERR_CORRUPT, db, st, w1)
      else (case qdb__msg_get st msg_id of
          None \<Rightarrow> (QDB_ERR_CORRUPT, db, st, w1)
        | Some m \<Rightarrow>
            if m_state m \<noteq> QDB_MSG_STATE_PENDING then (QDB_ERR_CORRUPT, db, st, w1)
            else if qdb__lease_get st lease_id \<noteq> None then (QDB_ERR_CORRUPT, db, st, w1)
            else if qdb__queue_get st (m_queue_name m) = None then (QDB_ERR_CORRUPT, db, st, w1)
            else let st1 = qdb__queue_pending_remove st (m_queue_name m) msg_id;
                     st2 = msg_upd st1 msg_id (\<lambda>m. m\<lparr>m_state := QDB_MSG_STATE_LEASED,
                             m_lease_id := lease_id, m_lease_expiry_us := expiry_us\<rparr>);
                     st3 = queue_upd st2 (m_queue_name m) (\<lambda>q. q\<lparr>q_leased_count := q_leased_count q + 1\<rparr>);
                     (ok, w2) = heap_alloc w1
            in if \<not> ok then (QDB_ERR_NOMEM, db, st3, w2)
            else let (_, st4) = qdb__lease_insert st3
                       \<lparr>l_lease_id = lease_id, l_msg_id = msg_id, l_expiry_us = expiry_us\<rparr>;
                     db1 = (if lease_id \<ge> db_next_lease_id db then db\<lparr>db_next_lease_id := lease_id + 1\<rparr> else db)
            in (QDB_OK, db1, st4, w2)))"

definition replay_ack :: "world \<Rightarrow> db \<Rightarrow> qdb__state \<Rightarrow> u64 \<Rightarrow> u32 \<Rightarrow> int \<times> db \<times> qdb__state \<times> world" where
  "replay_ack w db st payload_off plen =
     (if plen \<noteq> of_nat QDB_PAYLOAD_ACK_SIZE then (QDB_ERR_CORRUPT, db, st, w)
      else let (rc, buf, w1) = qdb__read_full w (db_fd db) QDB_PAYLOAD_ACK_SIZE payload_off
      in if rc \<noteq> QDB_OK then (QDB_ERR_IO, db, st, w1)
      else let msg_id = qdb__get_u64le (drop QDB_ACK_OFF_MSG_ID buf);
               lease_id = qdb__get_u64le (drop QDB_ACK_OFF_LEASE_ID buf)
      in (case qdb__msg_get st msg_id of
          None \<Rightarrow> (QDB_ERR_CORRUPT, db, st, w1)
        | Some m \<Rightarrow>
            if m_state m \<noteq> QDB_MSG_STATE_LEASED then (QDB_ERR_CORRUPT, db, st, w1)
            else if m_lease_id m \<noteq> lease_id then (QDB_ERR_CORRUPT, db, st, w1)
            else if qdb__queue_get st (m_queue_name m) = None then (QDB_ERR_CORRUPT, db, st, w1)
            else let st1 = qdb__lease_remove st lease_id;
                     st2 = msg_upd st1 msg_id (\<lambda>m. m\<lparr>m_state := QDB_MSG_STATE_ACKED,
                             m_lease_id := 0, m_lease_expiry_us := 0\<rparr>);
                     st3 = queue_upd st2 (m_queue_name m) (\<lambda>q. q\<lparr>q_leased_count := q_leased_count q - 1,
                             q_acked_count := q_acked_count q + 1\<rparr>)
            in (QDB_OK, db, st3, w1)))"

definition replay_nack :: "world \<Rightarrow> db \<Rightarrow> qdb__state \<Rightarrow> u64 \<Rightarrow> u32 \<Rightarrow> int \<times> db \<times> qdb__state \<times> world" where
  "replay_nack w db st payload_off plen =
     (if plen \<noteq> of_nat QDB_PAYLOAD_NACK_SIZE then (QDB_ERR_CORRUPT, db, st, w)
      else let (rc, buf, w1) = qdb__read_full w (db_fd db) QDB_PAYLOAD_NACK_SIZE payload_off
      in if rc \<noteq> QDB_OK then (QDB_ERR_IO, db, st, w1)
      else let msg_id = qdb__get_u64le (drop QDB_ACK_OFF_MSG_ID buf);
               lease_id = qdb__get_u64le (drop QDB_ACK_OFF_LEASE_ID buf)
      in (case qdb__msg_get st msg_id of
          None \<Rightarrow> (QDB_ERR_CORRUPT, db, st, w1)
        | Some m \<Rightarrow>
            if m_state m \<noteq> QDB_MSG_STATE_LEASED then (QDB_ERR_CORRUPT, db, st, w1)
            else if m_lease_id m \<noteq> lease_id then (QDB_ERR_CORRUPT, db, st, w1)
            else if qdb__queue_get st (m_queue_name m) = None then (QDB_ERR_CORRUPT, db, st, w1)
            else let st1 = qdb__lease_remove st lease_id;
                     st2 = msg_upd st1 msg_id (\<lambda>m. m\<lparr>m_state := QDB_MSG_STATE_PENDING,
                             m_lease_id := 0, m_lease_expiry_us := 0, m_retry_count := m_retry_count m + 1\<rparr>);
                     st3 = queue_upd st2 (m_queue_name m) (\<lambda>q. q\<lparr>q_leased_count := q_leased_count q - 1\<rparr>);
                     st4 = qdb__queue_pending_append st3 (m_queue_name m) msg_id
            in (QDB_OK, db, st4, w1)))"

definition replay_expire :: "world \<Rightarrow> db \<Rightarrow> qdb__state \<Rightarrow> u64 \<Rightarrow> u32 \<Rightarrow> int \<times> db \<times> qdb__state \<times> world" where
  "replay_expire w db st payload_off plen = replay_nack w db st payload_off plen"

definition replay_checkpoint :: "world \<Rightarrow> db \<Rightarrow> qdb__state \<Rightarrow> u64 \<Rightarrow> u32 \<Rightarrow> int \<times> db \<times> qdb__state \<times> world" where
  "replay_checkpoint w db st payload_off plen =
     (if plen \<noteq> of_nat QDB_PAYLOAD_CHECKPOINT_SIZE then (QDB_ERR_CORRUPT, db, st, w)
      else let (rc, buf, w1) = qdb__read_full w (db_fd db) QDB_PAYLOAD_CHECKPOINT_SIZE payload_off
      in if rc \<noteq> QDB_OK then (QDB_ERR_IO, db, st, w1)
      else let next_msg_id = qdb__get_u64le (drop QDB_CKPT_OFF_NEXT_MSG_ID buf);
               next_lease_id = qdb__get_u64le (drop QDB_CKPT_OFF_NEXT_LEASE_ID buf);
               db1 = (if next_msg_id > db_next_msg_id db then db\<lparr>db_next_msg_id := next_msg_id\<rparr> else db);
               db2 = (if next_lease_id > db_next_lease_id db1 then db1\<lparr>db_next_lease_id := next_lease_id\<rparr> else db1)
      in (QDB_OK, db2, st, w1))"

text \<open>The \<open>switch\<close> on the record type.\<close>

definition replay_record :: "world \<Rightarrow> db \<Rightarrow> qdb__state \<Rightarrow> u8 \<Rightarrow> u64 \<Rightarrow> u32 \<Rightarrow> int \<times> db \<times> qdb__state \<times> world" where
  "replay_record w db st type payload_off plen =
     (if type = QDB_RT_MSG_PUSH then replay_push w db st payload_off plen
      else if type = QDB_RT_MSG_LEASE then replay_lease w db st payload_off plen
      else if type = QDB_RT_MSG_ACK then replay_ack w db st payload_off plen
      else if type = QDB_RT_MSG_NACK then replay_nack w db st payload_off plen
      else if type = QDB_RT_MSG_EXPIRE then replay_expire w db st payload_off plen
      else if type = QDB_RT_CHECKPOINT then replay_checkpoint w db st payload_off plen
      else if type = QDB_RT_PADDING then (QDB_OK, db, st, w)
      else (QDB_ERR_CORRUPT, db, st, w))"

text \<open>Only the two counters of the handle change while records are replayed.\<close>

definition only_counters :: "'st qdb \<Rightarrow> 'st qdb \<Rightarrow> bool" where
  "only_counters db db' \<longleftrightarrow> (\<exists>nm nl. db' = db\<lparr>db_next_msg_id := nm, db_next_lease_id := nl\<rparr>)"

lemma only_counters_intros [simp]:
  "only_counters db db" "only_counters db (db\<lparr>db_next_msg_id := a\<rparr>)" "only_counters db (db\<lparr>db_next_lease_id := b\<rparr>)"
  "only_counters db (db\<lparr>db_next_msg_id := a, db_next_lease_id := b\<rparr>)"
  unfolding only_counters_def
  by (cases db, auto)+

lemma only_counters_trans: "only_counters a b \<Longrightarrow> only_counters b c \<Longrightarrow> only_counters a c"
  by (clarsimp simp: only_counters_def) blast

lemma only_counters_state:
  assumes "only_counters a b"
  shows "only_counters (a\<lparr>db_state := x\<rparr>) (b\<lparr>db_state := x\<rparr>)"
proof -
  obtain nm nl where b: "b = a\<lparr>db_next_msg_id := nm, db_next_lease_id := nl\<rparr>"
    using assms by (auto simp: only_counters_def)
  show ?thesis unfolding only_counters_def by (intro exI [of _ nm] exI [of _ nl]) (simp add: b)
qed

lemma only_counters_simps:
  assumes "only_counters db db'"
  shows "db_fd db' = db_fd db" "db_log_start_offset db' = db_log_start_offset db"
    "db_log_end_offset db' = db_log_end_offset db"
  using assms by (auto simp: only_counters_def)

lemma handlers_only_counters:
  "only_counters db (fst (snd (replay_push w db st po plen)))"
  "only_counters db (fst (snd (replay_lease w db st po plen)))"
  "only_counters db (fst (snd (replay_ack w db st po plen)))"
  "only_counters db (fst (snd (replay_nack w db st po plen)))"
  "only_counters db (fst (snd (replay_checkpoint w db st po plen)))"
  by (simp_all add: replay_push_def replay_lease_def replay_ack_def replay_nack_def replay_checkpoint_def
      Let_def split_beta split: option.split)

lemma replay_record_db:
  assumes "replay_record w db st t po plen = (rc, db', st', w')"
  shows "only_counters db db'"
proof -
  have "only_counters db (fst (snd (replay_record w db st t po plen)))"
    by (simp add: replay_record_def replay_expire_def handlers_only_counters)
  then show ?thesis using assms by simp
qed

section \<open>The loop\<close>

function replay_loop :: "world \<Rightarrow> db \<Rightarrow> qdb__state \<Rightarrow> u64 \<Rightarrow> int \<times> db \<times> qdb__state \<times> world" where
  "replay_loop w db st offset =
     (if offset < db_log_end_offset db then
        let rec_start = offset;
            (rc, type, plen, offset1, w1) = qdb__scan_record w (db_fd db) offset (db_log_end_offset db)
        in if rc = QDB__SCAN_END \<or> rc = QDB__SCAN_PARTIAL then (QDB_OK, db, st, w1)
           else if rc \<noteq> QDB_OK then (rc, db, st, w1)
           else let payload_off = rec_start + of_nat QDB_REC_HDR_SIZE;
                    (rc, db1, st1, w2) = replay_record w1 db st type payload_off plen
           in if rc \<noteq> QDB_OK then (rc, db1, st1, w2)
              else replay_loop w2 db1 st1 offset1
      else (QDB_OK, db, st, w))"
  by pat_completeness auto
termination
proof (relation "measure (\<lambda>(w, db, st, offset). unat (db_log_end_offset db) - unat offset)", goal_cases)
  case (2 w db st offset rec_start x rc x1 type x2 plen x3 offset1 w1 payload_off y rc' y1 db1 y2 st1 w2)
  then have sc: "qdb__scan_record w (db_fd db) offset (db_log_end_offset db) = (QDB_OK, type, plen, offset1, w1)"
    by simp
  have "db_log_end_offset db1 = db_log_end_offset db"
    using 2 by (intro only_counters_simps(3)) (metis replay_record_db prod.collapse)
  with scan_record_spec [OF sc] 2(1) show ?case by (auto simp: word_le_nat_alt word_less_nat_alt)
qed simp

declare replay_loop.simps [simp del]

definition qdb__replay_log :: "world \<Rightarrow> db \<Rightarrow> int \<times> db \<times> world" where
  "qdb__replay_log w db =
     (let (st, w1) = qdb__state_alloc w in
      case st of
        None \<Rightarrow> (QDB_ERR_NOMEM, db, w1)
      | Some st \<Rightarrow>
          let (rc, db1, st1, w2) = replay_loop w1 db st (db_log_start_offset db)
          in if rc \<noteq> QDB_OK then (rc, db1, w2)
             else (QDB_OK, db1\<lparr>db_state := Some st1\<rparr>, w2))"

section \<open>What a record does\<close>

text \<open>
  The counters and the state after one record with payload \<open>p\<close> at file offset \<open>po\<close>, or the error code
  of the handler.
\<close>

type_synonym rst = "u64 \<times> u64 \<times> qdb__state"

definition rec_push :: "u64 \<Rightarrow> bytes \<Rightarrow> rst \<Rightarrow> int + rst" where
  "rec_push po p = (\<lambda>(nm, nl, st).
     if length p < 10 then Inl QDB_ERR_CORRUPT
     else let k = qdb__get_u64le p; len = p ! 8 in
     if len = 0 \<or> length p < 9 + unat len \<or> k = 0 \<or> qdb__msg_get st k \<noteq> None then Inl QDB_ERR_CORRUPT
     else Inr (if k \<ge> nm then k + 1 else nm, nl,
               st_push st k (po + 9 + ucast len) (of_nat (length p) - 9 - ucast len) (slice p 9 (unat len))))"

definition rec_lease :: "bytes \<Rightarrow> rst \<Rightarrow> int + rst" where
  "rec_lease p = (\<lambda>(nm, nl, st).
     if length p \<noteq> 24 then Inl QDB_ERR_CORRUPT
     else let k = qdb__get_u64le p; e = qdb__get_u64le (drop 8 p); lid = qdb__get_u64le (drop 16 p) in
     case qdb__msg_get st k of None \<Rightarrow> Inl QDB_ERR_CORRUPT
     | Some m \<Rightarrow>
        if lid = 0 \<or> m_state m \<noteq> QDB_MSG_STATE_PENDING \<or> qdb__lease_get st lid \<noteq> None \<or>
           qdb__queue_get st (m_queue_name m) = None then Inl QDB_ERR_CORRUPT
        else Inr (nm, if lid \<ge> nl then lid + 1 else nl, st_lease st (m_queue_name m) k lid e))"

definition rec_done :: "(qdb__state \<Rightarrow> bytes \<Rightarrow> u64 \<Rightarrow> u64 \<Rightarrow> qdb__state) \<Rightarrow> bytes \<Rightarrow> rst \<Rightarrow> int + rst" where
  "rec_done f p = (\<lambda>(nm, nl, st).
     if length p \<noteq> 16 then Inl QDB_ERR_CORRUPT
     else let k = qdb__get_u64le p; lid = qdb__get_u64le (drop 8 p) in
     case qdb__msg_get st k of None \<Rightarrow> Inl QDB_ERR_CORRUPT
     | Some m \<Rightarrow>
        if m_state m \<noteq> QDB_MSG_STATE_LEASED \<or> m_lease_id m \<noteq> lid \<or>
           qdb__queue_get st (m_queue_name m) = None then Inl QDB_ERR_CORRUPT
        else Inr (nm, nl, f st (m_queue_name m) k lid))"

definition rec_checkpoint :: "bytes \<Rightarrow> rst \<Rightarrow> int + rst" where
  "rec_checkpoint p = (\<lambda>(nm, nl, st).
     if length p \<noteq> 24 then Inl QDB_ERR_CORRUPT
     else Inr (max nm (qdb__get_u64le (drop 8 p)), max nl (qdb__get_u64le (drop 16 p)), st))"

definition rec_apply :: "u64 \<Rightarrow> u8 \<Rightarrow> bytes \<Rightarrow> rst \<Rightarrow> int + rst" where
  "rec_apply po t p s =
     (if t = QDB_RT_MSG_PUSH then rec_push po p s
      else if t = QDB_RT_MSG_LEASE then rec_lease p s
      else if t = QDB_RT_MSG_ACK then rec_done st_ack p s
      else if t = QDB_RT_MSG_NACK \<or> t = QDB_RT_MSG_EXPIRE then rec_done st_nack p s
      else if t = QDB_RT_CHECKPOINT then rec_checkpoint p s
      else if t = QDB_RT_PADDING then Inr s
      else Inl QDB_ERR_CORRUPT)"

primrec rec_fold :: "u64 \<Rightarrow> (u8 \<times> bytes) list \<Rightarrow> rst \<Rightarrow> int + rst" where
  "rec_fold off [] s = Inr s"
| "rec_fold off (r # rs) s =
     (case rec_apply (off + 9) (fst r) (snd r) s of
        Inl c \<Rightarrow> Inl c
      | Inr s1 \<Rightarrow> rec_fold (off + of_nat (10 + length (snd r))) rs s1)"

section \<open>The handlers do what the records say\<close>

definition at_file :: "world \<Rightarrow> int \<Rightarrow> u64 \<Rightarrow> bytes \<Rightarrow> bool" where
  "at_file w fd po p \<longleftrightarrow> w_fds w fd \<noteq> None \<and> slice (fdata w fd) (unat po) (length p) = p \<and>
     unat po + length p \<le> length (fdata w fd) \<and> length (fdata w fd) < 2 ^ 63"

lemma at_file_same: "same_fs w w' \<Longrightarrow> at_file w' fd po p = at_file w fd po p"
  by (simp add: at_file_def same_fs_simps)

lemma payload_read:
  assumes rd: "qdb__read_full w fd n (po + of_nat k) = (rc, buf, w1)" and at: "at_file w fd po p"
    and kn: "k + n \<le> length p"
  shows "same_fs w w1" "rc = QDB_OK \<and> buf = slice p k n \<or> rc = QDB_ERR_IO \<and> \<not> calm w" "at_file w1 fd po p"
proof -
  let ?d = "fdata w fd"
  have d: "slice ?d (unat po) (length p) = p" "unat po + length p \<le> length ?d" "length ?d < 2 ^ 63"
    using at by (auto simp: at_file_def)
  have off: "unat (po + of_nat k) = unat po + k" using d(2,3) kn by (intro wf_offset) simp
  have n: "n < 2 ^ 63" using d(2,3) kn by simp
  note sp = read_full_spec [OF rd n]
  have "slice ?d (unat po + k) n = slice p k n" using slice_slice [OF kn, of ?d "unat po"] d(1) by simp
  moreover have "calm w \<Longrightarrow> rc = QDB_OK"
    using at d kn off by (auto simp: at_file_def intro: read_full_calm [OF rd])
  ultimately show "rc = QDB_OK \<and> buf = slice p k n \<or> rc = QDB_ERR_IO \<and> \<not> calm w" using sp off by auto
  show "same_fs w w1" using sp by simp
  then show "at_file w1 fd po p" using at by (simp add: at_file_same)
qed

lemma payload_read0:
  assumes rd: "qdb__read_full w fd n po = (rc, buf, w1)" and at: "at_file w fd po p" and kn: "n \<le> length p"
  shows "same_fs w w1" "rc = QDB_OK \<and> buf = take n p \<or> rc = QDB_ERR_IO \<and> \<not> calm w" "at_file w1 fd po p"
  using payload_read [of w fd n po 0 rc buf w1 p] assms by (simp_all add: slice_eq_take)

text \<open>
  \<open>agrees res w db r\<close>: the handler result \<open>r\<close> is the record effect \<open>res\<close>, or an I/O or allocation failure that
  the script of replies caused; files are untouched.
\<close>

definition agrees :: "int + rst \<Rightarrow> world \<Rightarrow> db \<Rightarrow> int \<times> db \<times> qdb__state \<times> world \<Rightarrow> bool" where
  "agrees res w db r \<longleftrightarrow> (case r of (rc, db', st', w') \<Rightarrow> same_fs w w' \<and>
     ((rc = QDB_ERR_IO \<or> rc = QDB_ERR_NOMEM) \<and> \<not> calm w \<or>
      (case res of Inl c \<Rightarrow> rc = c
       | Inr (nm, nl, st) \<Rightarrow> rc = QDB_OK \<and> db' = db\<lparr>db_next_msg_id := nm, db_next_lease_id := nl\<rparr> \<and> st' = st)))"

lemma agrees_intros:
  "same_fs w w' \<Longrightarrow> agrees (Inl c) w db (c, db', st', w')"
  "same_fs w w' \<Longrightarrow> rc = QDB_ERR_IO \<or> rc = QDB_ERR_NOMEM \<Longrightarrow> \<not> calm w \<Longrightarrow> agrees res w db (rc, db', st', w')"
  "same_fs w w' \<Longrightarrow> db' = db\<lparr>db_next_msg_id := nm, db_next_lease_id := nl\<rparr> \<Longrightarrow>
     agrees (Inr (nm, nl, st)) w db (QDB_OK, db', st, w')"
  by (auto simp: agrees_def split: sum.splits)

lemma agrees_step:
  assumes "same_fs w w1" and "agrees res w1 db r"
  shows "agrees res w db r"
  using assms calm_same_fs [OF assms(1)]
  by (auto simp: agrees_def intro: same_fs_trans split: sum.splits)

lemma get_or_create_spec:
  assumes "qdb__queue_get_or_create w st n = (ok, st', w')"
  shows "same_fs w w'" "ok \<and> st' = queue_ensure st n \<or> \<not> ok \<and> st' = st \<and> qdb__queue_get st n = None \<and> \<not> calm w"
proof -
  obtain b w1 where h: "heap_alloc w = (b, w1)" by fastforce
  note hs = heap_alloc_same [OF h] heap_alloc_calm [OF h]
  show "same_fs w w'" "ok \<and> st' = queue_ensure st n \<or> \<not> ok \<and> st' = st \<and> qdb__queue_get st n = None \<and> \<not> calm w"
    using assms h hs
    by (auto simp: qdb__queue_get_or_create_def queue_ensure_def split: option.splits if_splits)
qed

lemma msg_insert_eq: "(case qdb__msg_insert st m of (rc, st') \<Rightarrow> f rc st') = f QDB_OK (msg_link st m)"
  by (simp add: qdb__msg_insert_def Let_def)

lemma lease_insert_eq: "(case qdb__lease_insert st l of (rc, st') \<Rightarrow> f rc st') = f QDB_OK (lease_link st l)"
  by (simp add: qdb__lease_insert_def Let_def)

lemma counters_id: "db\<lparr>db_next_msg_id := db_next_msg_id db, db_next_lease_id := db_next_lease_id db\<rparr> = (db :: 'st qdb)"
  by (cases db) simp

lemma replay_push_agrees:
  assumes at: "at_file w (db_fd db) po p" and plen: "length p = unat plen"
  shows "agrees (rec_push po p (db_next_msg_id db, db_next_lease_id db, st)) w db (replay_push w db st po plen)"
proof (cases "plen < QDB_PUSH_MIN_PLEN")
  case True
  then show ?thesis using plen by (auto simp: replay_push_def rec_push_def word_less_nat_alt intro: agrees_intros)
next
  case False
  then have ten: "\<not> length p < 10" using plen by (simp add: word_less_nat_alt)
  let ?k = "qdb__get_u64le p" and ?len = "p ! 8"
  obtain r1 b1 w1 where 1: "qdb__read_full w (db_fd db) 9 po = (r1, b1, w1)" by (metis prod_cases3)
  have "9 \<le> length p" using ten by simp
  note s1 = payload_read0 [OF 1 at this]
  obtain r2 b2 w2 where 2: "qdb__read_full w1 (db_fd db) (unat ?len) (po + of_nat 9) = (r2, b2, w2)" by (metis prod_cases3)
  have b1: "qdb__get_u64le b1 = ?k" "b1 ! 8 = ?len" if "r1 = QDB_OK"
    using s1(2) that ten u64le.get_take [of 9 p] by auto
  have small: "plen < 9 + ucast ?len \<longleftrightarrow> length p < 9 + unat ?len"
    using plen unat_u8_lt [of ?len] by (simp add: word_less_nat_alt unat_word_ariths)
  obtain b3 w3 where 3: "heap_alloc w2 = (b3, w3)" by fastforce
  note s3 = heap_alloc_same [OF 3] heap_alloc_calm [OF 3]
  show ?thesis
  proof (cases "r1 = QDB_OK \<and> \<not> (?len = 0 \<or> length p < 9 + unat ?len \<or> ?k = 0)")
    case False
    then show ?thesis
      using 1 s1 ten \<open>\<not> plen < 10\<close> b1 small
      by (cases "r1 = QDB_OK") (auto simp: replay_push_def rec_push_def Let_def intro: agrees_intros)
  next
    case ok1: True
    then have r1: "r1 = QDB_OK" and c: "?len \<noteq> 0" "\<not> length p < 9 + unat ?len" "?k \<noteq> 0" by auto
    have "9 + unat ?len \<le> length p" using c(2) by simp
    note s2 = payload_read [OF 2 s1(3) this]
    let ?m = "new_msg ?k (po + 9 + ucast ?len) (plen - 9 - ucast ?len) b2"
    obtain q st2 w4 where 4: "qdb__queue_get_or_create w3 (msg_link st ?m) b2 = (q, st2, w4)" by (metis prod_cases3)
    note s4 = get_or_create_spec [OF 4]
    have eq: "replay_push w db st po plen =
      (if r2 \<noteq> QDB_OK then (QDB_ERR_IO, db, st, w2)
       else if qdb__msg_get st ?k \<noteq> None then (QDB_ERR_CORRUPT, db, st, w2)
       else if \<not> b3 then (QDB_ERR_NOMEM, db, st, w3)
       else if \<not> q then (QDB_ERR_NOMEM, db, st2, w4)
       else (QDB_OK, if ?k \<ge> db_next_msg_id db then db\<lparr>db_next_msg_id := ?k + 1\<rparr> else db,
             qdb__queue_pending_append st2 b2 ?k, w4))"
      using \<open>\<not> plen < 10\<close> 1 r1 b1 c small 2 3 4 by (simp add: replay_push_def Let_def msg_insert_eq)
    have fs: "same_fs w w2" "same_fs w w3" "same_fs w w4"
      using s1(1) s2(1) s3(1) s4(1) by (blast intro: same_fs_trans)+
    have cw: "calm w \<Longrightarrow> calm w1 \<and> calm w2 \<and> calm w3" using fs s1(1) by (auto intro: calm_same_fs)
    have len: "of_nat (length p) = plen" by (simp add: plen)
    have res: "rec_push po p (db_next_msg_id db, db_next_lease_id db, st) =
      (if qdb__msg_get st ?k \<noteq> None then Inl QDB_ERR_CORRUPT
       else Inr (if ?k \<ge> db_next_msg_id db then ?k + 1 else db_next_msg_id db, db_next_lease_id db,
         st_push st ?k (po + 9 + ucast ?len) (plen - 9 - ucast ?len) (slice p 9 (unat ?len))))"
      using ten c by (simp add: rec_push_def Let_def len)
    have b2: "b2 = slice p 9 (unat ?len)" if "r2 = QDB_OK" using s2(2) that by auto
    show ?thesis
    proof (cases "r2 = QDB_OK \<and> qdb__msg_get st ?k = None \<and> b3 \<and> q")
      case True
      then show ?thesis
        unfolding eq res using fs(3) b2 s4(2) counters_id [of db]
        by (auto simp: st_push_def intro!: agrees_intros(3))
    next
      case False
      then show ?thesis unfolding eq res using fs s2(2) s3(2) s4(2) cw by (auto intro: agrees_intros)
    qed
  qed
qed

lemma replay_lease_agrees:
  assumes at: "at_file w (db_fd db) po p" and plen: "length p = unat plen"
  shows "agrees (rec_lease p (db_next_msg_id db, db_next_lease_id db, st)) w db (replay_lease w db st po plen)"
proof (cases "plen = 24")
  case False
  then have "length p \<noteq> 24" using plen by (auto simp: word_unat_eq_iff)
  with False show ?thesis by (auto simp: replay_lease_def rec_lease_def intro: agrees_intros)
next
  case True
  then have l: "length p = 24" using plen by simp
  obtain r1 b1 w1 where 1: "qdb__read_full w (db_fd db) 24 po = (r1, b1, w1)" by (metis prod_cases3)
  have s1: "same_fs w w1" "r1 = QDB_OK \<and> b1 = p \<or> r1 = QDB_ERR_IO \<and> \<not> calm w"
    using payload_read0 [OF 1 at] l by auto
  obtain b2 w2 where 2: "heap_alloc w1 = (b2, w2)" by fastforce
  have s2: "same_fs w w2" "calm w \<Longrightarrow> b2"
    using heap_alloc_same [OF 2] heap_alloc_calm [OF 2] s1(1) calm_same_fs [OF s1(1)] by (auto intro: same_fs_trans)
  show ?thesis
  proof (cases "r1 = QDB_OK")
    case False
    with True 1 s1 show ?thesis by (auto simp: replay_lease_def intro: agrees_intros)
  next
    case ok: True
    show ?thesis
    proof (cases "qdb__msg_get st (qdb__get_u64le p)")
      case None
      with ok True 1 s1 l show ?thesis
        by (auto simp: replay_lease_def rec_lease_def Let_def intro: agrees_intros)
    next
      case (Some m)
      show ?thesis
        using ok True 1 s1 2 s2 l Some
        by (simp add: replay_lease_def rec_lease_def Let_def st_lease_def lease_insert_eq)
          (auto intro!: agrees_intros)
    qed
  qed
qed

lemma replay_done_agrees:
  assumes at: "at_file w (db_fd db) po p" and plen: "length p = unat plen"
  shows "agrees (rec_done st_ack p (db_next_msg_id db, db_next_lease_id db, st)) w db (replay_ack w db st po plen)"
    "agrees (rec_done st_nack p (db_next_msg_id db, db_next_lease_id db, st)) w db (replay_nack w db st po plen)"
proof -
  have "agrees (rec_done st_ack p (db_next_msg_id db, db_next_lease_id db, st)) w db (replay_ack w db st po plen) \<and>
    agrees (rec_done st_nack p (db_next_msg_id db, db_next_lease_id db, st)) w db (replay_nack w db st po plen)"
  proof (cases "plen = 16")
    case False
    then have "length p \<noteq> 16" using plen by (auto simp: word_unat_eq_iff)
    with False show ?thesis by (auto simp: replay_ack_def replay_nack_def rec_done_def intro: agrees_intros)
  next
    case True
    then have l: "length p = 16" using plen by simp
    obtain r1 b1 w1 where 1: "qdb__read_full w (db_fd db) 16 po = (r1, b1, w1)" by (metis prod_cases3)
    have s1: "same_fs w w1" "r1 = QDB_OK \<and> b1 = p \<or> r1 = QDB_ERR_IO \<and> \<not> calm w"
      using payload_read0 [OF 1 at] l by auto
    show ?thesis
    proof (cases "r1 = QDB_OK")
      case False
      with True 1 s1 show ?thesis by (auto simp: replay_ack_def replay_nack_def intro: agrees_intros)
    next
      case ok: True
      then show ?thesis
        using True 1 s1 l counters_id [of db]
        by (cases "qdb__msg_get st (qdb__get_u64le p)")
          (auto simp: replay_ack_def replay_nack_def rec_done_def Let_def st_ack_def st_nack_def intro!: agrees_intros)
    qed
  qed
  then show "agrees (rec_done st_ack p (db_next_msg_id db, db_next_lease_id db, st)) w db (replay_ack w db st po plen)"
    "agrees (rec_done st_nack p (db_next_msg_id db, db_next_lease_id db, st)) w db (replay_nack w db st po plen)" by auto
qed

lemma replay_checkpoint_agrees:
  assumes at: "at_file w (db_fd db) po p" and plen: "length p = unat plen"
  shows "agrees (rec_checkpoint p (db_next_msg_id db, db_next_lease_id db, st)) w db (replay_checkpoint w db st po plen)"
proof (cases "plen = 24")
  case False
  then have "length p \<noteq> 24" using plen by (auto simp: word_unat_eq_iff)
  with False show ?thesis by (auto simp: replay_checkpoint_def rec_checkpoint_def intro: agrees_intros)
next
  case True
  then have l: "length p = 24" using plen by simp
  obtain r1 b1 w1 where 1: "qdb__read_full w (db_fd db) 24 po = (r1, b1, w1)" by (metis prod_cases3)
  have s1: "same_fs w w1" "r1 = QDB_OK \<and> b1 = p \<or> r1 = QDB_ERR_IO \<and> \<not> calm w"
    using payload_read0 [OF 1 at] l by auto
  have "db\<lparr>db_next_msg_id := max (db_next_msg_id db) a, db_next_lease_id := max (db_next_lease_id db) b\<rparr> =
      (let db1 = (if a > db_next_msg_id db then db\<lparr>db_next_msg_id := a\<rparr> else db)
       in if b > db_next_lease_id db1 then db1\<lparr>db_next_lease_id := b\<rparr> else db1)" for a b
    by (cases db) (auto simp: max_def Let_def)
  then show ?thesis
    using True 1 s1 l by (cases "r1 = QDB_OK")
      (auto simp: replay_checkpoint_def rec_checkpoint_def Let_def intro!: agrees_intros)
qed

lemma replay_record_agrees:
  assumes "at_file w (db_fd db) po p" and "length p = unat plen"
  shows "agrees (rec_apply po t p (db_next_msg_id db, db_next_lease_id db, st)) w db (replay_record w db st t po plen)"
proof -
  have "agrees (Inr (db_next_msg_id db, db_next_lease_id db, st)) w db (QDB_OK, db, st, w)"
    by (rule agrees_intros(3)) (simp_all add: counters_id)
  then show ?thesis
    unfolding replay_record_def rec_apply_def replay_expire_def
    by (simp add: replay_push_agrees [OF assms] replay_lease_agrees [OF assms] replay_done_agrees [OF assms]
        replay_checkpoint_agrees [OF assms] agrees_intros(1))
qed

lemma rec_apply_error: "rec_apply po t p s = Inl c \<Longrightarrow> c = QDB_ERR_CORRUPT"
  by (cases s) (auto simp: rec_apply_def rec_push_def rec_lease_def rec_done_def rec_checkpoint_def Let_def
      split: if_splits option.splits)

section \<open>Records keep the refinement relation\<close>

text \<open>The transition of the specification that a record stands for.\<close>

definition a_rec :: "u64 \<Rightarrow> u8 \<Rightarrow> bytes \<Rightarrow> astate \<Rightarrow> astate" where
  "a_rec po t p A =
     (if t = QDB_RT_MSG_PUSH then
        a_push (qdb__get_u64le p) (slice p 9 (unat (p ! 8))) (po + 9 + ucast (p ! 8))
          (of_nat (length p) - 9 - ucast (p ! 8)) A
      else if t = QDB_RT_MSG_LEASE then
        a_lease (qdb__get_u64le p) (qdb__get_u64le (drop 16 p)) (qdb__get_u64le (drop 8 p)) A
      else if t = QDB_RT_MSG_ACK then a_ack (qdb__get_u64le p) A
      else if t = QDB_RT_MSG_NACK \<or> t = QDB_RT_MSG_EXPIRE then a_return (qdb__get_u64le p) A
      else A)"

lemma rec_apply_absR:
  assumes R: "absR st A" and ap: "rec_apply po t p (nm, nl, st) = Inr (nm', nl', st')"
  shows "absR st' (a_rec po t p A)"
proof -
  consider (push) "t = 1" | (lease) "t = 2" | (ack) "t = 3" | (nack) "t = 4 \<or> t = 5" | (other) "st' = st" "t \<noteq> 1" "t \<noteq> 2" "t \<noteq> 3" "t \<noteq> 4" "t \<noteq> 5"
    using ap by (auto simp: rec_apply_def rec_checkpoint_def split: if_splits)
  then show ?thesis
  proof cases
    case push
    let ?n = "slice p 9 (unat (p ! 8))"
    have c: "10 \<le> length p" "p ! 8 \<noteq> 0" "9 + unat (p ! 8) \<le> length p" "qdb__get_u64le p \<noteq> 0"
      "qdb__msg_get st (qdb__get_u64le p) = None"
      "st' = st_push st (qdb__get_u64le p) (po + 9 + ucast (p ! 8)) (of_nat (length p) - 9 - ucast (p ! 8)) ?n"
      using ap push by (auto simp: rec_apply_def rec_push_def Let_def split: if_splits)
    have "name_ok ?n" using c(2,3) unat_u8_lt [of "p ! 8"] by (simp add: name_ok_def unat_gt_0)
    from absR_push [OF R c(5,4) this] show ?thesis using push c(6) by (simp add: a_rec_def)
  next
    case lease
    let ?k = "qdb__get_u64le p" and ?lid = "qdb__get_u64le (drop 16 p)"
    obtain m where "qdb__msg_get st ?k = Some m" "m_state m = QDB_MSG_STATE_PENDING" "?lid \<noteq> 0"
      "qdb__lease_get st ?lid = None" "st' = st_lease st (m_queue_name m) ?k ?lid (qdb__get_u64le (drop 8 p))"
      using ap lease by (auto simp: rec_apply_def rec_lease_def Let_def split: if_splits option.splits)
    with absR_lease [OF R this(1-4) refl] show ?thesis using lease by (simp add: a_rec_def)
  next
    case ack
    let ?k = "qdb__get_u64le p" and ?lid = "qdb__get_u64le (drop 8 p)"
    obtain m where "qdb__msg_get st ?k = Some m" "m_state m = QDB_MSG_STATE_LEASED" "m_lease_id m = ?lid"
      "st' = st_ack st (m_queue_name m) ?k ?lid"
      using ap ack by (auto simp: rec_apply_def rec_done_def Let_def split: if_splits option.splits)
    with absR_ack [OF R this(1-3) refl] show ?thesis using ack by (simp add: a_rec_def)
  next
    case nack
    let ?k = "qdb__get_u64le p" and ?lid = "qdb__get_u64le (drop 8 p)"
    obtain m where "qdb__msg_get st ?k = Some m" "m_state m = QDB_MSG_STATE_LEASED" "m_lease_id m = ?lid"
      "st' = st_nack st (m_queue_name m) ?k ?lid"
      using ap nack by (auto simp: rec_apply_def rec_done_def Let_def split: if_splits option.splits)
    with absR_nack [OF R this(1-3) refl] show ?thesis using nack by (auto simp: a_rec_def)
  qed (use R in \<open>simp add: a_rec_def\<close>)
qed

section \<open>Logs\<close>

definition enc :: "u8 \<times> bytes \<Rightarrow> bytes" where
  "enc r = enc_rec (fst r) (snd r)"

definition rec_ok :: "u8 \<times> bytes \<Rightarrow> bool" where
  "rec_ok r \<longleftrightarrow> is_known_type (fst r) \<and> length (snd r) \<le> 67109376"

text \<open>\<open>log_is d a b rs\<close>: the bytes of \<open>d\<close> from \<open>a\<close> to \<open>b\<close> are the records \<open>rs\<close>, one after the other.\<close>

fun log_is :: "bytes \<Rightarrow> nat \<Rightarrow> nat \<Rightarrow> (u8 \<times> bytes) list \<Rightarrow> bool" where
  "log_is d a b [] \<longleftrightarrow> a = b \<and> b \<le> length d"
| "log_is d a b (r # rs) \<longleftrightarrow> rec_ok r \<and> slice d a (10 + length (snd r)) = enc r \<and>
     log_is d (a + 10 + length (snd r)) b rs"

lemma log_is_bounds: "log_is d a b rs \<Longrightarrow> a \<le> b \<and> b \<le> length d"
  by (induction rs arbitrary: a) force+

lemma log_is_snoc:
  assumes "log_is d a b rs" and "rec_ok r" and "slice d b (10 + length (snd r)) = enc r"
    and "b + 10 + length (snd r) \<le> length d"
  shows "log_is d a (b + 10 + length (snd r)) (rs @ [r])"
  using assms by (induction rs arbitrary: a) auto

lemma log_is_cong:
  assumes "take b d' = take b d" and "b \<le> length d" and "b \<le> length d'" and "log_is d a b rs"
  shows "log_is d' a b rs"
  using assms(4)
proof (induction rs arbitrary: a)
  case (Cons r rs)
  then have "a + 10 + length (snd r) \<le> b" using log_is_bounds by fastforce
  then have "slice d' a (10 + length (snd r)) = slice d a (10 + length (snd r))"
    using slice_take [of a "10 + length (snd r)" b d] slice_take [of a "10 + length (snd r)" b d'] assms(1)
    by (simp add: add.assoc)
  then show ?case using Cons by simp
qed (use assms in simp)

lemma rec_at_file:
  assumes "slice (fdata w fd) (unat off) (10 + length p) = enc_rec t p"
    and "unat off + 10 + length p \<le> length (fdata w fd)" and "length (fdata w fd) < 2 ^ 63" and "w_fds w fd \<noteq> None"
  shows "at_file w fd (off + of_nat 9) p"
proof -
  have "unat (off + of_nat 9) = unat off + 9" using assms(2,3) by (intro wf_offset) simp
  then show ?thesis using enc_rec_elim(5) [OF assms(1,2)] assms by (simp add: at_file_def)
qed

section \<open>Replaying a log\<close>

lemma agrees_same: "agrees res w db (rc, db', st', w') \<Longrightarrow> same_fs w w'"
  by (simp add: agrees_def)

lemma replay_loop_agrees:
  assumes "log_is (fdata w (db_fd db)) (unat off) (unat (db_log_end_offset db)) rs"
    and "length (fdata w (db_fd db)) < 2 ^ 63" and "w_fds w (db_fd db) = Some i"
  shows "agrees (rec_fold off rs (db_next_msg_id db, db_next_lease_id db, st)) w db (replay_loop w db st off)"
  using assms
proof (induction rs arbitrary: w db st off)
  case Nil
  then have "\<not> off < db_log_end_offset db" by (simp add: word_less_nat_alt)
  then show ?case by (auto simp: replay_loop.simps [of w] counters_id intro!: agrees_intros)
next
  case (Cons r rs)
  obtain t p where r: "r = (t, p)" by fastforce
  let ?d = "fdata w (db_fd db)" and ?fin = "db_log_end_offset db"
  have c: "slice ?d (unat off) (10 + length p) = enc_rec t p" "is_known_type t" "length p \<le> 67109376"
    "log_is ?d (unat off + 10 + length p) (unat ?fin) rs" "length ?d < 2 ^ 63" "w_fds w (db_fd db) = Some i"
    using Cons.prems by (auto simp: r enc_def rec_ok_def)
  note b = log_is_bounds [OF c(4)]
  have lt: "off < ?fin" using b by (simp add: word_less_nat_alt)
  have off': "unat (off + of_nat (10 + length p)) = unat off + 10 + length p"
    using b c(5) wf_offset [of off "10 + length p"] by simp
  obtain rc t' plen o1 w1 where sc: "qdb__scan_record w (db_fd db) off ?fin = (rc, t', plen, o1, w1)"
    by (metis prod_cases5)
  have s1: "same_fs w w1" "rc = QDB_OK \<and> t' = t \<and> unat plen = length p \<and> o1 = off + of_nat (10 + length p) \<or> rc = QDB_ERR_IO"
    "calm w \<Longrightarrow> rc = QDB_OK"
    using scan_record_complete [OF sc c(6) refl c(5,1,2,3)] b by auto
  show ?case
  proof (cases "rc = QDB_OK")
    case False
    then show ?thesis using sc lt s1 by (auto simp: replay_loop.simps [of w] intro!: agrees_intros)
  next
    case True
    then have eqs: "t' = t" "unat plen = length p" "o1 = off + of_nat (10 + length p)" using s1(2) by auto
    have at: "at_file w1 (db_fd db) (off + of_nat 9) p"
      using rec_at_file [OF c(1) _ c(5)] b c(6) at_file_same [OF s1(1)] by simp
    obtain rc2 db2 st2 w2 where rr: "replay_record w1 db st t (off + of_nat 9) plen = (rc2, db2, st2, w2)"
      by (metis prod_cases4)
    have ag: "agrees (rec_apply (off + of_nat 9) t p (db_next_msg_id db, db_next_lease_id db, st)) w1 db (rc2, db2, st2, w2)"
      using replay_record_agrees [OF at, of plen t st] eqs rr by simp
    have loop: "replay_loop w db st off = (if rc2 \<noteq> QDB_OK then (rc2, db2, st2, w2) else replay_loop w2 db2 st2 o1)"
      using sc lt True rr eqs by (simp add: replay_loop.simps [of w])
    note same2 = same_fs_trans [OF s1(1) agrees_same [OF ag]]
    show ?thesis
    proof (cases "rec_apply (off + of_nat 9) t p (db_next_msg_id db, db_next_lease_id db, st)")
      case (Inl c)
      then have "rc2 = c \<or> (rc2 = QDB_ERR_IO \<or> rc2 = QDB_ERR_NOMEM) \<and> \<not> calm w"
        using ag calm_same_fs [OF s1(1)] by (auto simp: agrees_def)
      moreover have "c \<noteq> QDB_OK" using rec_apply_error [OF Inl] by simp
      ultimately show ?thesis using Inl same2 by (auto simp: loop r intro: agrees_intros)
    next
      case (Inr s)
      obtain nm nl stx where s: "s = (nm, nl, stx)" by (metis prod_cases3)
      show ?thesis
      proof (cases "rc2 = QDB_OK")
        case False
        then have "(rc2 = QDB_ERR_IO \<or> rc2 = QDB_ERR_NOMEM) \<and> \<not> calm w"
          using ag Inr s calm_same_fs [OF s1(1)] by (auto simp: agrees_def)
        then show ?thesis using False same2 by (auto simp: loop intro: agrees_intros)
      next
        case ok: True
        then have d2: "db2 = db\<lparr>db_next_msg_id := nm, db_next_lease_id := nl\<rparr>" "st2 = stx"
          using ag Inr s by (auto simp: agrees_def)
        have "agrees (rec_fold o1 rs (nm, nl, stx)) w2 db2 (replay_loop w2 db2 st2 o1)"
          using Cons.IH [of w2 db2 o1 st2] c(4,5,6) off' by (simp add: d2 eqs same_fs_simps [OF same2])
        then have "agrees (rec_fold o1 rs (nm, nl, stx)) w2 db (replay_loop w2 db2 st2 o1)"
          by (auto simp: agrees_def d2 split: sum.splits)
        then show ?thesis using agrees_step [OF same2] ok Inr s eqs(3) by (simp add: loop r)
      qed
    qed
  qed
qed

text \<open>On arbitrary bytes: a loop that succeeds keeps the relation, and files are never touched.\<close>

lemma replay_loop_sound:
  assumes "replay_loop w db st off = (rc, db', st', w')" and "absR st A"
    and "length (fdata w (db_fd db)) < 2 ^ 63" and "w_fds w (db_fd db) \<noteq> None"
  shows "same_fs w w' \<and> only_counters db db' \<and> (rc = QDB_OK \<longrightarrow> (\<exists>A'. absR st' A')) \<and>
    rc \<in> {QDB_OK, QDB_ERR_IO, QDB_ERR_NOMEM, QDB_ERR_CORRUPT}"
  using assms
proof (induction w db st off arbitrary: A rule: replay_loop.induct)
  case (1 w db st off)
  show ?case
  proof (cases "off < db_log_end_offset db")
    case False
    with "1.prems" show ?thesis by (auto simp: replay_loop.simps [of w])
  next
    case lt: True
    obtain r1 t plen o1 w1 where sc: "qdb__scan_record w (db_fd db) off (db_log_end_offset db) = (r1, t, plen, o1, w1)"
      by (metis prod_cases5)
    note s1 = scan_record_spec [OF sc]
    show ?thesis
    proof (cases "r1 = QDB_OK")
      case False
      with "1.prems" lt sc s1 show ?thesis by (auto simp: replay_loop.simps [of w] split: if_splits)
    next
      case r1: True
      define p where "p = slice (fdata w (db_fd db)) (unat off + 9) (unat plen)"
      have p: "length p = unat plen" "slice (fdata w (db_fd db)) (unat off) (10 + length p) = enc_rec t p"
        using s1 r1 by (auto simp: p_def)
      have same1: "same_fs w w1" using s1 by simp
      have at: "at_file w1 (db_fd db) (off + of_nat 9) p"
        using rec_at_file [OF p(2)] s1 r1 p(1) "1.prems"(3,4) at_file_same [OF same1] by auto
      obtain r2 db2 st2 w2 where rr: "replay_record w1 db st t (off + of_nat 9) plen = (r2, db2, st2, w2)"
        by (metis prod_cases4)
      note ag = replay_record_agrees [OF at p(1), of t st, unfolded rr]
      note same2 = same_fs_trans [OF same1 agrees_same [OF ag]]
      note oc = replay_record_db [OF rr]
      show ?thesis
      proof (cases "r2 = QDB_OK")
        case False
        have "r2 \<in> {QDB_ERR_IO, QDB_ERR_NOMEM, QDB_ERR_CORRUPT}"
          using ag False rec_apply_error by (auto simp: agrees_def split: sum.splits)
        with False "1.prems"(1) lt sc r1 rr same2 oc show ?thesis
          by (auto simp: replay_loop.simps [of w])
      next
        case r2: True
        have loop: "replay_loop w2 db2 st2 o1 = (rc, db', st', w')"
          using "1.prems"(1) lt sc r1 rr r2 by (simp add: replay_loop.simps [of w])
        obtain nm nl where "rec_apply (off + of_nat 9) t p (db_next_msg_id db, db_next_lease_id db, st) = Inr (nm, nl, st2)"
          using ag r2 rec_apply_error by (force simp: agrees_def split: sum.splits)
        from rec_apply_absR [OF "1.prems"(2) this] obtain A2 where A2: "absR st2 A2" ..
        have ih: "same_fs w2 w' \<and> only_counters db2 db' \<and> (rc = QDB_OK \<longrightarrow> (\<exists>A'. absR st' A')) \<and>
            rc \<in> {QDB_OK, QDB_ERR_IO, QDB_ERR_NOMEM, QDB_ERR_CORRUPT}"
          using "1.IH" [OF lt refl sc [symmetric] refl refl refl refl _ _ refl rr [symmetric] refl refl refl _ loop A2] r1 r2 "1.prems"(3,4)
          by (simp add: only_counters_simps [OF oc] same_fs_simps [OF same2])
        then show ?thesis using same2 oc same_fs_trans only_counters_trans by blast
      qed
    qed
  qed
qed

lemma replay_log_sound:
  assumes "qdb__replay_log w db = (rc, db', w')"
    and "length (fdata w (db_fd db)) < 2 ^ 63" and "w_fds w (db_fd db) \<noteq> None"
  shows "same_fs w w' \<and> only_counters (db\<lparr>db_state := db_state db'\<rparr>) db' \<and>
    (rc = QDB_OK \<longrightarrow> (\<exists>st A. db_state db' = Some st \<and> absR st A)) \<and>
    (rc \<noteq> QDB_OK \<longrightarrow> db_state db' = db_state db) \<and>
    rc \<in> {QDB_OK, QDB_ERR_IO, QDB_ERR_NOMEM, QDB_ERR_CORRUPT}"
proof -
  obtain b w1 where h: "heap_alloc w = (b, w1)" by fastforce
  note same = heap_alloc_same [OF h]
  obtain r2 db2 st2 w2 where l: "replay_loop w1 db empty_state (db_log_start_offset db) = (r2, db2, st2, w2)"
    by (metis prod_cases4)
  have s: "same_fs w1 w2 \<and> only_counters db db2 \<and> (r2 = QDB_OK \<longrightarrow> (\<exists>A'. absR st2 A')) \<and>
    r2 \<in> {QDB_OK, QDB_ERR_IO, QDB_ERR_NOMEM, QDB_ERR_CORRUPT}"
    using replay_loop_sound [OF l absR_empty] assms(2,3) by (simp add: same_fs_simps [OF same])
  have st2: "db_state db2 = db_state db" using s by (auto simp: only_counters_def)
  have "only_counters (db\<lparr>db_state := x\<rparr>) (db2\<lparr>db_state := x\<rparr>)" for x
    using s only_counters_state by blast
  moreover have "only_counters (db\<lparr>db_state := db_state db\<rparr>) db" "only_counters (db\<lparr>db_state := db_state db\<rparr>) db2"
    using s by simp_all
  ultimately show ?thesis
    using assms(1) h l s same same_fs_trans [OF same] st2
    by (auto simp: qdb__replay_log_def qdb__state_alloc_def split: if_splits)
qed

end
