(* ===== verification/Ops.thy ===== *)
theory Ops
  imports Replay
begin

text \<open>
  The message operations of \<^verbatim>\<open>src/qdb.c\<close>: push, pop, pop-any, acknowledge, return, and the expiry
  of leases.  A NULL argument is \<open>None\<close>.  The result of a function is \<open>None\<close> when the C code would
  dereference a NULL pointer (a handle whose in-memory state is gone), and otherwise the return
  code with the handle and the world after the call.  A C string is the list of its bytes up to the
  terminator.
\<close>

section \<open>Arguments and results\<close>

abbreviation (input) QDB_DEFAULT_LEASE_US :: u64 where "QDB_DEFAULT_LEASE_US \<equiv> 30000000"

record qdb_msg_t =
  om_id :: u64
  om_lease_id :: u64
  om_queue :: "bytes option"
  om_data :: "bytes option"
  om_len :: nat
  om_retry_count :: u32

definition strlen :: "bytes \<Rightarrow> nat" where
  "strlen s = length (takeWhile (\<lambda>c. c \<noteq> 0) s)"

section \<open>Push\<close>

definition push_db :: "world \<Rightarrow> db \<Rightarrow> bytes option \<Rightarrow> bytes option \<Rightarrow> nat \<Rightarrow> (int \<times> db \<times> world) option" where
  "push_db w db queue data len =
     (case queue of
        None \<Rightarrow> Some (QDB_ERR_INVAL, db, w)
      | Some queue \<Rightarrow>
        let qlen = strlen queue in
        if qlen = 0 \<or> qlen > QDB_QUEUE_NAME_MAX then Some (QDB_ERR_INVAL, db, w)
        else if len > 0 \<and> data = None then Some (QDB_ERR_INVAL, db, w)
        else if len > QDB_MSG_MAX_LEN then Some (QDB_ERR_INVAL, db, w)
        else let name_len = of_nat qlen :: u8;
                 plen = of_nat QDB_PUSH_HDR_SIZE + of_nat qlen + of_nat len :: u32;
                 (ok, w1) = heap_alloc w
        in if \<not> ok then Some (QDB_ERR_NOMEM, db, w1)
        else let msg_id = db_next_msg_id db;
                 buf = qdb__put_u64le msg_id @ [name_len] @ take qlen queue @
                       (if len > 0 then take len (the data) else []);
                 rec_start = db_log_end_offset db;
                 (rc, new_end, w2) = qdb__append_record w1 (db_fd db) QDB_RT_MSG_PUSH buf plen rec_start
        in if rc \<noteq> QDB_OK then Some (rc, db, w2)
        else let db1 = db\<lparr>db_log_end_offset := new_end, db_next_msg_id := msg_id + 1\<rparr>;
                 (rc, w3) = qdb__header_update w2 (db_fd db1) db1
        in if rc \<noteq> QDB_OK then Some (QDB_ERR_IO, db1, w3)
        else let (ok, w4) = heap_alloc w3
        in if \<not> ok then Some (QDB_ERR_NOMEM, db1, w4)
        else (case db_state db1 of
            None \<Rightarrow> None
          | Some st \<Rightarrow>
              let m = new_msg msg_id
                        (rec_start + of_nat QDB_REC_HDR_SIZE + of_nat QDB_PUSH_HDR_SIZE + ucast name_len)
                        (of_nat len) (take qlen queue);
                  (_, st1) = qdb__msg_insert st m;
                  (q, st2, w5) = qdb__queue_get_or_create w4 st1 (take qlen queue)
              in if \<not> q then Some (QDB_ERR_NOMEM, db1\<lparr>db_state := Some st2\<rparr>, w5)
                 else Some (QDB_OK,
                   db1\<lparr>db_state := Some (qdb__queue_pending_append st2 (take qlen queue) msg_id)\<rparr>, w5)))"

definition qdb_push :: "world \<Rightarrow> db option \<Rightarrow> bytes option \<Rightarrow> bytes option \<Rightarrow> nat \<Rightarrow> (int \<times> db option \<times> world) option" where
  "qdb_push w db queue data len =
     (case db of
        None \<Rightarrow> Some (QDB_ERR_INVAL, None, w)
      | Some db \<Rightarrow> map_option (\<lambda>(rc, db', w'). (rc, Some db', w')) (push_db w db queue data len))"

section \<open>Releasing a message\<close>

definition qdb_msg_free :: "qdb_msg_t option \<Rightarrow> qdb_msg_t option" where
  "qdb_msg_free msg =
     (case msg of
        None \<Rightarrow> None
      | Some msg \<Rightarrow> Some \<lparr>om_id = 0, om_lease_id = 0, om_queue = None, om_data = None, om_len = 0,
                        om_retry_count = 0\<rparr>)"

section \<open>Pop\<close>

text \<open>The copy of the message data: the code, the buffer (\<open>None\<close> for an empty message) and the world.\<close>

definition pop_data :: "world \<Rightarrow> int \<Rightarrow> qdb__msg \<Rightarrow> int \<times> bytes option \<times> world" where
  "pop_data w fd m =
     (if m_data_len m > 0 then
        let (ok, w1) = heap_alloc w in
        if \<not> ok then (QDB_ERR_NOMEM, None, w1)
        else let (rc, d_copy, w2) = qdb__read_full w1 fd (unat (m_data_len m)) (m_data_file_offset m)
        in if rc \<noteq> QDB_OK then (rc, None, w2) else (QDB_OK, Some d_copy, w2)
      else (QDB_OK, None, w))"

definition do_pop :: "world \<Rightarrow> db \<Rightarrow> qdb__state \<Rightarrow> bytes \<Rightarrow> qdb__msg \<Rightarrow> qdb_msg_t \<Rightarrow> int \<times> qdb_msg_t \<times> db \<times> world" where
  "do_pop w db st q m out_msg =
     (let (ok, w1) = heap_alloc w in
      if \<not> ok then (QDB_ERR_NOMEM, out_msg, db, w1)
      else let q_copy = m_queue_name m;
               (rc, d_copy, w2) = pop_data w1 (db_fd db) m
      in if rc \<noteq> QDB_OK then (rc, out_msg, db, w2)
      else let (ok, w3) = heap_alloc w2
      in if \<not> ok then (QDB_ERR_NOMEM, out_msg, db, w3)
      else let lease_id = db_next_lease_id db;
               expiry_us = qdb__time_us w3 + db_lease_timeout_us db;
               lease_buf = qdb__put_u64le (m_id m) @ qdb__put_u64le expiry_us @ qdb__put_u64le lease_id;
               (rc, new_end, w4) = qdb__append_record w3 (db_fd db) QDB_RT_MSG_LEASE lease_buf
                                     (of_nat QDB_PAYLOAD_LEASE_SIZE) (db_log_end_offset db)
      in if rc \<noteq> QDB_OK then (rc, out_msg, db, w4)
      else let db1 = db\<lparr>db_log_end_offset := new_end, db_next_lease_id := lease_id + 1\<rparr>;
               (rc, w5) = qdb__header_update w4 (db_fd db1) db1
      in if rc \<noteq> QDB_OK then (QDB_ERR_IO, out_msg, db1, w5)
      else let st1 = qdb__queue_pending_remove st q (m_id m);
               st2 = msg_upd st1 (m_id m) (\<lambda>m. m\<lparr>m_state := QDB_MSG_STATE_LEASED, m_lease_id := lease_id,
                       m_lease_expiry_us := expiry_us\<rparr>);
               st3 = queue_upd st2 q (\<lambda>q. q\<lparr>q_leased_count := q_leased_count q + 1\<rparr>);
               (_, st4) = qdb__lease_insert st3 \<lparr>l_lease_id = lease_id, l_msg_id = m_id m, l_expiry_us = expiry_us\<rparr>
      in (QDB_OK, \<lparr>om_id = m_id m, om_lease_id = lease_id, om_queue = Some q_copy, om_data = d_copy,
                   om_len = unat (m_data_len m), om_retry_count = m_retry_count m\<rparr>,
          db1\<lparr>db_state := Some st4\<rparr>, w5))"

definition pop_db :: "world \<Rightarrow> db \<Rightarrow> bytes option \<Rightarrow> qdb_msg_t option \<Rightarrow> (int \<times> qdb_msg_t option \<times> db \<times> world) option" where
  "pop_db w db queue out_msg =
     (case (queue, out_msg) of
        (Some queue, Some out) \<Rightarrow>
          let qlen = strlen queue in
          if qlen = 0 \<or> qlen > QDB_QUEUE_NAME_MAX then Some (QDB_ERR_INVAL, out_msg, db, w)
          else (case db_state db of
              None \<Rightarrow> None
            | Some st \<Rightarrow>
                (case qdb__queue_get st (take qlen queue) of
                   None \<Rightarrow> Some (QDB_ERR_EMPTY, out_msg, db, w)
                 | Some q \<Rightarrow>
                     if q_pending_count q = 0 \<or> q_pending_head q = 0 then Some (QDB_ERR_EMPTY, out_msg, db, w)
                     else (case qdb__msg_get st (q_pending_head q) of
                         None \<Rightarrow> Some (QDB_ERR_CORRUPT, out_msg, db, w)
                       | Some m \<Rightarrow>
                           let (rc, out', db', w') = do_pop w db st (take qlen queue) m out
                           in Some (rc, Some out', db', w'))))
      | _ \<Rightarrow> Some (QDB_ERR_INVAL, out_msg, db, w))"

definition qdb_pop :: "world \<Rightarrow> db option \<Rightarrow> bytes option \<Rightarrow> qdb_msg_t option \<Rightarrow> (int \<times> qdb_msg_t option \<times> db option \<times> world) option" where
  "qdb_pop w db queue out_msg =
     (case db of
        None \<Rightarrow> Some (QDB_ERR_INVAL, out_msg, None, w)
      | Some db \<Rightarrow> map_option (\<lambda>(rc, out', db', w'). (rc, out', Some db', w')) (pop_db w db queue out_msg))"

text \<open>The scan over all queues for the smallest head; \<open>best\<close> is the queue and the message found so far.\<close>

fun pop_any_scan :: "qdb__state \<Rightarrow> qdb__queue list \<Rightarrow> u64 \<Rightarrow> (bytes \<times> qdb__msg) option \<Rightarrow> int + (bytes \<times> qdb__msg) option" where
  "pop_any_scan st [] best_id best = Inr best"
| "pop_any_scan st (q # qs) best_id best =
     (if q_pending_count q > 0 \<and> q_pending_head q \<noteq> 0 then
        (case qdb__msg_get st (q_pending_head q) of
           None \<Rightarrow> Inl QDB_ERR_CORRUPT
         | Some m \<Rightarrow>
             if m_id m < best_id then pop_any_scan st qs (m_id m) (Some (q_name q, m))
             else pop_any_scan st qs best_id best)
      else pop_any_scan st qs best_id best)"

definition pop_any_db :: "world \<Rightarrow> db \<Rightarrow> qdb_msg_t option \<Rightarrow> (int \<times> qdb_msg_t option \<times> db \<times> world) option" where
  "pop_any_db w db out_msg =
     (case out_msg of
        None \<Rightarrow> Some (QDB_ERR_INVAL, out_msg, db, w)
      | Some out \<Rightarrow>
          (case db_state db of
             None \<Rightarrow> None
           | Some st \<Rightarrow>
               (case pop_any_scan st (queue_nodes st) (-1) None of
                  Inl rc \<Rightarrow> Some (rc, out_msg, db, w)
                | Inr None \<Rightarrow> Some (QDB_ERR_EMPTY, out_msg, db, w)
                | Inr (Some (q, m)) \<Rightarrow>
                    let (rc, out', db', w') = do_pop w db st q m out
                    in Some (rc, Some out', db', w'))))"

definition qdb_pop_any :: "world \<Rightarrow> db option \<Rightarrow> qdb_msg_t option \<Rightarrow> (int \<times> qdb_msg_t option \<times> db option \<times> world) option" where
  "qdb_pop_any w db out_msg =
     (case db of
        None \<Rightarrow> Some (QDB_ERR_INVAL, out_msg, None, w)
      | Some db \<Rightarrow> map_option (\<lambda>(rc, out', db', w'). (rc, out', Some db', w')) (pop_any_db w db out_msg))"

section \<open>Acknowledge and return\<close>

definition ack_db :: "world \<Rightarrow> db \<Rightarrow> u64 \<Rightarrow> u64 \<Rightarrow> (int \<times> db \<times> world) option" where
  "ack_db w db msg_id lease_id =
     (case db_state db of
        None \<Rightarrow> None
      | Some st \<Rightarrow>
        (case qdb__msg_get st msg_id of
           None \<Rightarrow> Some (QDB_ERR_NOENT, db, w)
         | Some m \<Rightarrow>
             if m_state m = QDB_MSG_STATE_ACKED then Some (QDB_ERR_NOENT, db, w)
             else if m_state m \<noteq> QDB_MSG_STATE_LEASED then Some (QDB_ERR_NOENT, db, w)
             else if m_lease_id m \<noteq> lease_id then Some (QDB_ERR_INVAL, db, w)
             else let ack_buf = qdb__put_u64le msg_id @ qdb__put_u64le lease_id;
                      (rc, new_end, w1) = qdb__append_record w (db_fd db) QDB_RT_MSG_ACK ack_buf
                                            (of_nat QDB_PAYLOAD_ACK_SIZE) (db_log_end_offset db)
             in if rc \<noteq> QDB_OK then Some (rc, db, w1)
             else let db1 = db\<lparr>db_log_end_offset := new_end\<rparr>;
                      (rc, w2) = qdb__header_update w1 (db_fd db1) db1
             in if rc \<noteq> QDB_OK then Some (QDB_ERR_IO, db1, w2)
             else let st1 = (case qdb__queue_get st (m_queue_name m) of
                               Some q \<Rightarrow> queue_upd st (m_queue_name m)
                                 (\<lambda>q. q\<lparr>q_leased_count := q_leased_count q - 1, q_acked_count := q_acked_count q + 1\<rparr>)
                             | None \<Rightarrow> st);
                      st2 = qdb__lease_remove st1 lease_id;
                      st3 = msg_upd st2 msg_id (\<lambda>m. m\<lparr>m_state := QDB_MSG_STATE_ACKED, m_lease_id := 0,
                              m_lease_expiry_us := 0\<rparr>)
             in Some (QDB_OK, db1\<lparr>db_state := Some st3\<rparr>, w2)))"

definition qdb_ack :: "world \<Rightarrow> db option \<Rightarrow> u64 \<Rightarrow> u64 \<Rightarrow> (int \<times> db option \<times> world) option" where
  "qdb_ack w db msg_id lease_id =
     (case db of
        None \<Rightarrow> Some (QDB_ERR_INVAL, None, w)
      | Some db \<Rightarrow> map_option (\<lambda>(rc, db', w'). (rc, Some db', w')) (ack_db w db msg_id lease_id))"

text \<open>The in-memory part shared by \<open>qdb_nack\<close> and \<open>expire_one\<close>, statement by statement.\<close>

definition return_msg :: "qdb__state \<Rightarrow> qdb__msg \<Rightarrow> u64 \<Rightarrow> u64 \<Rightarrow> qdb__state" where
  "return_msg st m msg_id lease_id =
     (let q = qdb__queue_get st (m_queue_name m);
          st1 = qdb__lease_remove st lease_id;
          st2 = msg_upd st1 msg_id (\<lambda>m. m\<lparr>m_state := QDB_MSG_STATE_PENDING, m_lease_id := 0,
                  m_lease_expiry_us := 0, m_retry_count := m_retry_count m + 1\<rparr>)
      in case q of
           Some _ \<Rightarrow>
             let st3 = queue_upd st2 (m_queue_name m) (\<lambda>q. q\<lparr>q_leased_count := q_leased_count q - 1\<rparr>)
             in qdb__queue_pending_append st3 (m_queue_name m) msg_id
         | None \<Rightarrow> st2)"

definition nack_db :: "world \<Rightarrow> db \<Rightarrow> u64 \<Rightarrow> u64 \<Rightarrow> (int \<times> db \<times> world) option" where
  "nack_db w db msg_id lease_id =
     (case db_state db of
        None \<Rightarrow> None
      | Some st \<Rightarrow>
        (case qdb__msg_get st msg_id of
           None \<Rightarrow> Some (QDB_ERR_NOENT, db, w)
         | Some m \<Rightarrow>
             if m_state m = QDB_MSG_STATE_ACKED then Some (QDB_ERR_NOENT, db, w)
             else if m_state m \<noteq> QDB_MSG_STATE_LEASED then Some (QDB_ERR_NOENT, db, w)
             else if m_lease_id m \<noteq> lease_id then Some (QDB_ERR_INVAL, db, w)
             else let nack_buf = qdb__put_u64le msg_id @ qdb__put_u64le lease_id;
                      (rc, new_end, w1) = qdb__append_record w (db_fd db) QDB_RT_MSG_NACK nack_buf
                                            (of_nat QDB_PAYLOAD_NACK_SIZE) (db_log_end_offset db)
             in if rc \<noteq> QDB_OK then Some (rc, db, w1)
             else let db1 = db\<lparr>db_log_end_offset := new_end\<rparr>;
                      (rc, w2) = qdb__header_update w1 (db_fd db1) db1
             in if rc \<noteq> QDB_OK then Some (QDB_ERR_IO, db1, w2)
             else Some (QDB_OK, db1\<lparr>db_state := Some (return_msg st m msg_id lease_id)\<rparr>, w2)))"

definition qdb_nack :: "world \<Rightarrow> db option \<Rightarrow> u64 \<Rightarrow> u64 \<Rightarrow> (int \<times> db option \<times> world) option" where
  "qdb_nack w db msg_id lease_id =
     (case db of
        None \<Rightarrow> Some (QDB_ERR_INVAL, None, w)
      | Some db \<Rightarrow> map_option (\<lambda>(rc, db', w'). (rc, Some db', w')) (nack_db w db msg_id lease_id))"

section \<open>Expiry\<close>

definition expire_one :: "world \<Rightarrow> db \<Rightarrow> u64 \<Rightarrow> u64 \<Rightarrow> (int \<times> db \<times> world) option" where
  "expire_one w db lease_id msg_id =
     (case db_state db of
        None \<Rightarrow> None
      | Some st \<Rightarrow>
        (case qdb__msg_get st msg_id of
           None \<Rightarrow> Some (0, db, w)
         | Some m \<Rightarrow>
             if m_state m \<noteq> QDB_MSG_STATE_LEASED \<or> m_lease_id m \<noteq> lease_id then Some (0, db, w)
             else let buf = qdb__put_u64le msg_id @ qdb__put_u64le lease_id;
                      (rc, new_end, w1) = qdb__append_record w (db_fd db) QDB_RT_MSG_EXPIRE buf
                                            (of_nat QDB_PAYLOAD_EXPIRE_SIZE) (db_log_end_offset db)
             in if rc \<noteq> QDB_OK then Some (rc, db, w1)
             else let db1 = db\<lparr>db_log_end_offset := new_end\<rparr>;
                      (rc, w2) = qdb__header_update w1 (db_fd db1) db1
             in if rc \<noteq> QDB_OK then Some (QDB_ERR_IO, db1, w2)
             else Some (0, db1\<lparr>db_state := Some (return_msg st m msg_id lease_id)\<rparr>, w2)))"

text \<open>
  The walk along one bucket.  The next pointer is read before the node may be freed, and expiring
  a lease unlinks no other node, so the nodes visited are those of the chain on entry.  The integer
  returned is the code of the failing \<open>expire_one\<close>, or the count so far.
\<close>

text \<open>
  The count is a 32-bit \<open>int\<close>.  Its overflow, undefined in C, is two's complement here; the results on
  the count exclude it.
\<close>

definition int_inc :: "int \<Rightarrow> int" where
  "int_inc n = signed_take_bit 31 (n + 1)"

fun expire_chain :: "world \<Rightarrow> db \<Rightarrow> u64 \<Rightarrow> qdb__lease list \<Rightarrow> int \<Rightarrow> (int \<times> bool \<times> db \<times> world) option" where
  "expire_chain w db now_us [] processed = Some (processed, True, db, w)"
| "expire_chain w db now_us (l # ls) processed =
     (if l_expiry_us l < now_us then
        (case expire_one w db (l_lease_id l) (l_msg_id l) of
           None \<Rightarrow> None
         | Some (rc, db1, w1) \<Rightarrow>
             if rc \<noteq> QDB_OK then Some (rc, False, db1, w1)
             else expire_chain w1 db1 now_us ls (int_inc processed))
      else expire_chain w db now_us ls processed)"

fun expire_buckets :: "world \<Rightarrow> db \<Rightarrow> u64 \<Rightarrow> nat list \<Rightarrow> int \<Rightarrow> (int \<times> db \<times> world) option" where
  "expire_buckets w db now_us [] processed = Some (processed, db, w)"
| "expire_buckets w db now_us (b # bs) processed =
     (case db_state db of
        None \<Rightarrow> None
      | Some st \<Rightarrow>
          (case expire_chain w db now_us (lease_buckets st (of_nat b)) processed of
             None \<Rightarrow> None
           | Some (rc, go, db1, w1) \<Rightarrow>
               if go then expire_buckets w1 db1 now_us bs rc else Some (rc, db1, w1)))"

definition qdb_process_expired_leases :: "world \<Rightarrow> db option \<Rightarrow> (int \<times> db option \<times> world) option" where
  "qdb_process_expired_leases w db =
     (case db of
        None \<Rightarrow> Some (QDB_ERR_INVAL, None, w)
      | Some db \<Rightarrow>
          map_option (\<lambda>(rc, db', w'). (rc, Some db', w'))
            (expire_buckets w db (qdb__time_us w) [0..<QDB__LEASE_BUCKETS] 0))"

end
