(* ===== verification/Lifecycle.thy ===== *)
theory Lifecycle
  imports Ops
begin

text \<open>
  Opening and closing a database (\<^verbatim>\<open>src/qdb.c\<close>): lock, header, left-over WAL, truncation, validation
  and replay of the log.  A path is the string up to its terminator.  The pointer \<open>out_err\<close> is the
  second component of the result; a NULL handle is \<open>None\<close>.
\<close>

section \<open>Constants and options\<close>

abbreviation (input) QDB_WAL_OFF_MAGIC :: nat where "QDB_WAL_OFF_MAGIC \<equiv> 0"
abbreviation (input) QDB_WAL_OFF_VERSION :: nat where "QDB_WAL_OFF_VERSION \<equiv> 8"
abbreviation (input) QDB_WAL_OFF_CRC32 :: nat where "QDB_WAL_OFF_CRC32 \<equiv> 20"
abbreviation (input) QDB_WAL_HDR_SIZE :: nat where "QDB_WAL_HDR_SIZE \<equiv> 64"
abbreviation (input) QDB_WAL_HDR_CRC_COVER :: nat where "QDB_WAL_HDR_CRC_COVER \<equiv> 20"

definition s_wal_magic :: bytes where
  "s_wal_magic = [0x51, 0x44, 0x42, 0x57, 0x41, 0x4C, 0x00, 0x00]"

record qdb_open_opts_t =
  lease_timeout_s :: u32

section \<open>Helpers\<close>

definition qdb__free_db :: "world \<Rightarrow> db option \<Rightarrow> world" where
  "qdb__free_db w db =
     (case db of
        None \<Rightarrow> w
      | Some db \<Rightarrow>
          let w1 = (if db_fd db \<noteq> QDB__INVALID_FD then qdb__file_close w (db_fd db) else w)
          in if db_lock_fd db \<noteq> QDB__INVALID_FD
             then qdb__file_close (qdb__file_unlock w1 (db_lock_fd db)) (db_lock_fd db) else w1)"

definition make_sidecar :: "world \<Rightarrow> string \<Rightarrow> string \<Rightarrow> string option \<times> world" where
  "make_sidecar w base suffix =
     (let (ok, w1) = heap_alloc w in (if ok then Some (base @ suffix) else None, w1))"

section \<open>The WAL\<close>

text \<open>
  The loop over the WAL records.  Every exit closes the WAL descriptor, so the caller does; the code
  is \<open>QDB_OK\<close> when the loop ends or breaks off at a torn record.
\<close>

function wal_loop :: "world \<Rightarrow> db \<Rightarrow> int \<Rightarrow> u64 \<Rightarrow> u64 \<Rightarrow> int \<times> db \<times> world" where
  "wal_loop w db wal_fd wal_size wal_offset =
     (if wal_offset < wal_size then
        let rec_start = wal_offset;
            (rc, type, plen, wal_offset1, w1) = qdb__scan_record w wal_fd wal_offset wal_size
        in if rc = QDB__SCAN_END \<or> rc = QDB__SCAN_PARTIAL then (QDB_OK, db, w1)
           else if rc \<noteq> QDB_OK then (rc, db, w1)
           else let (rc, payload, w2) =
                  (if plen > 0 then
                     let (ok, w1a) = heap_alloc w1
                     in if \<not> ok then (QDB_ERR_NOMEM, [], w1a)
                        else qdb__read_payload w1a wal_fd (rec_start + of_nat QDB_REC_HDR_SIZE) plen
                   else (QDB_OK, [], w1))
           in if rc \<noteq> QDB_OK then (rc, db, w2)
           else let (rc, log_end, w3) = qdb__append_record w2 (db_fd db) type payload plen (db_log_end_offset db);
                    db1 = db\<lparr>db_log_end_offset := log_end\<rparr>
           in if rc \<noteq> QDB_OK then (rc, db1, w3)
              else wal_loop w3 db1 wal_fd wal_size wal_offset1
      else (QDB_OK, db, w))"
  by pat_completeness auto
termination
proof (relation "measure (\<lambda>(w, db, wal_fd, wal_size, wal_offset). unat wal_size - unat wal_offset)", goal_cases)
  case (2 w db wal_fd wal_size wal_offset rec_start x rc x1 type x2 plen x3 wal_offset1 w1)
  then have sc: "qdb__scan_record w wal_fd wal_offset wal_size = (QDB_OK, type, plen, wal_offset1, w1)"
    by simp
  with scan_record_spec [OF sc] 2(1) show ?case by (auto simp: word_le_nat_alt word_less_nat_alt)
qed simp

declare wal_loop.simps [simp del]

text \<open>The checks of the WAL header: magic, checksum, version.\<close>

definition wal_header_ok :: "bytes \<Rightarrow> bool" where
  "wal_header_ok hdr \<longleftrightarrow> take 8 (drop QDB_WAL_OFF_MAGIC hdr) = s_wal_magic \<and>
     qdb__get_u32le (drop QDB_WAL_OFF_CRC32 hdr) = crc_of (take QDB_WAL_HDR_CRC_COVER hdr) \<and>
     (let ver = qdb__get_u32le (drop QDB_WAL_OFF_VERSION hdr) in \<not> (ver < 1 \<or> ver > QDB_MAX_FORMAT_VERSION))"

definition replay_wal :: "world \<Rightarrow> db \<Rightarrow> int \<times> db \<times> world" where
  "replay_wal w db =
     (let (rc, wal_fd, _, w1) = qdb__file_open w (db_wal_path db) False in
      if rc \<noteq> QDB_OK then (QDB_OK, db, w1)
      else let (rc, wal_size, w2) = qdb__file_size w1 wal_fd in
      if rc \<noteq> QDB_OK \<or> wal_size < of_nat QDB_WAL_HDR_SIZE then
        let (_, w3) = qdb__file_delete (qdb__file_close w2 wal_fd) (db_wal_path db) in (QDB_OK, db, w3)
      else let (rc, hdr, w3) = qdb__read_full w2 wal_fd QDB_WAL_HDR_SIZE 0 in
      if rc \<noteq> QDB_OK then (QDB_ERR_IO, db, qdb__file_close w3 wal_fd)
      else if \<not> wal_header_ok hdr then (QDB_ERR_CORRUPT, db, qdb__file_close w3 wal_fd)
      else let (rc, db1, w4) = wal_loop w3 db wal_fd wal_size (of_nat QDB_WAL_HDR_SIZE);
               w5 = qdb__file_close w4 wal_fd in
      if rc \<noteq> QDB_OK then (rc, db1, w5)
      else let db2 = db1\<lparr>db_flags := db_flags db1 AND NOT QDB_FLAG_WAL_PRESENT\<rparr>;
               (rc, w6) = qdb__header_update w5 (db_fd db2) db2 in
      if rc \<noteq> QDB_OK then (QDB_ERR_IO, db2, w6)
      else let (_, w7) = qdb__file_delete w6 (db_wal_path db2) in (QDB_OK, db2, w7))"

section \<open>Validation of the log\<close>

text \<open>The loop; the boolean is \<open>need_update\<close>.\<close>

function validate_loop :: "world \<Rightarrow> db \<Rightarrow> u64 \<Rightarrow> int \<times> bool \<times> db \<times> world" where
  "validate_loop w db offset =
     (if offset < db_log_end_offset db then
        let (rc, type, plen, offset1, w1) = qdb__scan_record w (db_fd db) offset (db_log_end_offset db)
        in if rc = QDB__SCAN_END then (QDB_OK, False, db, w1)
           else if rc = QDB__SCAN_PARTIAL then
             let (rc, w2) = qdb__file_truncate w1 (db_fd db) offset1
             in if rc \<noteq> QDB_OK then (QDB_ERR_IO, False, db, w2)
                else (QDB_OK, True, db\<lparr>db_log_end_offset := offset1\<rparr>, w2)
           else if rc \<noteq> QDB_OK then (rc, False, db, w1)
           else validate_loop w1 db offset1
      else (QDB_OK, False, db, w))"
  by pat_completeness auto
termination
proof (relation "measure (\<lambda>(w, db, offset). unat (db_log_end_offset db) - unat offset)", goal_cases)
  case (2 w db offset x rc x1 type x2 plen x3 offset1 w1)
  then have sc: "qdb__scan_record w (db_fd db) offset (db_log_end_offset db) = (QDB_OK, type, plen, offset1, w1)"
    by simp
  with scan_record_spec [OF sc] 2(1) show ?case by (auto simp: word_le_nat_alt word_less_nat_alt)
qed simp

declare validate_loop.simps [simp del]

definition validate_log :: "world \<Rightarrow> db \<Rightarrow> int \<times> db \<times> world" where
  "validate_log w db =
     (let (rc, need_update, db1, w1) = validate_loop w db (db_log_start_offset db) in
      if rc \<noteq> QDB_OK then (rc, db1, w1)
      else if need_update then let (rc, w2) = qdb__header_update w1 (db_fd db1) db1 in (rc, db1, w2)
      else (QDB_OK, db1, w1))"

section \<open>Open\<close>

definition open_fail :: "world \<Rightarrow> db \<Rightarrow> int \<Rightarrow> db option \<times> int \<times> world" where
  "open_fail w db e = (None, e, qdb__free_db w (Some db))"

text \<open>A new file.\<close>

definition open_new :: "world \<Rightarrow> db \<Rightarrow> db option \<times> int \<times> world" where
  "open_new w db =
     (let db1 = db\<lparr>db_next_msg_id := 1, db_next_lease_id := 1, db_log_start_offset := of_nat QDB_HDR_SIZE,
                db_log_end_offset := of_nat QDB_HDR_SIZE, db_create_time_us := qdb__time_us w,
                db_flags := QDB_FLAG_DIRTY\<rparr>;
          (rc, w1) = qdb__header_write w (db_fd db1) db1 in
      if rc \<noteq> QDB_OK then open_fail w1 db1 QDB_ERR_IO
      else let (st, w2) = qdb__state_alloc w1 in
      case st of None \<Rightarrow> open_fail w2 db1 QDB_ERR_NOMEM
      | Some st \<Rightarrow> (Some (db1\<lparr>db_state := Some st\<rparr>), QDB_OK, w2))"

text \<open>Step 5: cut off what was written past the log end.\<close>

definition trim_tail :: "world \<Rightarrow> db \<Rightarrow> int \<times> world" where
  "trim_tail w db =
     (let (rc, file_sz, w1) = qdb__file_size w (db_fd db) in
      if rc \<noteq> QDB_OK then (rc, w1)
      else if file_sz > db_log_end_offset db then qdb__file_truncate w1 (db_fd db) (db_log_end_offset db)
      else (QDB_OK, w1))"

text \<open>
  Steps 3 to 8, from the header to the final header patch.  The handle is returned as the step that
  failed left it.  \<open>qdb__reopen_after_compact\<close> repeats the same steps.
\<close>

definition load_existing :: "world \<Rightarrow> db \<Rightarrow> int \<times> db \<times> world" where
  "load_existing w db =
     (let (rc, db1, w1) = qdb__header_read w (db_fd db) db in
      if rc \<noteq> QDB_OK then (rc, db1, w1)
      else let db2 = db1\<lparr>db_next_lease_id := 1\<rparr>;
               (rc, db3, w2) =
                 (if db_flags db2 AND QDB_FLAG_WAL_PRESENT \<noteq> 0 \<or> db_flags db2 AND QDB_FLAG_DIRTY \<noteq> 0
                  then replay_wal w1 db2 else (QDB_OK, db2, w1)) in
      if rc \<noteq> QDB_OK then (rc, db3, w2)
      else let (rc, w3) = trim_tail w2 db3 in
      if rc \<noteq> QDB_OK then (rc, db3, w3)
      else let (rc, db4, w4) = validate_log w3 db3 in
      if rc \<noteq> QDB_OK then (rc, db4, w4)
      else let (rc, db5, w5) = qdb__replay_log w4 db4 in
      if rc \<noteq> QDB_OK then (rc, db5, w5)
      else let db6 = db5\<lparr>db_flags := db_flags db5 OR QDB_FLAG_DIRTY\<rparr>;
               (rc, w6) = qdb__header_update w5 (db_fd db6) db6 in
      if rc \<noteq> QDB_OK then (rc, db6, w6)
      else (QDB_OK, db6, w6))"

definition open_existing :: "world \<Rightarrow> db \<Rightarrow> db option \<times> int \<times> world" where
  "open_existing w db =
     (let (rc, db', w') = load_existing w db in
      if rc \<noteq> QDB_OK then open_fail w' db' rc else (Some db', QDB_OK, w'))"

definition qdb_open_err :: "world \<Rightarrow> string option \<Rightarrow> qdb_open_opts_t option \<Rightarrow> db option \<times> int \<times> world" where
  "qdb_open_err w path opts =
     (case path of
        None \<Rightarrow> (None, QDB_ERR_INVAL, w)
      | Some path \<Rightarrow>
        let (ok, w) = heap_alloc w in
        if \<not> ok then (None, QDB_ERR_NOMEM, w)
        else let lease_timeout_us =
                   (case opts of
                      Some os \<Rightarrow> if lease_timeout_s os \<noteq> 0 then ucast (lease_timeout_s os) * 1000000 else QDB_DEFAULT_LEASE_US
                    | None \<Rightarrow> QDB_DEFAULT_LEASE_US);
                 (p, w) = make_sidecar w path '''';
                 (wal, w) = make_sidecar w path ''-wal'';
                 (lock, w) = make_sidecar w path ''-lock'' in
        if p = None \<or> wal = None \<or> lock = None then (None, QDB_ERR_NOMEM, w)
        else let db = \<lparr>db_fd = QDB__INVALID_FD, db_lock_fd = QDB__INVALID_FD, db_path = the p, db_wal_path = the wal,
                   db_lock_path = the lock, db_next_msg_id = 0, db_next_lease_id = 0, db_log_start_offset = 0,
                   db_log_end_offset = 0, db_create_time_us = 0, db_flags = 0, db_lease_timeout_us = lease_timeout_us,
                   db_state = None\<rparr>;
                 (rc, lock_fd, w) = qdb__lockfile_open w (db_lock_path db);
                 db = db\<lparr>db_lock_fd := lock_fd\<rparr> in
        if rc \<noteq> QDB_OK then open_fail w db rc
        else let (rc, w) = qdb__file_lock w (db_lock_fd db) in
        if rc \<noteq> QDB_OK then
          open_fail (qdb__file_close w (db_lock_fd db)) (db\<lparr>db_lock_fd := QDB__INVALID_FD\<rparr>) rc
        else let (stale, w) = make_sidecar w path ''-compact'';
                 w = (case stale of Some stale \<Rightarrow> snd (qdb__file_delete w stale) | None \<Rightarrow> w);
                 (rc, fd, is_new, w) = qdb__file_open w (db_path db) True;
                 db = db\<lparr>db_fd := fd\<rparr> in
        if rc \<noteq> QDB_OK then open_fail w db rc
        else if is_new then open_new w db else open_existing w db)"

definition qdb_open_ex :: "world \<Rightarrow> string option \<Rightarrow> qdb_open_opts_t option \<Rightarrow> db option \<times> world" where
  "qdb_open_ex w path opts = (let (db, _, w1) = qdb_open_err w path opts in (db, w1))"

definition qdb_open :: "world \<Rightarrow> string option \<Rightarrow> db option \<times> world" where
  "qdb_open w path = (let (db, _, w1) = qdb_open_err w path None in (db, w1))"

section \<open>Close\<close>

definition qdb_close :: "world \<Rightarrow> db option \<Rightarrow> world" where
  "qdb_close w db =
     (case db of
        None \<Rightarrow> w
      | Some db \<Rightarrow>
          if db_fd db \<noteq> QDB__INVALID_FD then
            let db1 = db\<lparr>db_flags := db_flags db AND NOT (QDB_FLAG_DIRTY OR QDB_FLAG_WAL_PRESENT)\<rparr>;
                (_, w1) = qdb__header_update w (db_fd db1) db1
            in qdb__free_db w1 (Some db1)
          else qdb__free_db w (Some db))"

end
