(* ===== verification/Compact.thy ===== *)
theory Compact
  imports Lifecycle
begin

text \<open>
  Compaction (\<^verbatim>\<open>src/qdb.c\<close>): every message that is not acknowledged is copied to a staging file,
  which then replaces the database.  The walk along a pending list follows the links of the
  messages, which may form a cycle in a damaged state: it is an option-valued partial function whose
  value is \<open>None\<close> when it does not return.
\<close>

section \<open>Copying records\<close>

definition compact_write_push :: "world \<Rightarrow> int \<Rightarrow> int \<Rightarrow> qdb__msg \<Rightarrow> u64 \<Rightarrow> int \<times> u64 \<times> world" where
  "compact_write_push w src_fd dst_fd m offset =
     (let plen = of_nat QDB_PUSH_HDR_SIZE + of_nat (length (m_queue_name m)) + m_data_len m :: u32;
          (ok, w1) = heap_alloc w in
      if \<not> ok then (QDB_ERR_NOMEM, offset, w1)
      else let (rc, data, w2) =
             (if m_data_len m > 0 then qdb__read_full w1 src_fd (unat (m_data_len m)) (m_data_file_offset m)
              else (QDB_OK, [], w1)) in
      if rc \<noteq> QDB_OK then (rc, offset, w2)
      else let buf = qdb__put_u64le (m_id m) @ [of_nat (length (m_queue_name m))] @ m_queue_name m @ data in
      qdb__append_record w2 dst_fd QDB_RT_MSG_PUSH buf plen offset)"

definition compact_write_lease :: "world \<Rightarrow> int \<Rightarrow> qdb__msg \<Rightarrow> u64 \<Rightarrow> int \<times> u64 \<times> world" where
  "compact_write_lease w dst_fd m offset =
     qdb__append_record w dst_fd QDB_RT_MSG_LEASE
       (qdb__put_u64le (m_id m) @ qdb__put_u64le (m_lease_expiry_us m) @ qdb__put_u64le (m_lease_id m))
       (of_nat QDB_PAYLOAD_LEASE_SIZE) offset"

definition compact_write_checkpoint :: "world \<Rightarrow> int \<Rightarrow> db \<Rightarrow> u64 \<Rightarrow> int \<times> u64 \<times> world" where
  "compact_write_checkpoint w dst_fd db offset =
     qdb__append_record w dst_fd QDB_RT_CHECKPOINT
       (qdb__put_u64le (qdb__time_us w) @ qdb__put_u64le (db_next_msg_id db) @ qdb__put_u64le (db_next_lease_id db))
       (of_nat QDB_PAYLOAD_CHECKPOINT_SIZE) offset"

section \<open>The two loops\<close>

text \<open>The pending list of one queue from \<open>m_id\<close> on, and all queues.\<close>

partial_function (option) compact_chain ::
  "world \<Rightarrow> int \<Rightarrow> int \<Rightarrow> qdb__state \<Rightarrow> u64 \<Rightarrow> u64 \<Rightarrow> (int \<times> u64 \<times> world) option" where
  "compact_chain w src_fd dst_fd st mid compact_end =
     (if mid \<noteq> 0 then
        (case qdb__msg_get st mid of
           None \<Rightarrow> Some (QDB_ERR_CORRUPT, compact_end, w)
         | Some m \<Rightarrow>
             (case compact_write_push w src_fd dst_fd m compact_end of
                (rc, end1, w1) \<Rightarrow>
                  if rc \<noteq> QDB_OK then Some (rc, end1, w1)
                  else compact_chain w1 src_fd dst_fd st (m_next_pending m) end1))
      else Some (QDB_OK, compact_end, w))"

declare compact_chain.simps [code]

fun compact_pending ::
  "world \<Rightarrow> int \<Rightarrow> int \<Rightarrow> qdb__state \<Rightarrow> qdb__queue list \<Rightarrow> u64 \<Rightarrow> (int \<times> u64 \<times> world) option" where
  "compact_pending w src_fd dst_fd st [] compact_end = Some (QDB_OK, compact_end, w)"
| "compact_pending w src_fd dst_fd st (q # qs) compact_end =
     (case compact_chain w src_fd dst_fd st (q_pending_head q) compact_end of
        None \<Rightarrow> None
      | Some (rc, end1, w1) \<Rightarrow>
          if rc \<noteq> QDB_OK then Some (rc, end1, w1) else compact_pending w1 src_fd dst_fd st qs end1)"

fun compact_leased :: "world \<Rightarrow> int \<Rightarrow> int \<Rightarrow> qdb__state \<Rightarrow> qdb__lease list \<Rightarrow> u64 \<Rightarrow> int \<times> u64 \<times> world" where
  "compact_leased w src_fd dst_fd st [] compact_end = (QDB_OK, compact_end, w)"
| "compact_leased w src_fd dst_fd st (l # ls) compact_end =
     (case qdb__msg_get st (l_msg_id l) of
        None \<Rightarrow> (QDB_ERR_CORRUPT, compact_end, w)
      | Some m \<Rightarrow>
          let (rc, end1, w1) = compact_write_push w src_fd dst_fd m compact_end in
          if rc \<noteq> QDB_OK then (rc, end1, w1)
          else let (rc, end2, w2) = compact_write_lease w1 dst_fd m end1 in
          if rc \<noteq> QDB_OK then (rc, end2, w2)
          else compact_leased w2 src_fd dst_fd st ls end2)"

text \<open>From the initial header of the staging file to its final sync.\<close>

definition compact_fill :: "world \<Rightarrow> db \<Rightarrow> int \<Rightarrow> (int \<times> world) option" where
  "compact_fill w db compact_fd =
     (let cmeta = \<lparr>db_fd = 0, db_lock_fd = 0, db_path = [], db_wal_path = [], db_lock_path = [],
             db_next_msg_id = db_next_msg_id db, db_next_lease_id = db_next_lease_id db,
             db_log_start_offset = of_nat QDB_HDR_SIZE, db_log_end_offset = of_nat QDB_HDR_SIZE,
             db_create_time_us = db_create_time_us db, db_flags = QDB_FLAG_DIRTY, db_lease_timeout_us = 0,
             db_state = None\<rparr> :: db;
          (rc, w1) = qdb__header_write w compact_fd cmeta in
      if rc \<noteq> QDB_OK then Some (rc, w1)
      else (case db_state db of
          None \<Rightarrow> None
        | Some st \<Rightarrow>
            (case compact_pending w1 (db_fd db) compact_fd st (queue_nodes st) (of_nat QDB_HDR_SIZE) of
               None \<Rightarrow> None
             | Some (rc, end1, w2) \<Rightarrow>
                 if rc \<noteq> QDB_OK then Some (rc, w2)
                 else let (rc, end2, w3) = compact_leased w2 (db_fd db) compact_fd st (lease_nodes st) end1 in
                 if rc \<noteq> QDB_OK then Some (rc, w3)
                 else let (rc, end3, w4) = compact_write_checkpoint w3 compact_fd db end2 in
                 if rc \<noteq> QDB_OK then Some (rc, w4)
                 else let (rc, w5) = qdb__header_update w4 compact_fd (cmeta\<lparr>db_log_end_offset := end3\<rparr>) in
                 if rc \<noteq> QDB_OK then Some (rc, w5)
                 else Some (qdb__file_sync w5 compact_fd))))"

section \<open>Reopening\<close>

definition qdb__reopen_after_compact :: "world \<Rightarrow> db \<Rightarrow> int \<times> db \<times> world" where
  "qdb__reopen_after_compact w db =
     (let (w1, db1) = (if db_fd db \<noteq> QDB__INVALID_FD then (qdb__file_close w (db_fd db), db\<lparr>db_fd := QDB__INVALID_FD\<rparr>)
                       else (w, db));
          (rc, fd, _, w2) = qdb__file_open w1 (db_path db1) False;
          db2 = db1\<lparr>db_fd := fd\<rparr>;
          (rc, db3, w3) = (if rc \<noteq> QDB_OK then (rc, db2, w2) else load_existing w2 db2) in
      if rc \<noteq> QDB_OK then
        let (w4, db4) = (if db_fd db3 \<noteq> QDB__INVALID_FD then (qdb__file_close w3 (db_fd db3), db3\<lparr>db_fd := QDB__INVALID_FD\<rparr>)
                         else (w3, db3))
        in (rc, db4\<lparr>db_state := None\<rparr>, w4)
      else (QDB_OK, db3, w3))"

section \<open>Compaction\<close>

definition compact_db :: "world \<Rightarrow> db \<Rightarrow> (int \<times> db \<times> world) option" where
  "compact_db w db =
     (let (path, w1) = make_sidecar w (db_path db) ''-compact'' in
      case path of
        None \<Rightarrow> Some (QDB_ERR_NOMEM, db, w1)
      | Some compact_path \<Rightarrow>
          let (_, w2) = qdb__file_delete w1 compact_path;
              (rc, compact_fd, _, w3) = qdb__file_open w2 compact_path True in
          if rc \<noteq> QDB_OK then Some (rc, db, snd (qdb__file_delete w3 compact_path))
          else (case compact_fill w3 db compact_fd of
              None \<Rightarrow> None
            | Some (rc, w4) \<Rightarrow>
                let w5 = qdb__file_close w4 compact_fd in
                if rc \<noteq> QDB_OK then Some (rc, db, snd (qdb__file_delete w5 compact_path))
                else let (rc, w6) = qdb__file_rename w5 compact_path (db_path db) in
                if rc \<noteq> QDB_OK then Some (rc, db, snd (qdb__file_delete w6 compact_path))
                else Some (qdb__reopen_after_compact w6 db)))"

definition qdb_compact :: "world \<Rightarrow> db option \<Rightarrow> (int \<times> db option \<times> world) option" where
  "qdb_compact w db =
     (case db of
        None \<Rightarrow> Some (QDB_ERR_INVAL, None, w)
      | Some db \<Rightarrow> map_option (\<lambda>(rc, db', w'). (rc, Some db', w')) (compact_db w db))"

end
