(* ===== verification/Durable.thy ===== *)
theory Durable
  imports Ops
begin

text \<open>
  The invariant that ties an open handle to its file: \<open>db_ok w db i rs st A\<close> says that the file
  (inode \<open>i\<close>) holds the header of the handle and the records \<open>rs\<close> from its log start to its log
  end, that replaying exactly these records yields the in-memory state \<open>st\<close> and the two counters of
  the handle, that \<open>st\<close> implements the specification state \<open>A\<close>, and that no content a crash can
  bring back differs below the log end.  Shown: appending a record and patching the header extends
  the log by that record and nothing else; a failed append keeps the invariant as it was; a failed
  header patch leaves the record in the log and the log end of the handle behind it (\<open>logged\<close>).
\<close>

section \<open>Logs and their replay\<close>

definition log_len :: "(u8 \<times> bytes) list \<Rightarrow> nat" where
  "log_len rs = sum_list (map (\<lambda>r. 10 + length (snd r)) rs)"

lemma log_len_simps [simp]: "log_len [] = 0" "log_len (r # rs) = 10 + length (snd r) + log_len rs"
  "log_len (rs @ rs') = log_len rs + log_len rs'"
  by (simp_all add: log_len_def)

lemma log_is_len: "log_is d a b rs \<Longrightarrow> b = a + log_len rs"
  by (induction rs arbitrary: a) force+

lemma rec_fold_append:
  "rec_fold off (rs @ rs') s =
     (case rec_fold off rs s of Inl c \<Rightarrow> Inl c | Inr s1 \<Rightarrow> rec_fold (off + of_nat (log_len rs)) rs' s1)"
  by (induction rs arbitrary: off s) (auto simp: add.assoc split: sum.split)

lemma log_is_same_slice:
  assumes "slice d' a (b - a) = slice d a (b - a)" and "b \<le> length d'" and "log_is d a b rs"
  shows "log_is d' a b rs"
  using assms(1,3)
proof (induction rs arbitrary: a)
  case (Cons r rs)
  let ?n = "10 + length (snd r)"
  have b: "a + ?n \<le> b" using Cons.prems(2) log_is_bounds by fastforce
  then have len: "b - a = ?n + (b - (a + ?n))" by simp
  have "slice d' a ?n @ slice d' (a + ?n) (b - (a + ?n)) = slice d a ?n @ slice d (a + ?n) (b - (a + ?n))"
    using Cons.prems(1) unfolding len slice_add .
  moreover have "b \<le> length d" using Cons.prems(2) log_is_bounds by blast
  then have "length (slice d' a ?n) = length (slice d a ?n)" using b assms(2) by simp
  ultimately have "slice d' a ?n = slice d a ?n" "slice d' (a + ?n) (b - (a + ?n)) = slice d (a + ?n) (b - (a + ?n))"
    by (auto simp del: length_slice)
  then show ?case using Cons by (simp add: add.assoc)
qed (use assms(2) in simp)

text \<open>The counter \<open>nm\<close> is beyond every message id and checkpoint of the records.\<close>

definition fresh :: "(u8 \<times> bytes) list \<Rightarrow> u64 \<Rightarrow> bool" where
  "fresh rs nm \<longleftrightarrow> (\<forall>r \<in> set rs. (fst r = QDB_RT_MSG_PUSH \<longrightarrow> qdb__get_u64le (snd r) < nm) \<and>
     (fst r = QDB_RT_CHECKPOINT \<longrightarrow> qdb__get_u64le (drop 8 (snd r)) \<le> nm))"

lemma fresh_mono: "fresh rs nm \<Longrightarrow> nm \<le> nm2 \<Longrightarrow> fresh rs nm2"
  by (force simp: fresh_def)

lemma rec_push_nm:
  assumes "qdb__get_u64le p < nm" and "qdb__get_u64le p < nm2" and "rec_push po p (nm, nl, st) = Inr (x, nl', st')"
  shows "x = nm \<and> rec_push po p (nm2, nl, st) = Inr (nm2, nl', st')"
proof -
  have "\<not> nm \<le> qdb__get_u64le p" "\<not> nm2 \<le> qdb__get_u64le p" using assms(1,2) by simp_all
  then show ?thesis using assms(3) by (auto simp: rec_push_def Let_def split: if_splits)
qed

lemma rec_apply_nm:
  assumes f: "fresh [(t, p)] nm" "fresh [(t, p)] nm2" and ap: "rec_apply po t p (nm, nl, st) = Inr (x, nl', st')"
  shows "x = nm \<and> rec_apply po t p (nm2, nl, st) = Inr (nm2, nl', st')"
proof (cases "t = 1 \<or> t = 0x10")
  case True
  then show ?thesis
    using f ap rec_push_nm [of p nm nm2]
    by (auto simp: rec_apply_def rec_checkpoint_def fresh_def max_absorb1 split: if_splits)
next
  case False
  then show ?thesis
    using ap by (auto simp: rec_apply_def rec_lease_def rec_done_def Let_def split: if_splits option.splits)
qed

lemma rec_fold_nm:
  assumes "fresh rs nm" and "fresh rs nm2" and "rec_fold off rs (nm, nl, st) = Inr (x, nl', st')"
  shows "x = nm \<and> rec_fold off rs (nm2, nl, st) = Inr (nm2, nl', st')"
  using assms
proof (induction rs arbitrary: off nl st)
  case (Cons r rs)
  from Cons.prems(3) obtain s1 where s1: "rec_apply (off + 9) (fst r) (snd r) (nm, nl, st) = Inr s1"
    "rec_fold (off + of_nat (10 + length (snd r))) rs s1 = Inr (x, nl', st')" by (auto split: sum.splits)
  obtain y nl1 st1 where y: "s1 = (y, nl1, st1)" by (metis prod_cases3)
  have "fresh [(fst r, snd r)] nm" "fresh [(fst r, snd r)] nm2" using Cons.prems(1,2) by (simp_all add: fresh_def)
  from rec_apply_nm [OF this s1(1) [unfolded y]]
  have a: "y = nm" "rec_apply (off + 9) (fst r) (snd r) (nm2, nl, st) = Inr (nm2, nl1, st1)" by auto
  have "fresh rs nm" "fresh rs nm2" using Cons.prems(1,2) by (simp_all add: fresh_def)
  from Cons.IH [OF this s1(2) [unfolded y a(1)]] a(2) show ?case by simp
qed simp

text \<open>Every message of the replayed state comes from a push record.\<close>

lemma msgs_pushed:
  assumes "absR st0 A0" and "rec_fold off rs (nm, nl, st0) = Inr (nm', nl', st)" and "qdb__msg_get st k \<noteq> None"
  shows "qdb__msg_get st0 k \<noteq> None \<or> (\<exists>r \<in> set rs. fst r = QDB_RT_MSG_PUSH \<and> qdb__get_u64le (snd r) = k)"
  using assms(1,2)
proof (induction rs arbitrary: off nm nl st0 A0)
  case (Cons r rs)
  from Cons.prems(2) obtain s1 where s1: "rec_apply (off + 9) (fst r) (snd r) (nm, nl, st0) = Inr s1"
    "rec_fold (off + of_nat (10 + length (snd r))) rs s1 = Inr (nm', nl', st)" by (auto split: sum.splits)
  obtain y nl1 st1 where y: "s1 = (y, nl1, st1)" by (metis prod_cases3)
  note R1 = rec_apply_absR [OF Cons.prems(1) s1(1) [unfolded y]]
  have "qdb__msg_get st0 k \<noteq> None \<or> fst r = QDB_RT_MSG_PUSH \<and> qdb__get_u64le (snd r) = k"
    if "qdb__msg_get st1 k \<noteq> None"
  proof -
    have "a_msgs (a_rec (off + 9) (fst r) (snd r) A0) k \<noteq> None" using that absRD(8) [OF R1, of k] by simp
    then have "a_msgs A0 k \<noteq> None \<or> fst r = QDB_RT_MSG_PUSH \<and> qdb__get_u64le (snd r) = k"
      by (auto simp: a_rec_def a_push_def a_lease_def a_ack_def a_return_def split: if_splits option.splits)
    then show ?thesis using absRD(8) [OF Cons.prems(1), of k] by auto
  qed
  with Cons.IH [OF R1 s1(2) [unfolded y]] show ?case by auto
qed (use assms(3) in simp)

text \<open>The lease counter stays beyond every active lease, unless it wraps around.\<close>

lemma lease_get_iff:
  assumes "absR st A"
  shows "qdb__lease_get st lid \<noteq> None \<longleftrightarrow> (\<exists>k am e. a_msgs A k = Some am \<and> am_status am = ALeased lid e)"
proof
  assume "qdb__lease_get st lid \<noteq> None"
  then show "\<exists>k am e. a_msgs A k = Some am \<and> am_status am = ALeased lid e"
    using absRD(4) [OF assms] unfolding leases_rel_def by blast
next
  assume "\<exists>k am e. a_msgs A k = Some am \<and> am_status am = ALeased lid e"
  then show "qdb__lease_get st lid \<noteq> None" using lease_absent [OF assms] by blast
qed

lemma rec_apply_leases:
  assumes R: "absR st A" and ap: "rec_apply po t p (nm, nl, st) = Inr (nm', nl', st')" and nl': "nl' \<noteq> 0"
    and below: "\<And>lid. qdb__lease_get st lid \<noteq> None \<Longrightarrow> lid < nl" and l: "qdb__lease_get st' lid \<noteq> None"
  shows "lid < nl'"
proof -
  have nl: "nl \<le> nl' \<and> (t = QDB_RT_MSG_LEASE \<longrightarrow> qdb__get_u64le (drop 16 p) < nl')"
    using ap nl' word_succ_greater [of "qdb__get_u64le (drop 16 p)"]
    by (auto simp: rec_apply_def rec_push_def rec_lease_def rec_done_def rec_checkpoint_def Let_def max_def
        split: if_splits option.splits)
  obtain k am e where "a_msgs (a_rec po t p A) k = Some am" "am_status am = ALeased lid e"
    using l lease_get_iff [OF rec_apply_absR [OF R ap]] by blast
  then have "(t = QDB_RT_MSG_LEASE \<and> lid = qdb__get_u64le (drop 16 p)) \<or> (\<exists>am. a_msgs A k = Some am \<and> am_status am = ALeased lid e)"
    by (auto simp: a_rec_def a_push_def a_lease_def a_ack_def a_return_def split: if_splits option.splits)
  then show ?thesis using nl lease_get_iff [OF R] below by fastforce
qed

section \<open>The invariant\<close>

definition db_ok :: "world \<Rightarrow> db \<Rightarrow> nat \<Rightarrow> (u8 \<times> bytes) list \<Rightarrow> qdb__state \<Rightarrow> astate \<Rightarrow> bool" where
  "db_ok w db i rs st A \<longleftrightarrow> w_fds w (db_fd db) = Some i \<and>
     length (ino_data (w_ino w i)) < 2 ^ 63 \<and>
     has_header (ino_data (w_ino w i)) db \<and> good_bounds db \<and>
     log_is (ino_data (w_ino w i)) (unat (db_log_start_offset db)) (unat (db_log_end_offset db)) rs \<and>
     stable_below (take (unat (db_log_end_offset db)) (ino_data (w_ino w i))) (w_ino w i) \<and>
     fresh rs (db_next_msg_id db) \<and> db_next_msg_id db \<noteq> 0 \<and> db_next_lease_id db \<noteq> 0 \<and>
     (\<forall>lid. qdb__lease_get st lid \<noteq> None \<longrightarrow> lid < db_next_lease_id db) \<and>
     rec_fold (db_log_start_offset db) rs (db_next_msg_id db, 1, empty_state)
       = Inr (db_next_msg_id db, db_next_lease_id db, st) \<and>
     db_state db = Some st \<and> absR st A"

lemma db_okD:
  assumes "db_ok w db i rs st A"
  shows "w_fds w (db_fd db) = Some i" "length (ino_data (w_ino w i)) < 2 ^ 63"
    "has_header (ino_data (w_ino w i)) db" "good_bounds db"
    "log_is (ino_data (w_ino w i)) (unat (db_log_start_offset db)) (unat (db_log_end_offset db)) rs"
    "stable_below (take (unat (db_log_end_offset db)) (ino_data (w_ino w i))) (w_ino w i)"
    "fresh rs (db_next_msg_id db)" "db_next_msg_id db \<noteq> 0" "db_next_lease_id db \<noteq> 0"
    "qdb__lease_get st lid \<noteq> None \<Longrightarrow> lid < db_next_lease_id db"
    "rec_fold (db_log_start_offset db) rs (db_next_msg_id db, 1, empty_state)
       = Inr (db_next_msg_id db, db_next_lease_id db, st)"
    "db_state db = Some st" "absR st A"
    "unat (db_log_end_offset db) \<le> length (ino_data (w_ino w i))"
    "4096 \<le> unat (db_log_start_offset db)" "unat (db_log_start_offset db) \<le> unat (db_log_end_offset db)"
  using assms log_is_bounds [of "ino_data (w_ino w i)" "unat (db_log_start_offset db)" "unat (db_log_end_offset db)" rs]
  unfolding db_ok_def good_bounds_def by (auto simp: word_le_nat_alt)

lemma db_ok_below:
  assumes "db_ok w db i rs st A" and "qdb__msg_get st k \<noteq> None"
  shows "k < db_next_msg_id db"
  using msgs_pushed [OF absR_empty db_okD(11) [OF assms(1)] assms(2)] db_okD(7) [OF assms(1)]
  by (auto simp: fresh_def)

lemma db_ok_fresh: "db_ok w db i rs st A \<Longrightarrow> qdb__msg_get st (db_next_msg_id db) = None"
  using db_ok_below [of w db i rs st A "db_next_msg_id db"] by (metis less_irrefl)

text \<open>The invariant does not depend on the scripts, nor on the file past the log end.\<close>

lemma db_ok_same:
  assumes "db_ok w db i rs st A" and "same_fs w w'"
  shows "db_ok w' db i rs st A"
  using assms same_fs_simps [OF assms(2)] by (simp add: db_ok_def)

lemma take_has_header:
  assumes "take n d' = take n d" and "56 \<le> n"
  shows "has_header d' db = has_header d db"
  using has_header_take [OF assms(2), of d db] has_header_take [OF assms(2), of d' db] assms(1) by simp

lemma db_ok_tail:
  assumes ok: "db_ok w db i rs st A" and tw: "tail_write w w' i (unat (db_log_end_offset db))"
    and len: "length (ino_data (w_ino w' i)) < 2 ^ 63"
  shows "db_ok w' db i rs st A"
proof -
  let ?n = "unat (db_log_end_offset db)" and ?d = "ino_data (w_ino w i)" and ?d' = "ino_data (w_ino w' i)"
  note D = db_okD [OF ok]
  have st: "stable_below (take ?n ?d) (w_ino w' i)"
    using tw D(6) D(14) unfolding tail_write_def by auto
  then have tk: "take ?n ?d' = take ?n ?d" using D(14) by (simp add: stable_below_def min_absorb2)
  then have "?n \<le> length ?d'" using D(14) by (metis length_take min.absorb_iff2 min.commute)
  then have "log_is ?d' (unat (db_log_start_offset db)) ?n rs"
    using log_is_cong [OF tk D(14) _ D(5)] by blast
  moreover have "has_header ?d' db" using take_has_header [OF tk, of db] D(3,15,16) by simp
  ultimately show ?thesis
    using ok len st tk tail_write_fds [OF tw] by (simp add: db_ok_def)
qed

section \<open>Committing a record\<close>

lemma has_header_state [simp]: "has_header d (db\<lparr>db_state := x\<rparr>) = has_header d db"
  "good_bounds (db\<lparr>db_state := x\<rparr>) = good_bounds db"
  by (simp_all add: has_header_def hdr_bytes_def hdr_fields_def good_bounds_def)

text \<open>What the file holds after an append and a header patch that both succeeded.\<close>

lemma append_file:
  assumes ok: "db_ok w db i rs st A"
    and ap: "qdb__append_record w (db_fd db) t p plen (db_log_end_offset db) = (QDB_OK, new_end, w1)"
    and p: "length p = unat plen" "rec_ok (t, p)" and room: "unat (db_log_end_offset db) + 10 + length p < 2 ^ 63"
  shows "w_fds w1 (db_fd db) = Some i" "length (ino_data (w_ino w1 i)) < 2 ^ 63" "has_header (ino_data (w_ino w1 i)) db"
    "unat new_end = unat (db_log_end_offset db) + 10 + length p" "ino_old (w_ino w1 i) = []"
    "log_is (ino_data (w_ino w1 i)) (unat (db_log_start_offset db)) (unat new_end) (rs @ [(t, p)])"
    "only_file w w1 i" "unat new_end \<le> length (ino_data (w_ino w1 i))"
proof -
  let ?d = "ino_data (w_ino w i)" and ?e = "unat (db_log_end_offset db)" and ?s = "unat (db_log_start_offset db)"
  note D = db_okD [OF ok]
  have a: "tail_write w w1 i ?e" "ino_data (w_ino w1 i) = splice ?d ?e (enc_rec t p)" "unat new_end = ?e + 10 + length p"
    "ino_old (w_ino w1 i) = []"
    using append_record_spec [OF ap D(1) p(1) room D(14)] by auto
  let ?d1 = "splice ?d ?e (enc_rec t p)"
  have len1: "?e + 10 + length p \<le> length ?d1" "length ?d1 < 2 ^ 63" using D(2) room by simp_all
  show "w_fds w1 (db_fd db) = Some i" using tail_write_fds [OF a(1)] D(1) by simp
  show "only_file w w1 i" by (rule tail_write_only [OF a(1)])
  show "unat new_end = ?e + 10 + length p" "ino_old (w_ino w1 i) = []" by (fact a(3,4))+
  have tk: "take ?e ?d1 = take ?e ?d" using D(14) by (simp add: take_splice)
  have "has_header ?d1 db" using take_has_header [OF tk, of db] D(3,15,16) by simp
  moreover have "log_is ?d1 ?s ?e rs" using log_is_cong [OF tk D(14) _ D(5)] len1 by simp
  moreover have "slice ?d1 ?e (10 + length p) = enc_rec t p" using D(14) by (intro slice_splice_same) auto
  ultimately show "has_header (ino_data (w_ino w1 i)) db" "length (ino_data (w_ino w1 i)) < 2 ^ 63"
    "log_is (ino_data (w_ino w1 i)) ?s (unat new_end) (rs @ [(t, p)])" "unat new_end \<le> length (ino_data (w_ino w1 i))"
    using log_is_snoc [of ?d1 ?s ?e rs "(t, p)"] p(2) len1 by (simp_all add: enc_def a)
qed

text \<open>A patch of the header leaves the log of a content as it is.\<close>

lemma patch_log:
  assumes "log_is d s e rs" and "4096 \<le> s" and "s \<le> e" and "length b \<le> 32"
  shows "log_is (splice d 24 b) s e rs" "length (splice d 24 b) = length d"
proof -
  have e: "e \<le> length d" using log_is_bounds [OF assms(1)] by blast
  then show len: "length (splice d 24 b) = length d" using assms(2-4) by simp
  have "slice (splice d 24 b) s (e - s) = slice d s (e - s)"
    using e assms(2-4) by (intro slice_splice_after) simp_all
  then show "log_is (splice d 24 b) s e rs" by (rule log_is_same_slice [OF _ _ assms(1)]) (use e len in simp)
qed

lemma commit_file:
  assumes ok: "db_ok w db i rs st A"
    and ap: "qdb__append_record w (db_fd db) t p plen (db_log_end_offset db) = (QDB_OK, new_end, w1)"
    and p: "length p = unat plen" "rec_ok (t, p)" and room: "unat (db_log_end_offset db) + 10 + length p < 2 ^ 63"
    and db1: "db1 = db\<lparr>db_log_end_offset := new_end, db_next_msg_id := nm', db_next_lease_id := nl'\<rparr>"
    and hu: "qdb__header_update w1 (db_fd db1) db1 = (QDB_OK, w2)"
  shows "w_fds w2 (db_fd db) = Some i" "length (ino_data (w_ino w2 i)) < 2 ^ 63" "has_header (ino_data (w_ino w2 i)) db1"
    "unat new_end = unat (db_log_end_offset db) + 10 + length p" "ino_old (w_ino w2 i) = []"
    "log_is (ino_data (w_ino w2 i)) (unat (db_log_start_offset db)) (unat new_end) (rs @ [(t, p)])"
    "only_file w w2 i"
proof -
  note D = db_okD [OF ok]
  note F = append_file [OF ok ap p room]
  have fd1: "w_fds w1 (db_fd db1) = Some i" using F(1) db1 by simp
  have len1: "56 \<le> length (ino_data (w_ino w1 i))" using F(4,8) D(15,16) by linarith
  let ?patch = "drop 24 (hdr_bytes db1)"
  have h: "ino_data (w_ino w2 i) = splice (ino_data (w_ino w1 i)) 24 ?patch" "ino_old (w_ino w2 i) = []" "only_file w1 w2 i"
    using header_update_spec [OF hu fd1 len1] by auto
  show "w_fds w2 (db_fd db) = Some i" using only_file_simps(2) [OF h(3)] F(1) by simp
  show "only_file w w2 i" using F(7) h(3) by (rule only_file_trans)
  show "unat new_end = unat (db_log_end_offset db) + 10 + length p" "ino_old (w_ino w2 i) = []" by (fact F(4) h(2))+
  from header_patch [OF F(3), of db1] show "has_header (ino_data (w_ino w2 i)) db1" by (simp add: h(1) db1)
  have "unat (db_log_start_offset db) \<le> unat new_end" "length ?patch \<le> 32" using D(16) F(4) by simp_all
  from patch_log [OF F(6) D(15) this] F(2)
  show "log_is (ino_data (w_ino w2 i)) (unat (db_log_start_offset db)) (unat new_end) (rs @ [(t, p)])"
    "length (ino_data (w_ino w2 i)) < 2 ^ 63" by (simp_all only: h(1))
qed

text \<open>
  What is left when the header patch fails after the record was appended: the records of the log, the
  new one included, are in every content of the file, from the log start to the log end of the handle.
\<close>

definition logged :: "world \<Rightarrow> db \<Rightarrow> nat \<Rightarrow> (u8 \<times> bytes) list \<Rightarrow> bool" where
  "logged w db i rs \<longleftrightarrow> w_fds w (db_fd db) = Some i \<and>
     (\<forall>v \<in> insert (ino_data (w_ino w i)) (set (ino_old (w_ino w i))).
        length v < 2 ^ 63 \<and> log_is v (unat (db_log_start_offset db)) (unat (db_log_end_offset db)) rs)"

lemma patch_logged:
  assumes ok: "db_ok w db i rs st A"
    and ap: "qdb__append_record w (db_fd db) t p plen (db_log_end_offset db) = (QDB_OK, new_end, w1)"
    and p: "length p = unat plen" "rec_ok (t, p)" and room: "unat (db_log_end_offset db) + 10 + length p < 2 ^ 63"
    and db1: "db1 = db\<lparr>db_log_end_offset := new_end, db_next_msg_id := nm', db_next_lease_id := nl'\<rparr>"
    and hu: "qdb__header_update w1 (db_fd db1) db1 = (r2, w2)"
  shows "logged w2 db1 i (rs @ [(t, p)])"
proof -
  note D = db_okD [OF ok]
  note F = append_file [OF ok ap p room]
  have fd1: "w_fds w1 (db_fd db1) = Some i" using F(1) db1 by simp
  have len1: "56 \<le> length (ino_data (w_ino w1 i))" using F(4,8) D(15,16) by linarith
  have se: "unat (db_log_start_offset db) \<le> unat new_end" using D(16) F(4) by simp
  have "length v < 2 ^ 63 \<and> log_is v (unat (db_log_start_offset db)) (unat new_end) (rs @ [(t, p)])"
    if v: "v \<in> insert (ino_data (w_ino w2 i)) (set (ino_old (w_ino w2 i)))" for v
  proof -
    obtain k where k: "v = splice (ino_data (w_ino w1 i)) 24 (take k (drop 24 (hdr_bytes db1)))"
      using header_update_contents [OF hu fd1 len1 v] F(5) by auto
    have "length (take k (drop 24 (hdr_bytes db1))) \<le> 32" by simp
    from patch_log [OF F(6) D(15) se this] F(2) show ?thesis by (simp only: k simp_thms)
  qed
  moreover have "w_fds w2 (db_fd db1) = Some i"
    using header_update_spec [OF hu fd1 len1] only_file_simps(2) [of w1 w2 i] fd1 by simp
  ultimately show ?thesis by (simp add: logged_def db1)
qed

lemma commit:
  assumes ok: "db_ok w db i rs st A"
    and ap: "qdb__append_record w (db_fd db) t p plen (db_log_end_offset db) = (QDB_OK, new_end, w1)"
    and p: "length p = unat plen" "rec_ok (t, p)" and room: "unat (db_log_end_offset db) + 10 + length p < 2 ^ 63"
    and db1: "db1 = db\<lparr>db_log_end_offset := new_end, db_next_msg_id := nm', db_next_lease_id := nl'\<rparr>"
    and hu: "qdb__header_update w1 (db_fd db1) db1 = (QDB_OK, w2)"
    and app: "rec_apply (db_log_end_offset db + 9) t p (nm', db_next_lease_id db, st) = Inr (nm', nl', st')"
    and fr: "fresh [(t, p)] nm'" "db_next_msg_id db \<le> nm'" "nm' \<noteq> 0" "nl' \<noteq> 0"
  shows "db_ok w2 (db1\<lparr>db_state := Some st'\<rparr>) i (rs @ [(t, p)]) st' (a_rec (db_log_end_offset db + 9) t p A)"
proof -
  note D = db_okD [OF ok]
  note F = commit_file [OF ok ap p room db1 hu]
  have ls: "qdb__lease_get st' lid \<noteq> None \<Longrightarrow> lid < nl'" for lid
    by (rule rec_apply_leases [OF D(13) app fr(4) D(10)])
  have good: "good_bounds db1"
    using D(4) F(4) by (auto simp: db1 good_bounds_def word_le_nat_alt)
  have fresh: "fresh (rs @ [(t, p)]) nm'" using fresh_mono [OF D(7) fr(2)] fr(1) by (auto simp: fresh_def)
  have "rec_fold (db_log_start_offset db) rs (nm', 1, empty_state) = Inr (nm', db_next_lease_id db, st)"
    using rec_fold_nm [OF D(7) fresh_mono [OF D(7) fr(2)] D(11)] by simp
  moreover have "db_log_start_offset db + of_nat (log_len rs) = db_log_end_offset db"
    using arg_cong [OF log_is_len [OF D(5)], of "of_nat :: nat \<Rightarrow> u64"] by simp
  ultimately have fold: "rec_fold (db_log_start_offset db) (rs @ [(t, p)]) (nm', 1, empty_state) = Inr (nm', nl', st')"
    using app by (simp add: rec_fold_append)
  have "stable_below (take (unat new_end) (ino_data (w_ino w2 i))) (w_ino w2 i)"
    using F(5) log_is_bounds [OF F(6)] by (simp add: stable_below_def min_absorb2)
  then show ?thesis
    unfolding db_ok_def using F fresh fold good fr(3,4) ls rec_apply_absR [OF D(13) app] by (simp add: db1)
qed

text \<open>A failed append leaves everything that counts as it was.\<close>

lemma append_fail:
  assumes ok: "db_ok w db i rs st A"
    and ap: "qdb__append_record w (db_fd db) t p plen (db_log_end_offset db) = (rc, new_end, w1)" and "rc \<noteq> QDB_OK"
    and p: "length p = unat plen" and room: "unat (db_log_end_offset db) + 10 + length p < 2 ^ 63"
  shows "rc = QDB_ERR_IO \<and> db_ok w1 db i rs st A"
proof -
  note D = db_okD [OF ok]
  note sp = append_record_spec [OF ap D(1) p room D(14)]
  then have "length (ino_data (w_ino w1 i)) < 2 ^ 63" using D(2) room by auto
  then show ?thesis using sp assms(3) db_ok_tail [OF ok] by auto
qed

text \<open>
  Every operation that logs a record appends it and patches the header.  Without failures both
  succeed; a failed append changes nothing; a failed header patch is reported as an I/O error and
  leaves the record in the log.
\<close>

lemma log_op:
  assumes ok: "db_ok w db i rs st A"
    and ap: "qdb__append_record w (db_fd db) t p plen (db_log_end_offset db) = (r1, new_end, w1)"
    and p: "length p = unat plen" "rec_ok (t, p)" and room: "unat (db_log_end_offset db) + 10 + length p < 2 ^ 63"
    and db1: "db1 = db\<lparr>db_log_end_offset := new_end, db_next_msg_id := nm', db_next_lease_id := nl'\<rparr>"
    and hu: "qdb__header_update w1 (db_fd db1) db1 = (r2, w2)"
    and app: "rec_apply (db_log_end_offset db + 9) t p (nm', db_next_lease_id db, st) = Inr (nm', nl', st')"
    and fr: "fresh [(t, p)] nm'" "db_next_msg_id db \<le> nm'" "nm' \<noteq> 0" "nl' \<noteq> 0"
  shows "r1 \<noteq> QDB_OK \<Longrightarrow> r1 = QDB_ERR_IO \<and> db_ok w1 db i rs st A \<and> \<not> calm w"
    "r1 = QDB_OK \<Longrightarrow> r2 = QDB_OK \<Longrightarrow>
      db_ok w2 (db1\<lparr>db_state := Some st'\<rparr>) i (rs @ [(t, p)]) st' (a_rec (db_log_end_offset db + 9) t p A)"
    "r1 = QDB_OK \<Longrightarrow> r2 \<noteq> QDB_OK \<Longrightarrow> r2 = QDB_ERR_IO \<and> \<not> calm w"
    "r1 = QDB_OK \<Longrightarrow> calm w \<Longrightarrow> r2 = QDB_OK \<and> calm w2"
    "only_file w w1 i" "r1 = QDB_OK \<Longrightarrow> only_file w w2 i"
    "r1 = QDB_OK \<Longrightarrow> logged w2 db1 i (rs @ [(t, p)])"
proof -
  note D = db_okD [OF ok]
  note s1 = append_record_spec [OF ap D(1) p(1) room D(14)]
  show "r1 = QDB_ERR_IO \<and> db_ok w1 db i rs st A \<and> \<not> calm w" if "r1 \<noteq> QDB_OK"
    using append_fail [OF ok ap that p(1) room] s1 that by blast
  show o1: "only_file w w1 i" using s1 tail_write_only by blast
  assume r1: "r1 = QDB_OK"
  have tw: "tail_write w w1 i (unat (db_log_end_offset db))" using s1 by blast
  have fd: "w_fds w1 (db_fd db1) = Some i" using tail_write_fds [OF tw] D(1) by (simp add: db1)
  have "56 \<le> length (ino_data (w_ino w1 i))" using s1 r1 D(14,15,16) by auto
  note s2 = header_update_spec [OF hu fd this]
  show "only_file w w2 i" using o1 s2 only_file_trans by blast
  have calm: "calm w \<Longrightarrow> calm w1" using tail_write_calm [OF tw] by blast
  show "r2 = QDB_ERR_IO \<and> \<not> calm w" if "r2 \<noteq> QDB_OK" using s2 calm that by blast
  show "r2 = QDB_OK \<and> calm w2" if "calm w" using s2 calm that calm_only_file by blast
  show "db_ok w2 (db1\<lparr>db_state := Some st'\<rparr>) i (rs @ [(t, p)]) st' (a_rec (db_log_end_offset db + 9) t p A)"
    if "r2 = QDB_OK"
    using commit [OF ok ap [unfolded r1] p room db1 hu [unfolded that] app fr] .
  show "logged w2 db1 i (rs @ [(t, p)])" by (rule patch_logged [OF ok ap [unfolded r1] p room db1 hu])
qed

text \<open>Room for the largest record before the file offset would leave the signed range.\<close>

definition room :: "'st qdb \<Rightarrow> bool" where
  "room db \<longleftrightarrow> unat (db_log_end_offset db) + 2 ^ 27 < 2 ^ 63"

lemma roomD: "room db \<Longrightarrow> n \<le> 67109376 \<Longrightarrow> unat (db_log_end_offset db) + 10 + n < 2 ^ 63"
  by (simp add: room_def)

section \<open>A new database\<close>

text \<open>The handle and the file of a database just created, with the replies still to come.\<close>

definition new_db :: db where
  "new_db = \<lparr>db_fd = 3, db_lock_fd = 4, db_path = ''q'', db_wal_path = ''q-wal'', db_lock_path = ''q-lock'',
     db_next_msg_id = 1, db_next_lease_id = 1, db_log_start_offset = 4096, db_log_end_offset = 4096,
     db_create_time_us = 77, db_flags = 2, db_lease_timeout_us = 30000000, db_state = Some empty_state\<rparr>"

definition new_world :: "sys_reply list \<Rightarrow> world" where
  "new_world = one_file_world (header_encode new_db)"

lemma new_db_simps [simp]:
  "db_next_msg_id new_db = 1" "db_next_lease_id new_db = 1" "room new_db" "calm (new_world [])" "db_fd new_db = 3"
  "db_log_end_offset new_db = 4096"
  by (simp_all add: new_db_def room_def new_world_def)

lemma new_db_ok: "db_ok (new_world r) new_db 0 [] empty_state a_empty"
  using absR_empty has_header_encode [of new_db]
  by (simp add: db_ok_def new_world_def new_db_def good_bounds_def stable_below_def fresh_def)

end
