(* ===== verification/PushProps.thy ===== *)
theory PushProps
  imports Durable
begin

text \<open>
  What \<open>qdb_push\<close> does to a handle that satisfies the invariant \<open>db_ok\<close>, on every branch: on
  success the log grows by one record and the in-memory state is the state a replay would rebuild,
  which implements the push of the specification; a failed append leaves handle and invariant as they
  were; a failure after the record was made durable leaves the record in the log.
\<close>

section \<open>Push\<close>

definition push_buf :: "u64 \<Rightarrow> bytes \<Rightarrow> bytes \<Rightarrow> bytes" where
  "push_buf k n d = qdb__put_u64le k @ [of_nat (length n)] @ n @ d"

lemma length_push_buf [simp]: "length (push_buf k n d) = 9 + length n + length d"
  by (simp add: push_buf_def)

lemma ucast_small: "m < 256 \<Longrightarrow> unat (of_nat m :: u8) = m"
  "m < 256 \<Longrightarrow> (ucast (of_nat m :: u8) :: u32) = of_nat m"
  "m < 256 \<Longrightarrow> (ucast (of_nat m :: u8) :: u64) = of_nat m"
  by (simp_all add: unat_of_nat word_unat_eq_iff)

lemma push_buf_fields:
  assumes "name_ok n"
  shows "qdb__get_u64le (push_buf k n d) = k" "push_buf k n d ! 8 = of_nat (length n)"
    "slice (push_buf k n d) 9 (length n) = n" "unat (push_buf k n d ! 8) = length n"
  using assms
  by (simp_all add: push_buf_def u64le.get_put nth_append slice_def name_ok_def ucast_small)

lemma rec_push_buf:
  assumes n: "name_ok n" and k: "k \<noteq> 0" "qdb__msg_get st k = None"
  shows "rec_apply po QDB_RT_MSG_PUSH (push_buf k n d) (nm, nl, st) =
    Inr (if k \<ge> nm then k + 1 else nm, nl, st_push st k (po + 9 + of_nat (length n)) (of_nat (length d)) n)"
proof -
  note f = push_buf_fields [OF n]
  have small: "length n < 256" "length n \<noteq> 0" using n by (auto simp: name_ok_def)
  have "push_buf k n d ! 8 \<noteq> 0" using f(4) small(2) by (metis unat_0)
  then show ?thesis
    using f k small by (simp add: rec_apply_def rec_push_def Let_def f ucast_small)
qed

lemma a_rec_push:
  assumes "name_ok n"
  shows "a_rec po QDB_RT_MSG_PUSH (push_buf k n d) A = a_push k n (po + 9 + of_nat (length n)) (of_nat (length d)) A"
proof -
  have "length n < 256" using assms by (simp add: name_ok_def)
  then show ?thesis using push_buf_fields [OF assms] by (simp add: a_rec_def ucast_small)
qed

lemma push_plen:
  assumes "m \<le> 255" and "len \<le> QDB_MSG_MAX_LEN"
  shows "unat (of_nat 9 + of_nat m + of_nat len :: u32) = 9 + m + len"
  using assms unat_of_nat_u32 [of "9 + m + len"] by simp

text \<open>
  The body of \<open>qdb_push\<close> after its checks, with the name and the data as lists.
\<close>

lemma push_db_eq:
  fixes q :: bytes
  assumes n: "n = take (strlen q) q" "name_ok n" and d: "d = (if len > 0 then take len (the data) else [])"
    and len: "len \<le> QDB_MSG_MAX_LEN" "len > 0 \<Longrightarrow> data \<noteq> None"
  shows "push_db w db (Some q) data len =
    (let (ok, w1) = heap_alloc w in
     if \<not> ok then Some (QDB_ERR_NOMEM, db, w1) else
     let (rc, new_end, w2) = qdb__append_record w1 (db_fd db) QDB_RT_MSG_PUSH (push_buf (db_next_msg_id db) n d)
           (of_nat 9 + of_nat (length n) + of_nat len) (db_log_end_offset db) in
     if rc \<noteq> QDB_OK then Some (rc, db, w2) else
     let db1 = db\<lparr>db_log_end_offset := new_end, db_next_msg_id := db_next_msg_id db + 1\<rparr>;
         (rc, w3) = qdb__header_update w2 (db_fd db1) db1 in
     if rc \<noteq> QDB_OK then Some (QDB_ERR_IO, db1, w3) else
     let (ok, w4) = heap_alloc w3 in
     if \<not> ok then Some (QDB_ERR_NOMEM, db1, w4) else
     (case db_state db1 of None \<Rightarrow> None | Some st \<Rightarrow>
        let (ok, st2, w5) = qdb__queue_get_or_create w4 (msg_link st (new_msg (db_next_msg_id db)
              (db_log_end_offset db + 18 + of_nat (length n)) (of_nat len) n)) n in
        if \<not> ok then Some (QDB_ERR_NOMEM, db1\<lparr>db_state := Some st2\<rparr>, w5)
        else Some (QDB_OK, db1\<lparr>db_state := Some (qdb__queue_pending_append st2 n (db_next_msg_id db))\<rparr>, w5)))"
proof -
  have le: "strlen q \<le> length q" by (simp add: strlen_def length_takeWhile_le)
  then have ln: "length n = strlen q" by (simp add: n(1))
  have tk: "take (length n) q = n" by (simp add: ln n(1) le min_absorb2)
  have g: "\<not> (length n = 0 \<or> length n > 255)" "\<not> (len > 0 \<and> data = None)" "\<not> len > QDB_MSG_MAX_LEN" "length n < 256"
    using n(2) len by (auto simp: name_ok_def)
  have e18: "e + of_nat 9 + of_nat 9 + x = e + 18 + x" for e x :: u64 by simp
  show ?thesis
    unfolding push_db_def option.case Let_def ln [symmetric] if_not_P [OF g(1)] if_not_P [OF g(2)] if_not_P [OF g(3)]
      tk d [symmetric] push_buf_def msg_insert_eq ucast_small(3) [OF g(4)] e18 ..
qed

text \<open>
  The four outcomes of a push with valid arguments: done; nothing done, the handle as it was (and
  the files too when an allocation failed); the record committed, but an allocation failed
  afterwards, so the tables in memory are as they were, or hold the message unqueued because its
  queue could not be created; the record in the log, but the header patch failed, so the tables are
  as they were while the log end and the message counter of the handle have moved on.
\<close>

definition push_outcome :: "world \<Rightarrow> db \<Rightarrow> nat \<Rightarrow> (u8 \<times> bytes) list \<Rightarrow> qdb__state \<Rightarrow> astate \<Rightarrow> bytes \<Rightarrow> bytes
    \<Rightarrow> int \<times> db \<times> world \<Rightarrow> bool" where
  "push_outcome w db i rs st A n d res \<longleftrightarrow> (case res of (rc, db', w') \<Rightarrow>
     let k = db_next_msg_id db; rs' = rs @ [(QDB_RT_MSG_PUSH, push_buf k n d)];
         A' = a_push k n (db_log_end_offset db + 18 + of_nat (length n)) (of_nat (length d)) A;
         db1 = db\<lparr>db_log_end_offset := db_log_end_offset db', db_next_msg_id := k + 1\<rparr> in
     only_file w w' i \<and>
     (rc = QDB_OK \<and> (\<exists>st'. db' = db1\<lparr>db_state := Some st'\<rparr> \<and> db_ok w' db' i rs' st' A') \<or>
     (rc = QDB_ERR_IO \<or> rc = QDB_ERR_NOMEM \<and> same_fs w w') \<and> db' = db \<and> db_ok w' db i rs st A \<or>
     rc = QDB_ERR_NOMEM \<and> (\<exists>s st'. db' = db1\<lparr>db_state := Some s\<rparr> \<and> db_ok w' (db1\<lparr>db_state := Some st'\<rparr>) i rs' st' A' \<and>
        (s = st \<or> qdb__queue_get st n = None \<and>
           s = msg_link st (new_msg k (db_log_end_offset db + 18 + of_nat (length n)) (of_nat (length d)) n))) \<or>
     rc = QDB_ERR_IO \<and> db' = db1 \<and> logged w' db' i rs'))"

lemma push_outcome_intros:
  "only_file w w' i \<Longrightarrow> db_ok w' db i rs st A \<Longrightarrow> rc = QDB_ERR_IO \<or> rc = QDB_ERR_NOMEM \<and> same_fs w w' \<Longrightarrow>
   push_outcome w db i rs st A n d (rc, db, w')"
  "only_file w w' i \<Longrightarrow> db1 = db\<lparr>db_log_end_offset := e, db_next_msg_id := db_next_msg_id db + 1\<rparr> \<Longrightarrow>
   logged w' db1 i (rs @ [(QDB_RT_MSG_PUSH, push_buf (db_next_msg_id db) n d)]) \<Longrightarrow> push_outcome w db i rs st A n d (QDB_ERR_IO, db1, w')"
  "only_file w w' i \<Longrightarrow> db_ok w' (db1\<lparr>db_state := Some st'\<rparr>) i (rs @ [(QDB_RT_MSG_PUSH, push_buf (db_next_msg_id db) n d)]) st'
     (a_push (db_next_msg_id db) n (db_log_end_offset db + 18 + of_nat (length n)) (of_nat (length d)) A) \<Longrightarrow>
   db1 = db\<lparr>db_log_end_offset := e, db_next_msg_id := db_next_msg_id db + 1\<rparr> \<Longrightarrow>
   s = st \<or> qdb__queue_get st n = None \<and>
     s = msg_link st (new_msg (db_next_msg_id db) (db_log_end_offset db + 18 + of_nat (length n)) (of_nat (length d)) n) \<Longrightarrow>
   push_outcome w db i rs st A n d (QDB_ERR_NOMEM, db1\<lparr>db_state := Some s\<rparr>, w')"
  "only_file w w' i \<Longrightarrow> db_ok w' (db1\<lparr>db_state := Some st'\<rparr>) i (rs @ [(QDB_RT_MSG_PUSH, push_buf (db_next_msg_id db) n d)]) st'
     (a_push (db_next_msg_id db) n (db_log_end_offset db + 18 + of_nat (length n)) (of_nat (length d)) A) \<Longrightarrow>
   db1 = db\<lparr>db_log_end_offset := e, db_next_msg_id := db_next_msg_id db + 1\<rparr> \<Longrightarrow>
   push_outcome w db i rs st A n d (QDB_OK, db1\<lparr>db_state := Some st'\<rparr>, w')"
  by (auto simp: push_outcome_def Let_def)

lemma push_spec:
  fixes q :: bytes
  assumes ok: "db_ok w db i rs st A" and n: "n = take (strlen q) q" "name_ok n"
    and d: "d = (if len > 0 then take len (the data) else [])" "length d = len"
    and len: "len \<le> QDB_MSG_MAX_LEN" "len > 0 \<Longrightarrow> data \<noteq> None" and rm: "room db" and nm: "db_next_msg_id db + 1 \<noteq> 0"
  shows "\<exists>res. push_db w db (Some q) data len = Some res \<and> push_outcome w db i rs st A n d res \<and>
    (calm w \<longrightarrow> fst res = QDB_OK \<and> calm (snd (snd res)))"
proof -
  let ?k = "db_next_msg_id db" and ?p = "push_buf (db_next_msg_id db) n d" and ?e = "db_log_end_offset db"
  let ?plen = "of_nat 9 + of_nat (length n) + of_nat len :: u32"
  let ?A = "a_push ?k n (?e + 18 + of_nat (length n)) (of_nat (length d)) A"
  note eq = push_db_eq [OF n d(1) len, of w db]
  have ln: "length n \<le> 255" using n(2) by (simp add: name_ok_def)
  have p: "length ?p = unat ?plen" "length ?p \<le> 67109376" using push_plen [OF ln len(1)] d(2) ln len(1) by simp_all
  have rok: "rec_ok (QDB_RT_MSG_PUSH, ?p)" using p(2) by (simp add: rec_ok_def is_known_type_def)
  note rm' = roomD [OF rm p(2)]
  obtain ok1 w1 where 1: "heap_alloc w = (ok1, w1)" by fastforce
  note s1 = heap_alloc_same [OF 1] heap_alloc_calm [OF 1]
  have okw1: "db_ok w1 db i rs st A" by (rule db_ok_same [OF ok s1(1)])
  have calm1: "calm w \<Longrightarrow> calm w1" by (rule calm_same_fs [OF s1(1)])
  obtain r2 ne w2 where 2: "qdb__append_record w1 (db_fd db) QDB_RT_MSG_PUSH ?p ?plen ?e = (r2, ne, w2)" by (metis prod_cases3)
  define db1 where "db1 = db\<lparr>db_log_end_offset := ne, db_next_msg_id := ?k + 1\<rparr>"
  obtain r3 w3 where 3: "qdb__header_update w2 (db_fd db1) db1 = (r3, w3)" by fastforce
  obtain ok4 w4 where 4: "heap_alloc w3 = (ok4, w4)" by fastforce
  note s4 = heap_alloc_same [OF 4] heap_alloc_calm [OF 4]
  let ?m = "new_msg ?k (?e + 18 + of_nat (length n)) (of_nat len) n"
  obtain ok5 st5 w5 where 5: "qdb__queue_get_or_create w4 (msg_link st ?m) n = (ok5, st5, w5)" by (metis prod_cases3)
  note s5 = get_or_create_spec [OF 5]
  let ?st = "st_push st ?k (?e + 18 + of_nat (length n)) (of_nat (length d)) n" and ?rs = "rs @ [(1, ?p)]"
  have lt: "?k < ?k + 1" by (rule word_succ_greater [OF nm])
  have app: "rec_apply (?e + 9) QDB_RT_MSG_PUSH ?p (?k + 1, db_next_lease_id db, st) = Inr (?k + 1, db_next_lease_id db, ?st)"
    using rec_push_buf [OF n(2) db_okD(8) [OF ok] db_ok_fresh [OF ok]] lt by (simp add: add.assoc)
  have dbe: "db1 = db\<lparr>db_log_end_offset := ne, db_next_msg_id := ?k + 1, db_next_lease_id := db_next_lease_id db\<rparr>"
    by (simp add: db1_def)
  have fr: "fresh [(1, ?p)] (?k + 1)" using lt push_buf_fields [OF n(2)] by (simp add: fresh_def)
  note op = log_op [OF okw1 2 p(1) rok rm' dbe 3 app fr less_imp_le [OF lt] nm db_okD(9) [OF ok]]
  have st5: "qdb__queue_pending_append st5 n ?k = ?st" if ok5 using s5(2) d(2) that by (auto simp: st_push_def add.assoc)
  have eq': "push_db w db (Some q) data len =
    Some (if \<not> ok1 then (QDB_ERR_NOMEM, db, w1) else if r2 \<noteq> QDB_OK then (r2, db, w2)
      else if r3 \<noteq> QDB_OK then (QDB_ERR_IO, db1, w3) else if \<not> ok4 then (QDB_ERR_NOMEM, db1, w4)
      else if \<not> ok5 then (QDB_ERR_NOMEM, db1\<lparr>db_state := Some st5\<rparr>, w5) else (QDB_OK, db1\<lparr>db_state := Some ?st\<rparr>, w5))"
    using st5 db_okD(12) [OF ok] db1_def
    by (simp add: eq 1 2 [simplified of_nat_numeral] 3 [unfolded db1_def, simplified] 4 5 Let_def)
  have of: "only_file w w1 i" "only_file w w2 i" "r2 = QDB_OK \<Longrightarrow> only_file w w3 i"
    "r2 = QDB_OK \<Longrightarrow> only_file w w4 i" "r2 = QDB_OK \<Longrightarrow> only_file w w5 i"
    using op(5,6) same_fs_only_file [OF s1(1)] same_fs_only_file [OF s4(1)] same_fs_only_file [OF s5(1)]
    by (blast intro: only_file_trans)+
  show ?thesis
  proof (cases "ok1 \<and> r2 = QDB_OK \<and> r3 = QDB_OK")
    case False
    then show ?thesis
      unfolding eq' using of okw1 s1 calm1 op(1,3,7) push_outcome_intros(1,2) db1_def by auto
  next
    case True
    then have c: ok1 "r2 = QDB_OK" "r3 = QDB_OK" by auto
    have ok3: "db_ok w3 (db1\<lparr>db_state := Some ?st\<rparr>) i ?rs ?st ?A"
      using op(2) [OF c(2,3)] by (simp add: a_rec_push [OF n(2)] add.assoc)
    note o4 = db_ok_same [OF ok3 s4(1)] and o5 = db_ok_same [OF ok3 same_fs_trans [OF s4(1) s5(1)]]
    have calm: "calm w \<Longrightarrow> ok4 \<and> ok5 \<and> calm w5" using op(4) [OF c(2)] calm1 s4 s5 calm_same_fs by blast
    have same: "db1 = db1\<lparr>db_state := Some st\<rparr>" using db_okD(12) [OF ok] by (simp add: db1_def)
    have "push_outcome w db i rs st A n d (QDB_ERR_NOMEM, db1, w4)"
      by (subst same, rule push_outcome_intros(3) [OF of(4) [OF c(2)] o4 db1_def]) simp
    moreover have "push_outcome w db i rs st A n d (QDB_ERR_NOMEM, db1\<lparr>db_state := Some st5\<rparr>, w5)" if "\<not> ok5"
      by (rule push_outcome_intros(3) [OF of(5) [OF c(2)] o5 db1_def]) (use s5(2) d(2) that in \<open>simp add: st_simps\<close>)
    moreover have "push_outcome w db i rs st A n d (QDB_OK, db1\<lparr>db_state := Some ?st\<rparr>, w5)"
      by (rule push_outcome_intros(4) [OF of(5) [OF c(2)] o5 db1_def])
    ultimately show ?thesis unfolding eq' using c calm by auto
  qed
qed

section \<open>The operation\<close>

text \<open>
  Theorem C9.  A push with a valid name and length on a database in order, with room in the file:
  without failures it returns success; on success the log has grown by exactly the push record of
  the message and the in-memory state, the counters and the header are those of the grown log,
  with the message appended at the end of the pending sequence of its queue.  A failed append or
  first allocation leaves handle and database as they were.  An allocation failure after the commit
  leaves the message in the log, from where the next open restores it, while the tables in memory
  are as they were or hold the message unqueued.  A failed header patch leaves the record in every
  content of the file, the log end and the message counter past it, and the tables as they were.
\<close>

theorem push_appends_message:
  fixes q :: bytes
  assumes "db_ok w db i rs st A" and "n = take (strlen q) q" and "name_ok n"
    and "d = (if len > 0 then take len (the data) else [])" and "length d = len"
    and "len \<le> QDB_MSG_MAX_LEN" and "len > 0 \<Longrightarrow> data \<noteq> None" and "room db" and "db_next_msg_id db + 1 \<noteq> 0"
  shows "\<exists>rc db' w'. qdb_push w (Some db) (Some q) data len = Some (rc, Some db', w') \<and>
    push_outcome w db i rs st A n d (rc, db', w') \<and> (calm w \<longrightarrow> rc = QDB_OK \<and> calm w')"
  using push_spec [OF assms] by (force simp: qdb_push_def)

theorem push_appends_message_witness:
  "\<exists>rc db' w'. qdb_push (new_world []) (Some new_db) (Some [106, 111, 98]) (Some [1, 2]) 2 = Some (rc, Some db', w') \<and>
    push_outcome (new_world []) new_db 0 [] empty_state a_empty [106, 111, 98] [1, 2] (rc, db', w') \<and> rc = QDB_OK"
  using push_appends_message [OF new_db_ok [of "[]"], of "[106, 111, 98]" "[106, 111, 98]" "[1, 2]" 2 "Some [1, 2]"]
  by (auto simp: strlen_def name_ok_def)

section \<open>A database with one message\<close>

text \<open>The new database after the two bytes 1 and 2 were pushed to the queue with the name \<open>j\<close>.\<close>

definition one_db :: db where
  "one_db = fst (snd (the (push_db (new_world []) new_db (Some [106]) (Some [1, 2]) 2)))"

definition one_world :: world where
  "one_world = snd (snd (the (push_db (new_world []) new_db (Some [106]) (Some [1, 2]) 2)))"

definition one_spec :: astate where
  "one_spec = a_push 1 [106] 4115 2 a_empty"

lemma one_spec_simps [simp]:
  "a_pending one_spec n = (if n = [106] then [1] else [])"
  "a_msgs one_spec k = (if k = 1 then Some \<lparr>am_queue = [106], am_off = 4115, am_len = 2, am_retry = 0, am_status = APending\<rparr> else None)"
  by (simp_all add: one_spec_def a_push_def a_empty_def)

lemma room_log_len:
  assumes "db_ok w db i rs st A" and "unat (db_log_start_offset db) + log_len rs < 2 ^ 30"
  shows "room db"
  using log_is_len [OF db_okD(5) [OF assms(1)]] assms(2) by (simp add: room_def)

lemma one_db_ok:
  obtains st where "db_ok one_world one_db 0 [(QDB_RT_MSG_PUSH, push_buf 1 [106] [1, 2])] st one_spec" "calm one_world"
    "room one_db" "db_next_lease_id one_db = 1" "db_next_msg_id one_db = 2" "db_log_start_offset one_db = 4096"
    "db_lease_timeout_us one_db = 30000000" "qdb__time_us one_world = 1000005"
proof -
  from push_spec [OF new_db_ok [of "[]"], of "[106]" "[106]" "[1, 2]" 2 "Some [1, 2]"]
  obtain res where res: "push_db (new_world []) new_db (Some [106]) (Some [1, 2]) 2 = Some res"
    "push_outcome (new_world []) new_db 0 [] empty_state a_empty [106] [1, 2] res" "fst res = QDB_OK" "calm (snd (snd res))"
    by (auto simp: strlen_def name_ok_def)
  then have e: "res = (QDB_OK, one_db, one_world)" by (cases res) (simp add: one_db_def one_world_def)
  with res(2) obtain st e' where st: "db_ok one_world one_db 0 [(QDB_RT_MSG_PUSH, push_buf 1 [106] [1, 2])] st one_spec"
    "one_db = new_db\<lparr>db_log_end_offset := e', db_next_msg_id := 2, db_state := Some st\<rparr>"
    by (auto simp: push_outcome_def Let_def one_spec_def)
  have "w_clock one_world = Some (1, 5)"
    using res(2) only_file_simps(6) [of "new_world []" one_world 0] e by (simp add: push_outcome_def Let_def new_world_def one_file_world_def)
  then have t: "qdb__time_us one_world = 1000005" by (simp add: qdb__time_us_def)
  have f: "db_next_lease_id one_db = 1" "db_next_msg_id one_db = 2" "db_log_start_offset one_db = 4096"
    "db_lease_timeout_us one_db = 30000000"
    by (simp_all add: st(2)) (simp_all add: new_db_def)
  moreover have "room one_db" by (rule room_log_len [OF st(1)]) (simp add: f)
  ultimately show thesis using that [OF st(1)] res(4) e t by simp
qed

end
