(* ===== verification/PopProps.thy ===== *)
theory PopProps
  imports PushProps
begin

text \<open>
  What \<open>qdb_pop\<close> and \<open>qdb_pop_any\<close> do to a handle that satisfies the invariant \<open>db_ok\<close>: the message
  delivered is the head of the pending sequence, with the bytes its push record holds, under a
  lease no other message has.
\<close>

section \<open>The data of a message\<close>

text \<open>The push record of message \<open>k\<close> of queue \<open>n\<close> with data \<open>d\<close> is in the log.\<close>

definition pushed :: "(u8 \<times> bytes) list \<Rightarrow> u64 \<Rightarrow> bytes \<Rightarrow> bytes \<Rightarrow> bool" where
  "pushed rs k n d \<longleftrightarrow> (QDB_RT_MSG_PUSH, push_buf k n d) \<in> set rs"

lemma push_buf_surj:
  assumes "9 + unat (p ! 8) \<le> length p"
  shows "push_buf (qdb__get_u64le p) (slice p 9 (unat (p ! 8))) (drop (9 + unat (p ! 8)) p) = p"
proof -
  let ?n = "unat (p ! 8)"
  have t8: "qdb__put_u64le (qdb__get_u64le p) = take 8 p" using assms by (simp add: u64le.put_get)
  have t9: "take 8 p @ [p ! 8] = take 9 p" using assms by (simp add: take_Suc_conv_app_nth [symmetric])
  have "drop (9 + ?n) p = drop ?n (drop 9 p)" by (simp add: add.commute)
  then have d9: "slice p 9 ?n @ drop (9 + ?n) p = drop 9 p" by (simp only: slice_def append_take_drop_id)
  have l: "of_nat (length (slice p 9 ?n)) = p ! 8" using assms by simp
  have "push_buf (qdb__get_u64le p) (slice p 9 ?n) (drop (9 + ?n) p) = (take 8 p @ [p ! 8]) @ drop 9 p"
    unfolding push_buf_def l t8 d9 [symmetric] by simp
  also have "\<dots> = p" unfolding t9 by (rule append_take_drop_id)
  finally show ?thesis .
qed

definition stored :: "bytes \<Rightarrow> (u8 \<times> bytes) list \<Rightarrow> u64 \<Rightarrow> amsg \<Rightarrow> bool" where
  "stored f rs k am \<longleftrightarrow> (\<exists>d. pushed rs k (am_queue am) d \<and> length d = unat (am_len am) \<and>
     slice f (unat (am_off am)) (length d) = d \<and> unat (am_off am) + length d \<le> length f)"

lemma stored_cong:
  assumes "stored f rs k am" and "set rs \<subseteq> set rs'" and "am_queue am' = am_queue am" "am_len am' = am_len am" "am_off am' = am_off am"
  shows "stored f rs' k am'"
  using assms by (auto simp: stored_def pushed_def)

lemma stored_push:
  assumes p: "slice f (unat off) (10 + length p) = enc_rec 1 p" "unat off + 10 + length p \<le> length f" "length f < 2 ^ 63"
    "length p \<le> 67109376" and n: "9 + unat (p ! 8) \<le> length p" and r: "(1, p) \<in> set rs"
    and am: "am_queue am = slice p 9 (unat (p ! 8))" "am_off am = off + 9 + 9 + ucast (p ! 8)"
      "am_len am = of_nat (length p) - 9 - ucast (p ! 8)"
  shows "stored f rs (qdb__get_u64le p) am"
proof -
  let ?n = "unat (p ! 8)" and ?d = "drop (9 + unat (p ! 8)) p"
  have n8: "?n < 256" by (rule unat_u8_lt)
  have o: "unat (off + of_nat (18 + ?n)) = unat off + (18 + ?n)" using p(2,3) n by (intro wf_offset) simp
  then have off: "unat (am_off am) = unat off + 18 + ?n" by (simp add: am(2) add.assoc)
  have "of_nat (length p) - 9 - ucast (p ! 8) = (of_nat (length p - 9 - ?n) :: u32)"
    using n by (simp add: of_nat_diff)
  then have len: "unat (am_len am) = length ?d"
    using p(4) unat_of_nat_u32 [of "length p - 9 - ?n"] by (simp add: am(3))
  have "slice f (unat off + 9) (length p) = p" using enc_rec_elim(5) [OF p(1,2)] .
  then have "slice f (unat off + 9 + (9 + ?n)) (length ?d) = slice p (9 + ?n) (length ?d)"
    using slice_slice [of "9 + ?n" "length ?d" "length p" f "unat off + 9"] n by simp
  moreover have "slice p (9 + ?n) (length ?d) = ?d" by (simp add: slice_def)
  ultimately have "slice f (unat (am_off am)) (length ?d) = ?d" by (simp add: off add.assoc)
  moreover have "pushed rs (qdb__get_u64le p) (am_queue am) ?d" using r push_buf_surj [OF n] by (simp add: pushed_def am(1))
  ultimately show ?thesis unfolding stored_def using len off p(2) n by (intro exI [of _ ?d]) simp
qed

lemma a_rec_keeps:
  assumes "a_msgs (a_rec po t p A) k = Some am" and "\<not> (t = QDB_RT_MSG_PUSH \<and> k = qdb__get_u64le p)"
  shows "\<exists>am0. a_msgs A k = Some am0 \<and> am_queue am0 = am_queue am \<and> am_len am0 = am_len am \<and> am_off am0 = am_off am"
  using assms
  by (auto simp: a_rec_def a_push_def a_lease_def a_ack_def a_return_def split: if_splits option.splits)

lemma rec_stored:
  assumes R: "absR st0 A0" and old: "\<And>k m. qdb__msg_get st0 k = Some m \<Longrightarrow> stored f rs k (amsg_of m)"
    and p: "slice f (unat off) (10 + length p) = enc_rec t p" "unat off + 10 + length p \<le> length f" "length f < 2 ^ 63"
      "length p \<le> 67109376"
    and ap: "rec_apply (off + 9) t p (nm, nl, st0) = Inr (nm', nl', st)" and m: "qdb__msg_get st k = Some m"
  shows "stored f (rs @ [(t, p)]) k (amsg_of m)"
proof -
  have am: "a_msgs (a_rec (off + 9) t p A0) k = Some (amsg_of m)" using absR_msg(1) [OF rec_apply_absR [OF R ap] m] .
  have old': "stored f (rs @ [(t, p)]) k (amsg_of m)" if h: "a_msgs A0 k = Some am0" "am_queue am0 = am_queue (amsg_of m)"
    "am_len am0 = am_len (amsg_of m)" "am_off am0 = am_off (amsg_of m)" for am0
  proof -
    obtain m0 where m0: "qdb__msg_get st0 k = Some m0" "am0 = amsg_of m0" using h(1) by (auto simp: absRD(8) [OF R])
    show ?thesis using m0(2) h(2-4) by (intro stored_cong [OF old [OF m0(1)]]) auto
  qed
  show ?thesis
  proof (cases "t = QDB_RT_MSG_PUSH \<and> k = qdb__get_u64le p")
    case True
    then have "9 + unat (p ! 8) \<le> length p"
      using ap by (auto simp: rec_apply_def rec_push_def Let_def split: if_splits)
    moreover have "amsg_of m = \<lparr>am_queue = slice p 9 (unat (p ! 8)), am_off = off + 9 + 9 + ucast (p ! 8),
        am_len = of_nat (length p) - 9 - ucast (p ! 8), am_retry = 0, am_status = APending\<rparr>"
      using am True by (simp add: a_rec_def a_push_def)
    ultimately show ?thesis using True stored_push [OF p(1) [unfolded conjunct1 [OF True]] p(2-4)] by simp
  next
    case False
    with a_rec_keeps [OF am] obtain am0 where "a_msgs A0 k = Some am0" "am_queue am0 = am_queue (amsg_of m)"
      "am_len am0 = am_len (amsg_of m)" "am_off am0 = am_off (amsg_of m)" by blast
    with old' show ?thesis by blast
  qed
qed

lemma fold_stored:
  assumes "absR st0 A0" and "\<And>k m. qdb__msg_get st0 k = Some m \<Longrightarrow> stored f rs0 k (amsg_of m)"
    and "log_is f (unat off) b rs" and "length f < 2 ^ 63"
    and "rec_fold off rs (nm, nl, st0) = Inr (nm', nl', st)" and "qdb__msg_get st k = Some m"
  shows "stored f (rs0 @ rs) k (amsg_of m)"
  using assms
proof (induction rs arbitrary: off nm nl st0 A0 rs0)
  case (Cons r rs)
  obtain t p where r: "r = (t, p)" by fastforce
  have l: "slice f (unat off) (10 + length p) = enc_rec t p" "length p \<le> 67109376"
    "log_is f (unat off + 10 + length p) b rs"
    using Cons.prems(3) by (auto simp: r enc_def rec_ok_def)
  note bd = log_is_bounds [OF l(3)]
  have off: "unat (off + of_nat (10 + length p)) = unat off + 10 + length p"
    using bd Cons.prems(4) wf_offset [of off "10 + length p"] by simp
  from Cons.prems(5) obtain y nl1 st1 where s1: "rec_apply (off + 9) t p (nm, nl, st0) = Inr (y, nl1, st1)"
    "rec_fold (off + of_nat (10 + length p)) rs (y, nl1, st1) = Inr (nm', nl', st)" by (auto simp: r split: sum.splits)
  have new: "qdb__msg_get st1 k = Some m \<Longrightarrow> stored f (rs0 @ [(t, p)]) k (amsg_of m)" for k m
    using rec_stored [OF Cons.prems(1,2) l(1) _ Cons.prems(4) l(2) s1(1)] bd by simp
  have "log_is f (unat (off + of_nat (10 + length p))) b rs" unfolding off by (rule l(3))
  from Cons.IH [OF rec_apply_absR [OF Cons.prems(1) s1(1)] new this Cons.prems(4) s1(2) Cons.prems(6)]
  show ?case by (simp add: r)
qed (auto simp: rec_fold_def)

text \<open>A message of an open database has its bytes in the file, where the state says they are.\<close>

lemma db_ok_stored:
  assumes "db_ok w db i rs st A" and "qdb__msg_get st k = Some m"
  obtains d where "pushed rs k (m_queue_name m) d" "length d = unat (m_data_len m)"
    "at_file w (db_fd db) (m_data_file_offset m) d"
proof -
  note D = db_okD [OF assms(1)]
  have "stored (ino_data (w_ino w i)) ([] @ rs) k (amsg_of m)"
    by (rule fold_stored [OF absR_empty _ D(5,2,11) assms(2)]) simp
  then show thesis using that D(1,2) by (auto simp: stored_def at_file_def fdata_open [OF D(1)])
qed

section \<open>Lease records\<close>

definition lease_buf :: "u64 \<Rightarrow> u64 \<Rightarrow> u64 \<Rightarrow> bytes" where
  "lease_buf k e lid = qdb__put_u64le k @ qdb__put_u64le e @ qdb__put_u64le lid"

lemma lease_buf_fields [simp]:
  "length (lease_buf k e lid) = 24" "qdb__get_u64le (lease_buf k e lid) = k"
  "qdb__get_u64le (drop 8 (lease_buf k e lid)) = e" "qdb__get_u64le (drop 16 (lease_buf k e lid)) = lid"
  by (simp_all add: lease_buf_def u64le.get_put u64le.get_put_self)

lemma rec_lease_buf:
  assumes R: "absR st A" and m: "qdb__msg_get st k = Some m" "m_state m = QDB_MSG_STATE_PENDING"
    and lid: "lid \<noteq> 0" "qdb__lease_get st lid = None"
  shows "rec_apply po QDB_RT_MSG_LEASE (lease_buf k e lid) (nm, lid, st) =
    Inr (nm, lid + 1, st_lease st (m_queue_name m) k lid e)"
proof -
  obtain q where "qdb__queue_get st (m_queue_name m) = Some q" using absR_msg(5) [OF R m(1)] by blast
  then show ?thesis using m lid by (simp add: rec_apply_def rec_lease_def Let_def)
qed

lemma a_rec_lease: "a_rec po QDB_RT_MSG_LEASE (lease_buf k e lid) A = a_lease k lid e A"
  by (simp add: a_rec_def)

section \<open>Delivering a message\<close>

lemma pop_data_spec:
  assumes pd: "pop_data w fd m = (rc, dc, w')" and at: "at_file w fd (m_data_file_offset m) d"
    and len: "length d = unat (m_data_len m)"
  shows "same_fs w w'" "rc = QDB_OK \<and> dc = (if d = [] then None else Some d) \<or> (rc = QDB_ERR_IO \<or> rc = QDB_ERR_NOMEM) \<and> \<not> calm w"
proof -
  obtain ok w1 where 1: "heap_alloc w = (ok, w1)" by fastforce
  note s1 = heap_alloc_same [OF 1] heap_alloc_calm [OF 1]
  obtain r2 b2 w2 where 2: "qdb__read_full w1 fd (unat (m_data_len m)) (m_data_file_offset m) = (r2, b2, w2)"
    by (metis prod_cases3)
  have at1: "at_file w1 fd (m_data_file_offset m) d" using at by (simp add: at_file_same [OF s1(1)])
  have s2: "same_fs w1 w2" "r2 = QDB_OK \<and> b2 = d \<or> r2 = QDB_ERR_IO \<and> \<not> calm w1"
    using payload_read0 [OF 2 at1] len by auto
  have calm: "calm w \<Longrightarrow> calm w1" by (rule calm_same_fs [OF s1(1)])
  have "0 < m_data_len m \<longleftrightarrow> d \<noteq> []" using len by (simp add: word_less_nat_alt flip: length_greater_0_conv)
  with pd 1 2 s1 s2 calm same_fs_trans [OF s1(1) s2(1)]
  show "same_fs w w'" "rc = QDB_OK \<and> dc = (if d = [] then None else Some d) \<or> (rc = QDB_ERR_IO \<or> rc = QDB_ERR_NOMEM) \<and> \<not> calm w"
    by (auto simp: pop_data_def split: if_splits)
qed

text \<open>
  The outcomes of delivering message \<open>k\<close>: leased to the caller; nothing done, handle and caller's
  structure as they were (and the files too when an allocation failed); the lease record in the log,
  but the header patch failed, so the tables are as they were while the log end and the lease counter
  of the handle have moved on.
\<close>

definition delivered :: "db \<Rightarrow> u64 \<Rightarrow> bytes \<Rightarrow> bytes \<Rightarrow> u32 \<Rightarrow> qdb_msg_t" where
  "delivered db k n d retries = \<lparr>om_id = k, om_lease_id = db_next_lease_id db, om_queue = Some n,
     om_data = (if d = [] then None else Some d), om_len = length d, om_retry_count = retries\<rparr>"

definition pop_outcome :: "world \<Rightarrow> db \<Rightarrow> nat \<Rightarrow> (u8 \<times> bytes) list \<Rightarrow> qdb__state \<Rightarrow> astate \<Rightarrow> u64 \<Rightarrow> qdb_msg_t \<Rightarrow> qdb_msg_t
    \<Rightarrow> int \<times> qdb_msg_t \<times> db \<times> world \<Rightarrow> bool" where
  "pop_outcome w db i rs st A k good out res \<longleftrightarrow> (case res of (rc, out', db', w') \<Rightarrow>
     let lid = db_next_lease_id db; e = qdb__time_us w + db_lease_timeout_us db;
         db1 = db\<lparr>db_log_end_offset := db_log_end_offset db', db_next_lease_id := lid + 1\<rparr> in
     only_file w w' i \<and>
     (rc = QDB_OK \<and> out' = good \<and>
       (\<exists>st'. db' = db1\<lparr>db_state := Some st'\<rparr> \<and>
          db_ok w' db' i (rs @ [(QDB_RT_MSG_LEASE, lease_buf k e lid)]) st' (a_lease k lid e A)) \<or>
     (rc = QDB_ERR_IO \<or> rc = QDB_ERR_NOMEM \<and> same_fs w w') \<and> out' = out \<and> db' = db \<and> db_ok w' db i rs st A \<or>
     rc = QDB_ERR_IO \<and> out' = out \<and> db' = db1 \<and> logged w' db' i (rs @ [(QDB_RT_MSG_LEASE, lease_buf k e lid)])))"

lemma do_pop_eq:
  "do_pop w db st q m out =
    (let (ok, w1) = heap_alloc w in
     if \<not> ok then (QDB_ERR_NOMEM, out, db, w1)
     else let (rc, dc, w2) = pop_data w1 (db_fd db) m in
     if rc \<noteq> QDB_OK then (rc, out, db, w2)
     else let (ok, w3) = heap_alloc w2 in
     if \<not> ok then (QDB_ERR_NOMEM, out, db, w3)
     else let lid = db_next_lease_id db; e = qdb__time_us w3 + db_lease_timeout_us db;
              (rc, new_end, w4) = qdb__append_record w3 (db_fd db) QDB_RT_MSG_LEASE (lease_buf (m_id m) e lid) 24 (db_log_end_offset db) in
     if rc \<noteq> QDB_OK then (rc, out, db, w4)
     else let db1 = db\<lparr>db_log_end_offset := new_end, db_next_lease_id := lid + 1\<rparr>;
              (rc, w5) = qdb__header_update w4 (db_fd db1) db1 in
     if rc \<noteq> QDB_OK then (QDB_ERR_IO, out, db1, w5)
     else (QDB_OK, \<lparr>om_id = m_id m, om_lease_id = lid, om_queue = Some (m_queue_name m), om_data = dc,
              om_len = unat (m_data_len m), om_retry_count = m_retry_count m\<rparr>,
           db1\<lparr>db_state := Some (st_lease st q (m_id m) lid e)\<rparr>, w5))"
  by (simp add: do_pop_def lease_buf_def st_lease_def lease_insert_eq Let_def cong: if_cong prod.case_cong)

lemma pop_outcome_intros:
  "only_file w w' i \<Longrightarrow> db_ok w' db i rs st A \<Longrightarrow> rc = QDB_ERR_IO \<or> rc = QDB_ERR_NOMEM \<and> same_fs w w' \<Longrightarrow>
    pop_outcome w db i rs st A k good out (rc, out, db, w')"
  "only_file w w' i \<Longrightarrow> db1 = db\<lparr>db_log_end_offset := e, db_next_lease_id := db_next_lease_id db + 1\<rparr> \<Longrightarrow>
    logged w' db1 i (rs @ [(QDB_RT_MSG_LEASE, lease_buf k (qdb__time_us w + db_lease_timeout_us db) (db_next_lease_id db))]) \<Longrightarrow>
    pop_outcome w db i rs st A k good out (QDB_ERR_IO, out, db1, w')"
  "only_file w w' i \<Longrightarrow> db1 = db\<lparr>db_log_end_offset := e, db_next_lease_id := db_next_lease_id db + 1\<rparr> \<Longrightarrow>
   db_ok w' (db1\<lparr>db_state := Some st'\<rparr>) i
     (rs @ [(QDB_RT_MSG_LEASE, lease_buf k (qdb__time_us w + db_lease_timeout_us db) (db_next_lease_id db))]) st'
     (a_lease k (db_next_lease_id db) (qdb__time_us w + db_lease_timeout_us db) A) \<Longrightarrow>
   pop_outcome w db i rs st A k good out (QDB_OK, good, db1\<lparr>db_state := Some st'\<rparr>, w')"
  by (auto simp: pop_outcome_def Let_def)

lemma do_pop_spec:
  assumes ok: "db_ok w db i rs st A" and m: "qdb__msg_get st k = Some m" "m_state m = QDB_MSG_STATE_PENDING"
    and rm: "room db" and nl: "db_next_lease_id db + 1 \<noteq> 0"
  shows "\<exists>d. pushed rs k (m_queue_name m) d \<and>
    pop_outcome w db i rs st A k (delivered db k (m_queue_name m) d (m_retry_count m)) out
      (do_pop w db st (m_queue_name m) m out) \<and>
    (calm w \<longrightarrow> fst (do_pop w db st (m_queue_name m) m out) = QDB_OK \<and>
       calm (snd (snd (snd (do_pop w db st (m_queue_name m) m out)))))"
proof -
  note D = db_okD [OF ok]
  obtain d where d: "pushed rs k (m_queue_name m) d" "length d = unat (m_data_len m)"
    "at_file w (db_fd db) (m_data_file_offset m) d" by (rule db_ok_stored [OF ok m(1)])
  have mid: "m_id m = k" by (rule absR_msg(2) [OF D(13) m(1)])
  let ?lid = "db_next_lease_id db"
  obtain ok1 w1 where 1: "heap_alloc w = (ok1, w1)" by fastforce
  note s1 = heap_alloc_same [OF 1] heap_alloc_calm [OF 1]
  obtain r2 dc w2 where 2: "pop_data w1 (db_fd db) m = (r2, dc, w2)" by (metis prod_cases3)
  have "at_file w1 (db_fd db) (m_data_file_offset m) d" using d(3) by (simp add: at_file_same [OF s1(1)])
  note s2 = pop_data_spec [OF 2 this d(2)]
  obtain ok3 w3 where 3: "heap_alloc w2 = (ok3, w3)" by fastforce
  note s3 = heap_alloc_same [OF 3] heap_alloc_calm [OF 3]
  have fs: "same_fs w w2" "same_fs w w3" using s1(1) s2(1) s3(1) by (blast intro: same_fs_trans)+
  have calm: "calm w \<Longrightarrow> calm w1 \<and> calm w2 \<and> calm w3" using fs s1(1) by (auto intro: calm_same_fs)
  define e where "e = qdb__time_us w + db_lease_timeout_us db"
  have e3: "qdb__time_us w3 + db_lease_timeout_us db = e" by (simp add: e_def qdb__time_us_def same_fs_simps [OF fs(2)])
  let ?p = "lease_buf k e ?lid"
  obtain r4 ne w4 where 4: "qdb__append_record w3 (db_fd db) QDB_RT_MSG_LEASE ?p 24 (db_log_end_offset db) = (r4, ne, w4)"
    by (metis prod_cases3)
  define db1 where "db1 = db\<lparr>db_log_end_offset := ne, db_next_lease_id := ?lid + 1\<rparr>"
  obtain r5 w5 where 5: "qdb__header_update w4 (db_fd db1) db1 = (r5, w5)" by fastforce
  let ?st = "st_lease st (m_queue_name m) k ?lid e"
  have eq: "do_pop w db st (m_queue_name m) m out =
    (if \<not> ok1 then (QDB_ERR_NOMEM, out, db, w1) else if r2 \<noteq> QDB_OK then (r2, out, db, w2)
     else if \<not> ok3 then (QDB_ERR_NOMEM, out, db, w3) else if r4 \<noteq> QDB_OK then (r4, out, db, w4)
     else if r5 \<noteq> QDB_OK then (QDB_ERR_IO, out, db1, w5)
     else (QDB_OK, \<lparr>om_id = k, om_lease_id = ?lid, om_queue = Some (m_queue_name m), om_data = dc,
              om_len = unat (m_data_len m), om_retry_count = m_retry_count m\<rparr>, db1\<lparr>db_state := Some ?st\<rparr>, w5))"
    unfolding do_pop_eq Let_def 1 2 3 mid e3 4 prod.case db1_def [symmetric] 5 by simp
  have "qdb__lease_get st ?lid = None" using D(10) [of ?lid] by (metis less_irrefl)
  note app = rec_lease_buf [OF D(13) m D(9) this, where e = e]
  have dbe: "db1 = db\<lparr>db_log_end_offset := ne, db_next_msg_id := db_next_msg_id db, db_next_lease_id := ?lid + 1\<rparr>"
    by (simp add: db1_def)
  have p: "length ?p = unat (24 :: u32)" "rec_ok (2, ?p)" "fresh [(2, ?p)] (db_next_msg_id db)"
    by (simp_all add: rec_ok_def is_known_type_def fresh_def)
  have "unat (db_log_end_offset db) + 10 + length ?p < 2 ^ 63" by (rule roomD [OF rm]) simp
  note op = log_op [OF db_ok_same [OF ok fs(2)] 4 p(1,2) this dbe 5 app p(3) order_refl D(8) nl]
  have of: "only_file w w1 i" "only_file w w2 i" "only_file w w3 i" "only_file w w4 i" "r4 = QDB_OK \<Longrightarrow> only_file w w5 i"
    using same_fs_only_file [OF s1(1)] same_fs_only_file [OF fs(1)] same_fs_only_file [OF fs(2)] op(5,6)
    by (blast intro: only_file_trans)+
  note oks = db_ok_same [OF ok s1(1)] db_ok_same [OF ok fs(1)] db_ok_same [OF ok fs(2)]
  have "pop_outcome w db i rs st A k (delivered db k (m_queue_name m) d (m_retry_count m)) out
      (do_pop w db st (m_queue_name m) m out) \<and> (calm w \<longrightarrow> fst (do_pop w db st (m_queue_name m) m out) = QDB_OK \<and>
       calm (snd (snd (snd (do_pop w db st (m_queue_name m) m out)))))"
  proof (cases "ok1 \<and> r2 = QDB_OK \<and> ok3 \<and> r4 = QDB_OK \<and> r5 = QDB_OK")
    case False
    then show ?thesis
      unfolding eq using oks of s1 s2(2) s3(2) fs calm op(1,3,7) pop_outcome_intros(1,2) db1_def by (auto simp: e_def)
  next
    case True
    have "db_ok w5 (db1\<lparr>db_state := Some ?st\<rparr>) i (rs @ [(2, ?p)]) ?st (a_lease k ?lid e A)"
      using op(2) True by (simp add: a_rec_lease)
    moreover have "dc = (if d = [] then None else Some d)" using s2(2) True by auto
    ultimately show ?thesis
      unfolding eq using True d(2) pop_outcome_intros(3) [OF _ db1_def] op(4) calm of(5) by (simp add: delivered_def e_def)
  qed
  with d(1) show ?thesis by blast
qed

section \<open>Pop from one queue\<close>

lemma queue_head:
  assumes R: "absR st A" and q: "qdb__queue_get st n = Some q"
  shows "q_pending_count q = of_nat (length (a_pending A n))"
    "a_pending A n = [] \<Longrightarrow> q_pending_head q = 0"
    "a_pending A n = k # ks \<Longrightarrow> q_pending_head q = k \<and> k \<noteq> 0 \<and>
       (\<exists>m. qdb__msg_get st k = Some m \<and> m_state m = QDB_MSG_STATE_PENDING \<and> m_queue_name m = n)"
proof -
  have L: "list_ok (qdb__msg_get st) q (a_pending A n)" using absRD(11) [OF R q] by (simp add: queue_rel_def)
  then show "q_pending_count q = of_nat (length (a_pending A n))" "a_pending A n = [] \<Longrightarrow> q_pending_head q = 0"
    by (simp_all add: list_ok_def)
  assume a: "a_pending A n = k # ks"
  obtain am where am: "a_msgs A k = Some am" "am_queue am = n" "am_status am = APending" "k \<noteq> 0"
    using pending_queue [OF absRD(1) [OF R], of k n] a by auto
  obtain m where m: "qdb__msg_get st k = Some m" "am = amsg_of m" using am(1) by (auto simp: absRD(8) [OF R])
  have "m_state m \<noteq> QDB_MSG_STATE_DEAD" using absRD(9) [OF R m(1)] by (simp add: msg_tidy_def)
  then have "m_state m = QDB_MSG_STATE_PENDING" using am(3) m(2) astatus_of_iff(1) by simp
  then show "q_pending_head q = k \<and> k \<noteq> 0 \<and>
       (\<exists>m. qdb__msg_get st k = Some m \<and> m_state m = QDB_MSG_STATE_PENDING \<and> m_queue_name m = n)"
    using L a am m by (simp add: list_ok_def)
qed

lemma no_queue_no_pending: "absR st A \<Longrightarrow> qdb__queue_get st n = None \<Longrightarrow> a_pending A n = []"
  using pending_queue [of A _ n] absRD(1,10) by (metis list.set_intros(1) neq_Nil_conv)

lemma count_zero: "length xs < 2 ^ 32 \<Longrightarrow> (of_nat (length xs) :: u32) = 0 \<longleftrightarrow> xs = []"
  by (simp add: word_unat_eq_iff unat_of_nat_u32)

lemma pop_db_spec:
  fixes q :: bytes
  assumes ok: "db_ok w db i rs st A" and n: "n = take (strlen q) q" "name_ok n"
    and rm: "room db" and nl: "db_next_lease_id db + 1 \<noteq> 0" and few: "length (a_pending A n) < 2 ^ 32"
  shows "a_pending A n = [] \<Longrightarrow> pop_db w db (Some q) (Some out) = Some (QDB_ERR_EMPTY, Some out, db, w)"
    "a_pending A n = k # ks \<Longrightarrow> \<exists>d rc out' db' w'. pushed rs k n d \<and>
       pop_db w db (Some q) (Some out) = Some (rc, Some out', db', w') \<and>
       pop_outcome w db i rs st A k (delivered db k n d (am_retry (the (a_msgs A k)))) out (rc, out', db', w') \<and>
       (calm w \<longrightarrow> rc = QDB_OK \<and> calm w')"
proof -
  note D = db_okD [OF ok]
  have "strlen q \<le> length q" by (simp add: strlen_def length_takeWhile_le)
  then have g: "\<not> (strlen q = 0 \<or> strlen q > 255)" using n by (simp add: name_ok_def)
  show "pop_db w db (Some q) (Some out) = Some (QDB_ERR_EMPTY, Some out, db, w)" if "a_pending A n = []"
    using g D(12) queue_head(2) [OF D(13)] that by (auto simp: pop_db_def n(1) Let_def split: option.split)
  assume a: "a_pending A n = k # ks"
  then obtain qq where qq: "qdb__queue_get st n = Some qq" using no_queue_no_pending [OF D(13)] by fastforce
  note h = queue_head [OF D(13) qq]
  obtain m where m: "qdb__msg_get st k = Some m" "m_state m = QDB_MSG_STATE_PENDING" "m_queue_name m = n"
    using h(3) [OF a] by blast
  have c: "q_pending_count qq \<noteq> 0" using h(1) count_zero [OF few] a by simp
  obtain rc out' db' w' where r: "do_pop w db st n m out = (rc, out', db', w')" by (metis prod_cases4)
  have eq: "pop_db w db (Some q) (Some out) = Some (rc, Some out', db', w')"
    using g D(12) qq c h(3) [OF a] m r by (simp add: pop_db_def n(1) Let_def)
  have "am_retry (the (a_msgs A k)) = m_retry_count m" using absR_msg(1) [OF D(13) m(1)] by simp
  then show "\<exists>d rc out' db' w'. pushed rs k n d \<and> pop_db w db (Some q) (Some out) = Some (rc, Some out', db', w') \<and>
       pop_outcome w db i rs st A k (delivered db k n d (am_retry (the (a_msgs A k)))) out (rc, out', db', w') \<and>
       (calm w \<longrightarrow> rc = QDB_OK \<and> calm w')"
    using do_pop_spec [OF ok m(1,2) rm nl, of out] eq r by (simp add: m(3))
qed

section \<open>Pop from any queue\<close>

text \<open>The heads of the pending sequences of a list of queues.\<close>

definition heads :: "astate \<Rightarrow> qdb__queue list \<Rightarrow> (bytes \<times> u64) set" where
  "heads A qs = {(n, k). n \<in> q_name ` set qs \<and> (\<exists>ks. a_pending A n = k # ks)}"

lemma heads_Cons: "heads A (q # qs) = {(q_name q, k) |k. \<exists>ks. a_pending A (q_name q) = k # ks} \<union> heads A qs"
  by (auto simp: heads_def)

lemma pop_any_scan_spec:
  assumes R: "absR st A" and "\<And>q. q \<in> set qs \<Longrightarrow> qdb__queue_get st (q_name q) = Some q"
    and "\<And>n. length (a_pending A n) < 2 ^ 32"
    and "case best of None \<Rightarrow> bid = -1 | Some (n, m) \<Rightarrow> m_id m = bid"
  shows "\<exists>r. pop_any_scan st qs bid best = Inr r \<and>
    (r = best \<and> (\<forall>(n, k) \<in> heads A qs. bid \<le> k) \<or>
     (\<exists>n m. r = Some (n, m) \<and> (n, m_id m) \<in> heads A qs \<and> qdb__msg_get st (m_id m) = Some m \<and>
        m_state m = QDB_MSG_STATE_PENDING \<and> m_queue_name m = n \<and> m_id m < bid \<and> (\<forall>(n', k) \<in> heads A qs. m_id m \<le> k)))"
  using assms(2,4)
proof (induction qs arbitrary: bid best)
  case Nil
  then show ?case by (simp add: heads_def)
next
  case (Cons q qs)
  note h = queue_head [OF R Cons.prems(1), of q]
  show ?case
  proof (cases "a_pending A (q_name q)")
    case Nil
    then show ?thesis using Cons.IH [OF _ Cons.prems(2)] Cons.prems(1) h(1,2) by (simp add: heads_Cons)
  next
    case (Cons k ks)
    obtain m where m: "q_pending_head q = k" "k \<noteq> 0" "qdb__msg_get st k = Some m"
      "m_state m = QDB_MSG_STATE_PENDING" "m_queue_name m = q_name q" using h(3) [OF _ Cons] by auto
    have mid: "m_id m = k" by (rule absR_msg(2) [OF R m(3)])
    have "0 < q_pending_count q" using h(1) count_zero [OF assms(3), of "q_name q"] Cons by (simp add: word_neq_0_conv)
    then have eq: "pop_any_scan st (q # qs) bid best =
        (if k < bid then pop_any_scan st qs k (Some (q_name q, m)) else pop_any_scan st qs bid best)"
      using m mid by simp
    have hd: "heads A (q # qs) = insert (q_name q, k) (heads A qs)" using Cons by (auto simp: heads_Cons)
    show ?thesis
    proof (cases "k < bid")
      case True
      have "case Some (q_name q, m) of None \<Rightarrow> k = -1 | Some (n, m) \<Rightarrow> m_id m = k" using mid by simp
      from Cons.IH [OF _ this] Cons.prems(1) obtain r where r: "pop_any_scan st qs k (Some (q_name q, m)) = Inr r"
        "r = Some (q_name q, m) \<and> (\<forall>(n, j) \<in> heads A qs. k \<le> j) \<or>
         (\<exists>n m. r = Some (n, m) \<and> (n, m_id m) \<in> heads A qs \<and> qdb__msg_get st (m_id m) = Some m \<and>
           m_state m = QDB_MSG_STATE_PENDING \<and> m_queue_name m = n \<and> m_id m < k \<and> (\<forall>(n', j) \<in> heads A qs. m_id m \<le> j))"
        by auto
      from r(2) show ?thesis
      proof
        assume "r = Some (q_name q, m) \<and> (\<forall>(n, j) \<in> heads A qs. k \<le> j)"
        then show ?thesis using eq True r(1) m mid by (auto simp: hd)
      qed (use eq True r(1) in \<open>auto simp: hd\<close>)
    next
      case False
      from Cons.IH [OF _ Cons.prems(2)] Cons.prems(1) False show ?thesis by (auto simp: eq hd simp del: pop_any_scan.simps)
    qed
  qed
qed

lemma heads_nodes:
  assumes "absR st A"
  shows "heads A (queue_nodes st) = {(n, k). \<exists>ks. a_pending A n = k # ks}"
proof -
  have "n \<in> q_name ` set (queue_nodes st)" if pk: "a_pending A n = k # ks" for n k ks
  proof -
    obtain q where q: "qdb__queue_get st n = Some q" using no_queue_no_pending [OF assms] pk by fastforce
    then show ?thesis using qt.nodes_get [OF absRD(6) [OF assms], of q] qt.get_key [OF q] by force
  qed
  then show ?thesis by (auto simp: heads_def)
qed

lemma pop_any_db_spec:
  assumes ok: "db_ok w db i rs st A" and rm: "room db" and nl: "db_next_lease_id db + 1 \<noteq> 0"
    and few: "\<And>n. length (a_pending A n) < 2 ^ 32"
  shows "(\<And>n. a_pending A n = []) \<Longrightarrow> pop_any_db w db (Some out) = Some (QDB_ERR_EMPTY, Some out, db, w)"
    "a_pending A n0 \<noteq> [] \<Longrightarrow> \<exists>n k ks d rc out' db' w'. a_pending A n = k # ks \<and>
       (\<forall>n' k' ks'. a_pending A n' = k' # ks' \<longrightarrow> k \<le> k') \<and> pushed rs k n d \<and>
       pop_any_db w db (Some out) = Some (rc, Some out', db', w') \<and>
       pop_outcome w db i rs st A k (delivered db k n d (am_retry (the (a_msgs A k)))) out (rc, out', db', w') \<and>
       (calm w \<longrightarrow> rc = QDB_OK \<and> calm w')"
proof -
  note D = db_okD [OF ok]
  note hn = heads_nodes [OF D(13)]
  have "\<And>q. q \<in> set (queue_nodes st) \<Longrightarrow> qdb__queue_get st (q_name q) = Some q"
    using qt.nodes_get [OF absRD(6) [OF D(13)]] by blast
  from pop_any_scan_spec [OF D(13) this few, of "queue_nodes st" "-1" None]
  obtain r where r: "pop_any_scan st (queue_nodes st) (-1) None = Inr r"
    "r = None \<and> (\<forall>(n, k) \<in> heads A (queue_nodes st). -1 \<le> k) \<or>
     (\<exists>n m. r = Some (n, m) \<and> (n, m_id m) \<in> heads A (queue_nodes st) \<and> qdb__msg_get st (m_id m) = Some m \<and>
        m_state m = QDB_MSG_STATE_PENDING \<and> m_queue_name m = n \<and> (\<forall>(n', k) \<in> heads A (queue_nodes st). m_id m \<le> k))"
    by auto
  show "pop_any_db w db (Some out) = Some (QDB_ERR_EMPTY, Some out, db, w)" if "\<And>n. a_pending A n = []"
    using r that D(12) by (auto simp: pop_any_db_def hn)
  assume "a_pending A n0 \<noteq> []"
  then obtain k0 ks0 where k0: "a_pending A n0 = k0 # ks0" by (meson neq_Nil_conv)
  then obtain q0 where "qdb__queue_get st n0 = Some q0" using no_queue_no_pending [OF D(13)] by fastforce
  from queue_head(3) [OF D(13) this k0] have "k0 < db_next_msg_id db" using db_ok_below [OF ok] by auto
  then have "\<not> -1 \<le> k0" using order_less_le_trans [OF _ word_order.extremum] by (simp add: not_le)
  then have "r \<noteq> None" using r(2) k0 unfolding hn by blast
  then obtain n m ks where m: "r = Some (n, m)" "a_pending A n = m_id m # ks" "qdb__msg_get st (m_id m) = Some m"
    "m_state m = QDB_MSG_STATE_PENDING" "m_queue_name m = n" "\<And>n' k' ks'. a_pending A n' = k' # ks' \<Longrightarrow> m_id m \<le> k'"
    using r(2) unfolding hn by blast
  obtain rc out' db' w' where p: "do_pop w db st n m out = (rc, out', db', w')" by (metis prod_cases4)
  have "pop_any_db w db (Some out) = Some (rc, Some out', db', w')"
    using r(1) m(1) p D(12) by (simp add: pop_any_db_def)
  moreover have "am_retry (the (a_msgs A (m_id m))) = m_retry_count m" using absR_msg(1) [OF D(13) m(3)] by simp
  moreover obtain d where "pushed rs (m_id m) n d"
    "pop_outcome w db i rs st A (m_id m) (delivered db (m_id m) n d (m_retry_count m)) out (rc, out', db', w')"
    "calm w \<longrightarrow> rc = QDB_OK \<and> calm w'"
    using do_pop_spec [OF ok m(3,4) rm nl, of out] p m(5) by auto
  ultimately show "\<exists>n k ks d rc out' db' w'. a_pending A n = k # ks \<and>
       (\<forall>n' k' ks'. a_pending A n' = k' # ks' \<longrightarrow> k \<le> k') \<and> pushed rs k n d \<and>
       pop_any_db w db (Some out) = Some (rc, Some out', db', w') \<and>
       pop_outcome w db i rs st A k (delivered db k n d (am_retry (the (a_msgs A k)))) out (rc, out', db', w') \<and>
       (calm w \<longrightarrow> rc = QDB_OK \<and> calm w')"
    using m(2,6) by (intro exI [of _ n] exI [of _ "m_id m"] exI [of _ ks] exI [of _ d] exI [of _ rc] exI [of _ out']
        exI [of _ db'] exI [of _ w']) auto
qed

section \<open>The operations\<close>

abbreviation (input) blank_msg :: qdb_msg_t where
  "blank_msg \<equiv> \<lparr>om_id = 0, om_lease_id = 0, om_queue = None, om_data = None, om_len = 0, om_retry_count = 0\<rparr>"

text \<open>
  Theorem C6.  A pop from a queue with pending messages (fewer than \<open>2 ^ 32\<close>, the range of the
  counter) delivers the first of them: the caller gets its id, its queue, the retry count and
  exactly the bytes its push record holds, under a lease id never used before, and the log has grown
  by the lease record, with the message taken off the pending sequence.  Without failures it
  succeeds; a failure before the record is durable leaves handle, database and the caller's
  structure as they were; a failed header patch leaves the lease record in every content of the file,
  the log end and the lease counter past it, and the tables and the caller's structure as they were.
\<close>

theorem pop_delivers_head:
  fixes q :: bytes
  assumes "db_ok w db i rs st A" and "n = take (strlen q) q" and "name_ok n"
    and "room db" and "db_next_lease_id db + 1 \<noteq> 0" and "length (a_pending A n) < 2 ^ 32"
    and "a_pending A n = k # ks"
  shows "\<exists>d rc out' db' w'. pushed rs k n d \<and>
    qdb_pop w (Some db) (Some q) (Some out) = Some (rc, Some out', Some db', w') \<and>
    pop_outcome w db i rs st A k (delivered db k n d (am_retry (the (a_msgs A k)))) out (rc, out', db', w') \<and>
    (calm w \<longrightarrow> rc = QDB_OK \<and> calm w')"
  using pop_db_spec(2) [OF assms, of out] by (force simp: qdb_pop_def)

theorem pop_delivers_head_witness:
  "\<exists>db' w'. qdb_pop one_world (Some one_db) (Some [106]) (Some blank_msg) =
    Some (QDB_OK, Some \<lparr>om_id = 1, om_lease_id = 1, om_queue = Some [106], om_data = Some [1, 2], om_len = 2, om_retry_count = 0\<rparr>,
      Some db', w')"
proof -
  obtain st where st: "db_ok one_world one_db 0 [(QDB_RT_MSG_PUSH, push_buf 1 [106] [1, 2])] st one_spec" "calm one_world"
    "room one_db" "db_next_lease_id one_db = 1" by (rule one_db_ok)
  from pop_delivers_head [OF st(1) _ _ st(3), of "[106]" "[106]" 1 "[]" blank_msg] st(2,4)
  obtain d out' db' w' where r: "pushed [(QDB_RT_MSG_PUSH, push_buf 1 [106] [1, 2])] 1 [106] d"
    "qdb_pop one_world (Some one_db) (Some [106]) (Some blank_msg) = Some (QDB_OK, Some out', Some db', w')"
    "pop_outcome one_world one_db 0 [(QDB_RT_MSG_PUSH, push_buf 1 [106] [1, 2])] st one_spec 1 (delivered one_db 1 [106] d 0)
       blank_msg (QDB_OK, out', db', w')"
    by (auto simp: strlen_def name_ok_def)
  have "d = [1, 2]" using r(1) by (simp add: pushed_def push_buf_def)
  moreover have "out' = delivered one_db 1 [106] d 0" using r(3) by (auto simp: pop_outcome_def Let_def)
  ultimately show ?thesis using r(2) st(4) by (simp add: delivered_def)
qed

text \<open>
  Theorem C21.  A pop from a queue without pending messages, known or not, returns \<open>QDB_ERR_EMPTY\<close>
  and changes nothing.
\<close>

theorem pop_empty:
  fixes q :: bytes
  assumes "db_ok w db i rs st A" and "n = take (strlen q) q" and "name_ok n" and "a_pending A n = []"
  shows "qdb_pop w (Some db) (Some q) (Some out) = Some (QDB_ERR_EMPTY, Some out, Some db, w)"
proof -
  have "strlen q \<le> length q" by (simp add: strlen_def length_takeWhile_le)
  then have "\<not> (strlen q = 0 \<or> strlen q > 255)" using assms(2,3) by (simp add: name_ok_def)
  then show ?thesis
    using db_okD(12) [OF assms(1)] queue_head(2) [OF db_okD(13) [OF assms(1)]] assms(4)
    by (auto simp: qdb_pop_def pop_db_def assms(2) Let_def split: option.split)
qed

theorem pop_empty_witness:
  "qdb_pop (new_world []) (Some new_db) (Some [106, 0, 5]) (Some blank_msg) = Some (QDB_ERR_EMPTY, Some blank_msg, Some new_db, new_world [])"
  by (rule pop_empty [OF new_db_ok refl]) (simp_all add: strlen_def name_ok_def a_empty_def)

text \<open>
  Theorem C15.  \<open>qdb_pop_any\<close> delivers, like \<open>qdb_pop\<close>, the head of some pending sequence, and no other
  sequence has a head with a smaller id.
\<close>

theorem pop_any_delivers_smallest_head:
  assumes "db_ok w db i rs st A" and "room db" and "db_next_lease_id db + 1 \<noteq> 0"
    and "\<And>n. length (a_pending A n) < 2 ^ 32" and "a_pending A n0 \<noteq> []"
  shows "\<exists>n k ks d rc out' db' w'. a_pending A n = k # ks \<and>
    (\<forall>n' k' ks'. a_pending A n' = k' # ks' \<longrightarrow> k \<le> k') \<and> pushed rs k n d \<and>
    qdb_pop_any w (Some db) (Some out) = Some (rc, Some out', Some db', w') \<and>
    pop_outcome w db i rs st A k (delivered db k n d (am_retry (the (a_msgs A k)))) out (rc, out', db', w') \<and>
    (calm w \<longrightarrow> rc = QDB_OK \<and> calm w')"
proof -
  obtain n k ks d rc out' db' w' where "a_pending A n = k # ks" "\<forall>n' k' ks'. a_pending A n' = k' # ks' \<longrightarrow> k \<le> k'"
    "pushed rs k n d" "pop_any_db w db (Some out) = Some (rc, Some out', db', w')"
    "pop_outcome w db i rs st A k (delivered db k n d (am_retry (the (a_msgs A k)))) out (rc, out', db', w')"
    "calm w \<longrightarrow> rc = QDB_OK \<and> calm w'"
    using pop_any_db_spec(2) [OF assms, of out] by blast
  then show ?thesis
    by (intro exI [of _ n] exI [of _ k] exI [of _ ks] exI [of _ d] exI [of _ rc] exI [of _ out'] exI [of _ db'] exI [of _ w'])
      (simp add: qdb_pop_any_def)
qed

theorem pop_any_delivers_smallest_head_witness:
  "\<exists>out' db' w'. qdb_pop_any one_world (Some one_db) (Some blank_msg) = Some (QDB_OK, Some out', Some db', w') \<and> om_id out' = 1"
proof -
  obtain st where st: "db_ok one_world one_db 0 [(QDB_RT_MSG_PUSH, push_buf 1 [106] [1, 2])] st one_spec" "calm one_world"
    "room one_db" "db_next_lease_id one_db = 1" by (rule one_db_ok)
  have few: "\<And>n. length (a_pending one_spec n) < 2 ^ 32" and nl: "db_next_lease_id one_db + 1 \<noteq> 0" using st(4) by simp_all
  from pop_any_delivers_smallest_head [OF st(1,3) nl few, of "[106]" blank_msg] st(2)
  obtain d out' db' w' where
    "qdb_pop_any one_world (Some one_db) (Some blank_msg) = Some (QDB_OK, Some out', Some db', w')"
    "pop_outcome one_world one_db 0 [(QDB_RT_MSG_PUSH, push_buf 1 [106] [1, 2])] st one_spec 1 (delivered one_db 1 [106] d 0)
       blank_msg (QDB_OK, out', db', w')"
    by (auto split: if_splits)
  then show ?thesis by (auto simp: pop_outcome_def Let_def delivered_def)
qed

section \<open>A database with a leased message\<close>

text \<open>The database with one message after that message was popped.\<close>

definition leased_db :: db where
  "leased_db = fst (snd (snd (the (pop_db one_world one_db (Some [106]) (Some blank_msg)))))"

definition leased_world :: world where
  "leased_world = snd (snd (snd (the (pop_db one_world one_db (Some [106]) (Some blank_msg)))))"

definition leased_spec :: astate where
  "leased_spec = a_lease 1 1 (qdb__time_us one_world + 30000000) one_spec"

lemma leased_spec_simps [simp]:
  "a_pending leased_spec n = []"
  "a_msgs leased_spec k = (if k = 1 then Some \<lparr>am_queue = [106], am_off = 4115, am_len = 2, am_retry = 0,
      am_status = ALeased 1 (qdb__time_us one_world + 30000000)\<rparr> else None)"
  by (simp_all add: leased_spec_def a_lease_def)

lemma leased_db_ok:
  obtains rs st where "db_ok leased_world leased_db 0 rs st leased_spec" "calm leased_world" "room leased_db"
    "db_next_lease_id leased_db = 2" "qdb__time_us one_world = 1000005" "unat (db_log_end_offset leased_db) < 10000"
    "db_next_msg_id leased_db = 2"
proof -
  obtain st where st: "db_ok one_world one_db 0 [(QDB_RT_MSG_PUSH, push_buf 1 [106] [1, 2])] st one_spec" "calm one_world"
    "room one_db" "db_next_lease_id one_db = 1" "db_log_start_offset one_db = 4096" "db_lease_timeout_us one_db = 30000000"
    "qdb__time_us one_world = 1000005" "db_next_msg_id one_db = 2" by (rule one_db_ok)
  from pop_db_spec(2) [OF st(1) _ _ st(3), of "[106]" "[106]" 1 "[]" blank_msg] st(2,4)
  obtain d out' db' w' where r: "pop_db one_world one_db (Some [106]) (Some blank_msg) = Some (QDB_OK, Some out', db', w')"
    "pop_outcome one_world one_db 0 [(QDB_RT_MSG_PUSH, push_buf 1 [106] [1, 2])] st one_spec 1 (delivered one_db 1 [106] d 0)
       blank_msg (QDB_OK, out', db', w')" "calm w'"
    by (auto simp: strlen_def name_ok_def)
  have e: "db' = leased_db" "w' = leased_world" using r(1) by (simp_all add: leased_db_def leased_world_def)
  let ?rs = "[(QDB_RT_MSG_PUSH, push_buf 1 [106] [1, 2]), (QDB_RT_MSG_LEASE, lease_buf 1 (qdb__time_us one_world + 30000000) 1)]"
  obtain st' e' where st': "db_ok leased_world leased_db 0 ?rs st' leased_spec"
    "leased_db = one_db\<lparr>db_log_end_offset := e', db_next_lease_id := 2, db_state := Some st'\<rparr>"
    using r(2) st(4,6) e by (auto simp: pop_outcome_def Let_def leased_spec_def)
  have f: "db_next_lease_id leased_db = 2" "db_log_start_offset leased_db = 4096" "db_next_msg_id leased_db = 2"
    using st(5,8) by (simp_all add: st'(2))
  have "room leased_db" by (rule room_log_len [OF st'(1)]) (simp add: f)
  moreover have "unat (db_log_end_offset leased_db) < 10000" using log_is_len [OF db_okD(5) [OF st'(1)]] by (simp add: f)
  ultimately show thesis using that [OF st'(1)] r(3) e f st(7) by simp
qed

end
