(* ===== verification/AckProps.thy ===== *)
theory AckProps
  imports PopProps
begin

text \<open>
  What \<open>qdb_ack\<close>, \<open>qdb_nack\<close> and the expiry of leases do to a handle that satisfies the invariant
  \<open>db_ok\<close>: only the current lease of a message can end it; ending it logs one record and does the
  transition of the specification; everything else is refused and changes nothing.
\<close>

section \<open>Records that end a lease\<close>

definition done_buf :: "u64 \<Rightarrow> u64 \<Rightarrow> bytes" where
  "done_buf k lid = qdb__put_u64le k @ qdb__put_u64le lid"

lemma done_buf_fields [simp]:
  "length (done_buf k lid) = 16" "qdb__get_u64le (done_buf k lid) = k" "qdb__get_u64le (drop 8 (done_buf k lid)) = lid"
  by (simp_all add: done_buf_def u64le.get_put u64le.get_put_self)

definition st_done :: "u8 \<Rightarrow> qdb__state \<Rightarrow> bytes \<Rightarrow> u64 \<Rightarrow> u64 \<Rightarrow> qdb__state" where
  "st_done t = (if t = QDB_RT_MSG_ACK then st_ack else st_nack)"

definition a_done :: "u8 \<Rightarrow> u64 \<Rightarrow> astate \<Rightarrow> astate" where
  "a_done t = (if t = QDB_RT_MSG_ACK then a_ack else a_return)"

definition done_type :: "u8 \<Rightarrow> bool" where
  "done_type t \<longleftrightarrow> t = QDB_RT_MSG_ACK \<or> t = QDB_RT_MSG_NACK \<or> t = QDB_RT_MSG_EXPIRE"

lemma rec_done_buf:
  assumes R: "absR st A" and m: "qdb__msg_get st k = Some m" "m_state m = QDB_MSG_STATE_LEASED" and t: "done_type t"
  shows "rec_apply po t (done_buf k (m_lease_id m)) (nm, nl, st) =
    Inr (nm, nl, st_done t st (m_queue_name m) k (m_lease_id m))"
proof -
  obtain q where "qdb__queue_get st (m_queue_name m) = Some q" using absR_msg(5) [OF R m(1)] by blast
  then show ?thesis using m t by (auto simp: rec_apply_def rec_done_def st_done_def done_type_def Let_def)
qed

lemma a_rec_done: "done_type t \<Longrightarrow> a_rec po t (done_buf k lid) A = a_done t k A"
  by (auto simp: a_rec_def a_done_def done_type_def)

text \<open>Appending the record and patching the header, as all three operations do it.\<close>

definition log_done :: "world \<Rightarrow> db \<Rightarrow> u8 \<Rightarrow> bytes \<Rightarrow> qdb__state \<Rightarrow> int \<times> db \<times> world" where
  "log_done w db t p st' =
     (let (rc, new_end, w1) = qdb__append_record w (db_fd db) t p 16 (db_log_end_offset db) in
      if rc \<noteq> QDB_OK then (rc, db, w1)
      else let db1 = db\<lparr>db_log_end_offset := new_end\<rparr>; (rc, w2) = qdb__header_update w1 (db_fd db1) db1 in
      if rc \<noteq> QDB_OK then (QDB_ERR_IO, db1, w2) else (QDB_OK, db1\<lparr>db_state := Some st'\<rparr>, w2))"

text \<open>
  The outcomes: done; nothing done; the record in the log, but the header patch failed, so the tables
  are as they were while the log end of the handle has moved on.
\<close>

definition done_outcome :: "world \<Rightarrow> db \<Rightarrow> nat \<Rightarrow> (u8 \<times> bytes) list \<Rightarrow> qdb__state \<Rightarrow> astate \<Rightarrow> u8 \<Rightarrow> u64 \<Rightarrow> u64
    \<Rightarrow> int \<times> db \<times> world \<Rightarrow> bool" where
  "done_outcome w db i rs st A t k lid res \<longleftrightarrow> (case res of (rc, db', w') \<Rightarrow>
     let db1 = db\<lparr>db_log_end_offset := db_log_end_offset db'\<rparr> in
     only_file w w' i \<and>
     (rc = QDB_OK \<and> (\<exists>st'. db' = db1\<lparr>db_state := Some st'\<rparr> \<and>
        db_ok w' db' i (rs @ [(t, done_buf k lid)]) st' (a_done t k A)) \<or>
     rc = QDB_ERR_IO \<and> db' = db \<and> db_ok w' db i rs st A \<or>
     rc = QDB_ERR_IO \<and> db' = db1 \<and> logged w' db' i (rs @ [(t, done_buf k lid)])))"

lemma log_done_spec:
  assumes ok: "db_ok w db i rs st A" and m: "qdb__msg_get st k = Some m" "m_state m = QDB_MSG_STATE_LEASED"
    and lid: "m_lease_id m = lid" and t: "done_type t" and rm: "room db"
    and ld: "log_done w db t (done_buf k lid) (st_done t st (m_queue_name m) k lid) = (rc, db', w')"
  shows "done_outcome w db i rs st A t k lid (rc, db', w')" "calm w \<Longrightarrow> rc = QDB_OK \<and> calm w'"
    "rc = QDB_OK \<Longrightarrow> db_state db' = Some (st_done t st (m_queue_name m) k lid) \<and>
       unat (db_log_end_offset db') = unat (db_log_end_offset db) + 26"
proof -
  note D = db_okD [OF ok]
  let ?p = "done_buf k lid" and ?st = "st_done t st (m_queue_name m) k lid"
  obtain r1 ne w1 where 1: "qdb__append_record w (db_fd db) t ?p 16 (db_log_end_offset db) = (r1, ne, w1)" by (metis prod_cases3)
  define db1 where "db1 = db\<lparr>db_log_end_offset := ne\<rparr>"
  obtain r2 w2 where 2: "qdb__header_update w1 (db_fd db1) db1 = (r2, w2)" by fastforce
  have dbe: "db1 = db\<lparr>db_log_end_offset := ne, db_next_msg_id := db_next_msg_id db, db_next_lease_id := db_next_lease_id db\<rparr>"
    by (simp add: db1_def)
  have p: "length ?p = unat (16 :: u32)" "rec_ok (t, ?p)" "fresh [(t, ?p)] (db_next_msg_id db)"
    using t by (auto simp: rec_ok_def is_known_type_def fresh_def done_type_def)
  have rm': "unat (db_log_end_offset db) + 10 + length ?p < 2 ^ 63" by (rule roomD [OF rm]) simp
  note app = rec_done_buf [OF D(13) m t, unfolded lid]
  note op = log_op [OF ok 1 p(1,2) rm' dbe 2 app p(3) order_refl D(8,9)]
  have eq: "(rc, db', w') = (if r1 \<noteq> QDB_OK then (r1, db, w1) else if r2 \<noteq> QDB_OK then (QDB_ERR_IO, db1, w2)
      else (QDB_OK, db1\<lparr>db_state := Some ?st\<rparr>, w2))"
    unfolding ld [symmetric] log_done_def Let_def 1 prod.case db1_def [symmetric] 2 by simp
  have ok2: "db_ok w2 (db1\<lparr>db_state := Some ?st\<rparr>) i (rs @ [(t, ?p)]) ?st (a_done t k A)" if "r1 = QDB_OK" "r2 = QDB_OK"
    using op(2) [OF that] a_rec_done [OF t] by simp
  show "done_outcome w db i rs st A t k lid (rc, db', w')"
    unfolding eq using op(1,5,6,7) ok2 by (auto simp: done_outcome_def Let_def db1_def)
  show "calm w \<Longrightarrow> rc = QDB_OK \<and> calm w'" using eq op(1,3,4) by (auto split: if_splits)
  show "db_state db' = Some ?st \<and> unat (db_log_end_offset db') = unat (db_log_end_offset db) + 26" if "rc = QDB_OK"
  proof -
    have c: "r1 = QDB_OK" "r2 = QDB_OK" "db' = db1\<lparr>db_state := Some ?st\<rparr>" using eq that op(1) by (auto split: if_splits)
    have "unat ne = unat (db_log_end_offset db) + 10 + length ?p" using append_record_spec [OF 1 D(1) p(1) rm' D(14)] c(1) by blast
    then show ?thesis using c by (simp add: db1_def)
  qed
qed

lemma return_msg_eq:
  assumes "qdb__queue_get st (m_queue_name m) = Some q"
  shows "return_msg st m k lid = st_nack st (m_queue_name m) k lid"
  using assms by (simp add: return_msg_def st_nack_def Let_def)

lemma done_eq:
  assumes R: "absR st A" and db: "db_state db = Some st"
    and m: "qdb__msg_get st k = Some m" "m_state m = QDB_MSG_STATE_LEASED" and lid: "m_lease_id m = lid"
  shows "ack_db w db k lid = Some (log_done w db QDB_RT_MSG_ACK (done_buf k lid) (st_done QDB_RT_MSG_ACK st (m_queue_name m) k lid))"
    "nack_db w db k lid = Some (log_done w db QDB_RT_MSG_NACK (done_buf k lid) (st_done QDB_RT_MSG_NACK st (m_queue_name m) k lid))"
    "expire_one w db lid k = Some (log_done w db QDB_RT_MSG_EXPIRE (done_buf k lid) (st_done QDB_RT_MSG_EXPIRE st (m_queue_name m) k lid))"
proof -
  obtain q where q: "qdb__queue_get st (m_queue_name m) = Some q" using absR_msg(5) [OF R m(1)] by blast
  have "(if b then Some x else Some y) = Some (if b then x else y)" for b and x y :: "int \<times> db \<times> world" by simp
  note simps = log_done_def Let_def done_buf_def st_done_def case_prod_beta this
  show "ack_db w db k lid = Some (log_done w db QDB_RT_MSG_ACK (done_buf k lid) (st_done QDB_RT_MSG_ACK st (m_queue_name m) k lid))"
    using assms q by (simp add: ack_db_def simps st_ack_def upd_commute)
  show "nack_db w db k lid = Some (log_done w db QDB_RT_MSG_NACK (done_buf k lid) (st_done QDB_RT_MSG_NACK st (m_queue_name m) k lid))"
    using assms q by (simp add: nack_db_def simps return_msg_eq)
  show "expire_one w db lid k = Some (log_done w db QDB_RT_MSG_EXPIRE (done_buf k lid) (st_done QDB_RT_MSG_EXPIRE st (m_queue_name m) k lid))"
    using assms q by (simp add: expire_one_def simps return_msg_eq)
qed

lemma leased_msg:
  assumes "absR st A" and "a_msgs A k = Some am" and "am_status am = ALeased lid e"
  obtains m where "qdb__msg_get st k = Some m" "m_state m = QDB_MSG_STATE_LEASED" "m_lease_id m = lid"
    "m_lease_expiry_us m = e" "am = amsg_of m"
proof -
  obtain m where m: "qdb__msg_get st k = Some m" "am = amsg_of m" using assms(2) by (auto simp: absRD(8) [OF assms(1)])
  then show thesis using that assms(3) astatus_of_iff(2) by auto
qed

section \<open>Acknowledge and return\<close>

text \<open>
  Theorem C12.  Acknowledging a leased message with its lease: without failures it succeeds; on
  success the acknowledgement is in the log and the message is acknowledged; a failed append leaves
  handle and database as they were; a failed header patch, reported as an I/O error, leaves the
  acknowledgement in every content of the file and the log end of the handle past it, while the
  message is still leased in memory.
\<close>

theorem ack_completes:
  assumes "db_ok w db i rs st A" and "room db" and "a_msgs A k = Some am" and "am_status am = ALeased lid e"
  shows "\<exists>rc db' w'. qdb_ack w (Some db) k lid = Some (rc, Some db', w') \<and>
    done_outcome w db i rs st A QDB_RT_MSG_ACK k lid (rc, db', w') \<and> (calm w \<longrightarrow> rc = QDB_OK \<and> calm w')"
proof -
  note D = db_okD [OF assms(1)]
  obtain m where m: "qdb__msg_get st k = Some m" "m_state m = QDB_MSG_STATE_LEASED" "m_lease_id m = lid"
    by (rule leased_msg [OF D(13) assms(3,4)])
  obtain rc db' w' where r: "log_done w db QDB_RT_MSG_ACK (done_buf k lid) (st_done QDB_RT_MSG_ACK st (m_queue_name m) k lid) = (rc, db', w')"
    by (metis prod_cases3)
  show ?thesis
    using log_done_spec(1,2) [OF assms(1) m _ assms(2) r] done_eq(1) [OF D(13,12) m, of w] r
    by (simp add: qdb_ack_def done_type_def)
qed

theorem ack_completes_witness:
  "\<exists>db' w'. qdb_ack leased_world (Some leased_db) 1 1 = Some (QDB_OK, Some db', w')"
proof -
  obtain rs st where st: "db_ok leased_world leased_db 0 rs st leased_spec" "calm leased_world" "room leased_db"
    by (rule leased_db_ok)
  show ?thesis using ack_completes [OF st(1,3), of 1 "the (a_msgs leased_spec 1)"] st(2) by simp blast
qed

text \<open>
  Theorem C13.  Returning a leased message with its lease puts it back at the end of the pending
  sequence of its queue, with its retry count one higher, and logs the return; failures are as for
  an acknowledgement.
\<close>

theorem nack_redelivers:
  assumes "db_ok w db i rs st A" and "room db" and "a_msgs A k = Some am" and "am_status am = ALeased lid e"
  shows "\<exists>rc db' w'. qdb_nack w (Some db) k lid = Some (rc, Some db', w') \<and>
    done_outcome w db i rs st A QDB_RT_MSG_NACK k lid (rc, db', w') \<and> (calm w \<longrightarrow> rc = QDB_OK \<and> calm w') \<and>
    a_pending (a_done QDB_RT_MSG_NACK k A) (am_queue am) = a_pending A (am_queue am) @ [k] \<and>
    a_msgs (a_done QDB_RT_MSG_NACK k A) k = Some (am\<lparr>am_status := APending, am_retry := am_retry am + 1\<rparr>)"
proof -
  note D = db_okD [OF assms(1)]
  obtain m where m: "qdb__msg_get st k = Some m" "m_state m = QDB_MSG_STATE_LEASED" "m_lease_id m = lid"
    by (rule leased_msg [OF D(13) assms(3,4)])
  obtain rc db' w' where r: "log_done w db QDB_RT_MSG_NACK (done_buf k lid) (st_done QDB_RT_MSG_NACK st (m_queue_name m) k lid) = (rc, db', w')"
    by (metis prod_cases3)
  show ?thesis
    using log_done_spec(1,2) [OF assms(1) m _ assms(2) r] done_eq(2) [OF D(13,12) m, of w] r assms(3)
    by (simp add: qdb_nack_def done_type_def a_done_def a_return_def)
qed

theorem nack_redelivers_witness:
  "\<exists>db' w'. qdb_nack leased_world (Some leased_db) 1 1 = Some (QDB_OK, Some db', w')"
proof -
  obtain rs st where st: "db_ok leased_world leased_db 0 rs st leased_spec" "calm leased_world" "room leased_db"
    by (rule leased_db_ok)
  show ?thesis using nack_redelivers [OF st(1,3), of 1 "the (a_msgs leased_spec 1)"] st(2) by simp blast
qed

lemma stale_refused:
  assumes "db_ok w db i rs st A" and "\<nexists>am e. a_msgs A k = Some am \<and> am_status am = ALeased lid e"
  shows "\<exists>rc. qdb_ack w (Some db) k lid = Some (rc, Some db, w) \<and> qdb_nack w (Some db) k lid = Some (rc, Some db, w) \<and>
    rc = (if \<exists>am. a_msgs A k = Some am \<and> is_leased (am_status am) then QDB_ERR_INVAL else QDB_ERR_NOENT)"
proof (cases "qdb__msg_get st k")
  note D = db_okD [OF assms(1)]
  case None
  then have "a_msgs A k = None" by (simp add: absRD(8) [OF D(13)])
  then show ?thesis using None D(12) by (simp add: qdb_ack_def qdb_nack_def ack_db_def nack_db_def)
next
  note D = db_okD [OF assms(1)]
  case (Some m)
  have am: "a_msgs A k = Some (amsg_of m)" using absR_msg(1) [OF D(13) Some] .
  then have "m_state m = QDB_MSG_STATE_LEASED \<Longrightarrow> m_lease_id m \<noteq> lid" using assms(2) astatus_of_iff(2) by auto
  then show ?thesis using Some D(12) am by (simp add: qdb_ack_def qdb_nack_def ack_db_def nack_db_def astatus_of_iff(3))
qed

text \<open>
  Theorem C11.  A message that is unknown, pending or acknowledged can be neither acknowledged nor
  returned (\<open>QDB_ERR_NOENT\<close>), and a leased one not with another lease, for instance one that has
  expired (\<open>QDB_ERR_INVAL\<close>); handle and files stay as they were.
\<close>

theorem stale_lease_refused:
  assumes "db_ok w db i rs st A" and "\<nexists>am e. a_msgs A k = Some am \<and> am_status am = ALeased lid e"
  shows "\<exists>rc. qdb_ack w (Some db) k lid = Some (rc, Some db, w) \<and> qdb_nack w (Some db) k lid = Some (rc, Some db, w) \<and>
    rc = (if \<exists>am. a_msgs A k = Some am \<and> is_leased (am_status am) then QDB_ERR_INVAL else QDB_ERR_NOENT)"
  by (rule stale_refused [OF assms])

theorem stale_lease_refused_witness:
  "qdb_ack leased_world (Some leased_db) 1 7 = Some (QDB_ERR_INVAL, Some leased_db, leased_world) \<and>
   qdb_nack one_world (Some one_db) 1 1 = Some (QDB_ERR_NOENT, Some one_db, one_world)"
proof -
  obtain rs st where st: "db_ok leased_world leased_db 0 rs st leased_spec" by (rule leased_db_ok)
  obtain st1 where st1: "db_ok one_world one_db 0 [(QDB_RT_MSG_PUSH, push_buf 1 [106] [1, 2])] st1 one_spec" by (rule one_db_ok)
  show ?thesis using stale_lease_refused [OF st, of 1 7] stale_lease_refused [OF st1, of 1 1] by simp
qed

section \<open>Expiry\<close>

text \<open>What the end of a lease leaves alone: the time, the messages pushed, the counters and the timeout.\<close>

definition pushes :: "(u8 \<times> bytes) list \<Rightarrow> (u8 \<times> bytes) list" where
  "pushes rs = filter (\<lambda>r. fst r = QDB_RT_MSG_PUSH) rs"

definition later :: "world \<Rightarrow> db \<Rightarrow> (u8 \<times> bytes) list \<Rightarrow> world \<Rightarrow> db \<Rightarrow> (u8 \<times> bytes) list \<Rightarrow> bool" where
  "later w db rs w' db' rs' \<longleftrightarrow> w_clock w' = w_clock w \<and> pushes rs' = pushes rs \<and> db_next_msg_id db' = db_next_msg_id db \<and>
     db_next_lease_id db' = db_next_lease_id db \<and> db_lease_timeout_us db' = db_lease_timeout_us db"

lemma later_refl: "later w db rs w db rs"
  by (simp add: later_def)

lemma later_trans [trans]: "later a b c d e f \<Longrightarrow> later d e f x y z \<Longrightarrow> later a b c x y z"
  by (simp add: later_def)

lemma done_outcome_ok:
  assumes "done_outcome w db i rs st A t k lid (QDB_OK, db', w')" and "done_type t"
  obtains st' where "db_ok w' db' i (rs @ [(t, done_buf k lid)]) st' (a_done t k A)"
    "later w db rs w' db' (rs @ [(t, done_buf k lid)])"
proof -
  from assms(1) obtain st' where o: "only_file w w' i" "db_ok w' db' i (rs @ [(t, done_buf k lid)]) st' (a_done t k A)"
    "db' = db\<lparr>db_log_end_offset := db_log_end_offset db', db_state := Some st'\<rparr>"
    by (auto simp: done_outcome_def Let_def)
  have "db_next_msg_id db' = db_next_msg_id db" "db_next_lease_id db' = db_next_lease_id db"
    "db_lease_timeout_us db' = db_lease_timeout_us db" by (subst o(3), simp)+
  then show thesis using that [OF o(2)] only_file_simps(6) [OF o(1)] assms(2)
    by (auto simp: later_def pushes_def done_type_def)
qed

text \<open>An overdue lease that is still current is expired; any other is skipped.\<close>

lemma lease_node_msg:
  assumes "absR st A" and "qdb__lease_get st lid = Some l"
  obtains am where "a_msgs A (l_msg_id l) = Some am" "am_status am = ALeased lid (l_expiry_us l)" "l_lease_id l = lid"
  using assms absRD(4) [OF assms(1)] unfolding leases_rel_def by auto

lemma st_nack_leases:
  "lease_buckets (st_nack st n k lid) = hrem lease_bucket l_lease_id (lease_buckets st) lid"
proof -
  have "lease_buckets (qdb__queue_pending_append st n k) = lease_buckets st" for st n k
    by (simp add: qdb__queue_pending_append_def queue_upd_def msg_upd_def Let_def split: option.split)
  then show ?thesis by (simp add: st_nack_def Let_def lease_remove_buckets [symmetric] queue_upd_def msg_upd_def)
qed

lemma expire_one_step:
  assumes ok: "db_ok w db i rs st A" and c: "calm w" and rm: "room db" and l: "qdb__lease_get st lid = Some l"
  obtains db' w' rs' st' where "expire_one w db lid (l_msg_id l) = Some (QDB_OK, db', w')"
    "db_ok w' db' i rs' st' (a_return (l_msg_id l) A)" "calm w'"
    "unat (db_log_end_offset db') = unat (db_log_end_offset db) + 26"
    "lease_buckets st' = hrem lease_bucket l_lease_id (lease_buckets st) lid" "later w db rs w' db' rs'"
proof -
  note D = db_okD [OF ok]
  obtain am where am: "a_msgs A (l_msg_id l) = Some am" "am_status am = ALeased lid (l_expiry_us l)"
    by (rule lease_node_msg [OF D(13) l])
  obtain m where m: "qdb__msg_get st (l_msg_id l) = Some m" "m_state m = QDB_MSG_STATE_LEASED" "m_lease_id m = lid"
    by (rule leased_msg [OF D(13) am])
  let ?st = "st_done QDB_RT_MSG_EXPIRE st (m_queue_name m) (l_msg_id l) lid"
  obtain rc db' w' where r: "log_done w db QDB_RT_MSG_EXPIRE (done_buf (l_msg_id l) lid) ?st = (rc, db', w')" by (metis prod_cases3)
  have t: "done_type QDB_RT_MSG_EXPIRE" by (simp add: done_type_def)
  note sp = log_done_spec [OF ok m t rm r]
  have rc: "rc = QDB_OK" "calm w'" using sp(2) c by auto
  obtain rs' st' where o': "db_ok w' db' i rs' st' (a_return (l_msg_id l) A)" "later w db rs w' db' rs'"
    by (rule done_outcome_ok [OF sp(1) [unfolded rc(1)] t]) (simp add: a_done_def)
  then have o: "db_ok w' db' i rs' ?st (a_return (l_msg_id l) A)" using db_okD(12) [OF o'(1)] sp(3) rc by simp
  have e: "expire_one w db lid (l_msg_id l) = Some (QDB_OK, db', w')" using done_eq(3) [OF D(13,12) m, of w] r rc by simp
  show thesis
    by (rule that [OF e o rc(2)]) (use sp(3) rc o'(2) in \<open>simp_all add: st_done_def st_nack_leases\<close>)
qed

abbreviation (input) overdue :: "u64 \<Rightarrow> qdb__lease \<Rightarrow> bool" where
  "overdue now l \<equiv> l_expiry_us l < now"

definition expired :: "u64 \<Rightarrow> qdb__lease list \<Rightarrow> astate \<Rightarrow> astate" where
  "expired now ls A = fold (\<lambda>l. a_return (l_msg_id l)) (filter (overdue now) ls) A"

lemma expired_simps [simp]:
  "expired now [] A = A"
  "expired now (l # ls) A = (if overdue now l then expired now ls (a_return (l_msg_id l) A) else expired now ls A)"
  "expired now (ls @ ls') A = expired now ls' (expired now ls A)"
  by (simp_all add: expired_def)

text \<open>The count is the number of steps at 32 bits, so the number itself below \<open>2 ^ 31\<close>.\<close>

lemma funpow_funpow: "(f ^^ n) ((f ^^ m) c) = (f ^^ (m + n)) c"
  using funpow_add [of n m f] by (simp add: add.commute)

lemma int_inc_count: "(int_inc ^^ n) 0 = signed_take_bit 31 (int n)"
proof (induction n)
  case (Suc n)
  have "signed_take_bit 31 (signed_take_bit 31 (int n) + signed_take_bit 31 1) = signed_take_bit 31 (int n + 1)"
    by (rule signed_take_bit_add)
  moreover have "signed_take_bit 31 (1 :: int) = 1" by (rule signed_take_bit_int_eq_self) simp_all
  ultimately have "int_inc (signed_take_bit 31 (int n)) = signed_take_bit 31 (int (Suc n))"
    by (simp add: int_inc_def add.commute)
  with Suc.IH show ?case by simp
qed simp

lemma signed_take_bit_small: "n < 2 ^ 31 \<Longrightarrow> signed_take_bit 31 (int n) = int n"
  by (rule signed_take_bit_int_eq_self) simp_all

lemma expire_chain_spec:
  assumes "db_ok w db i rs st A" and "calm w" and "unat (db_log_end_offset db) + 26 * length ls + 2 ^ 27 < 2 ^ 63"
    and "\<And>l. l \<in> set ls \<Longrightarrow> qdb__lease_get st (l_lease_id l) = Some l" and "distinct (map l_lease_id ls)"
    and "\<And>l. l \<in> set ls \<Longrightarrow> lease_bucket (l_lease_id l) = b"
  shows "\<exists>db' w' rs' st'. expire_chain w db now ls c = Some ((int_inc ^^ length (filter (overdue now) ls)) c, True, db', w') \<and>
    db_ok w' db' i rs' st' (expired now ls A) \<and> calm w' \<and>
    unat (db_log_end_offset db') \<le> unat (db_log_end_offset db) + 26 * length ls \<and>
    (\<forall>b'. b' \<noteq> b \<longrightarrow> lease_buckets st' b' = lease_buckets st b') \<and> later w db rs w' db' rs'"
  using assms
proof (induction ls arbitrary: w db rs st A c)
  case Nil
  then show ?case using later_refl [of w db rs] by fastforce
next
  case (Cons l ls)
  have rm: "room db" using Cons.prems(3) by (simp add: room_def)
  show ?case
  proof (cases "overdue now l")
    case True
    have lg: "qdb__lease_get st (l_lease_id l) = Some l" using Cons.prems(4) by simp
    obtain db1 w1 rs1 st1 where s: "expire_one w db (l_lease_id l) (l_msg_id l) = Some (QDB_OK, db1, w1)"
      "db_ok w1 db1 i rs1 st1 (a_return (l_msg_id l) A)" "calm w1"
      "unat (db_log_end_offset db1) = unat (db_log_end_offset db) + 26"
      "lease_buckets st1 = hrem lease_bucket l_lease_id (lease_buckets st) (l_lease_id l)" "later w db rs w1 db1 rs1"
      by (rule expire_one_step [OF Cons.prems(1,2) rm lg])
    have get: "qdb__lease_get st1 = (\<lambda>j. if j = l_lease_id l then None else qdb__lease_get st j)"
      using absRD(7) [OF db_okD(13) [OF Cons.prems(1)]]
      by (simp add: fun_eq_iff lease_ops_eq(1) s(5) hget_hrem leases_ok_def)
    have new: "l_lease_id l' \<noteq> l_lease_id l" if "l' \<in> set ls" for l' using Cons.prems(5) imageI [OF that, of l_lease_id] by auto
    have pre: "unat (db_log_end_offset db1) + 26 * length ls + 2 ^ 27 < 2 ^ 63" "distinct (map l_lease_id ls)"
      "\<And>l. l \<in> set ls \<Longrightarrow> qdb__lease_get st1 (l_lease_id l) = Some l" "\<And>l. l \<in> set ls \<Longrightarrow> lease_bucket (l_lease_id l) = b"
      using s(4) Cons.prems new by (auto simp: get)
    obtain db' w' rs' st' where r: "expire_chain w1 db1 now ls (int_inc c) =
        Some ((int_inc ^^ length (filter (overdue now) ls)) (int_inc c), True, db', w')"
      "db_ok w' db' i rs' st' (expired now ls (a_return (l_msg_id l) A))" "calm w'"
      "unat (db_log_end_offset db') \<le> unat (db_log_end_offset db1) + 26 * length ls"
      "\<forall>b'. b' \<noteq> b \<longrightarrow> lease_buckets st' b' = lease_buckets st1 b'" "later w1 db1 rs1 w' db' rs'"
      using Cons.IH [OF s(2,3) pre(1,3,2,4), of "int_inc c"] by blast
    have "lease_buckets st1 b' = lease_buckets st b'" if "b' \<noteq> b" for b'
      using that Cons.prems(6) by (simp add: s(5) hrem_def)
    then show ?thesis using r(1-5) s(1,4) True later_trans [OF s(6) r(6)]
      by (intro exI [of _ db'] exI [of _ w'] exI [of _ rs'] exI [of _ st']) (simp add: funpow_swap1)
  next
    case False
    have "unat (db_log_end_offset db) + 26 * length ls + 2 ^ 27 < 2 ^ 63" "distinct (map l_lease_id ls)"
      using Cons.prems(3,5) by simp_all
    with Cons.IH [OF Cons.prems(1,2), of c] Cons.prems(4,6) False show ?thesis by fastforce
  qed
qed

lemma bucket_chain:
  assumes "absR st A" and "l \<in> set (lease_buckets st b)"
  shows "qdb__lease_get st (l_lease_id l) = Some l" "lease_bucket (l_lease_id l) = b" "distinct (map l_lease_id (lease_buckets st b))"
proof -
  have ok: "hok lease_bucket l_lease_id (lease_buckets st)" using absRD(7) [OF assms(1)] by (simp add: leases_ok_def)
  then show b: "lease_bucket (l_lease_id l) = b" and d: "distinct (map l_lease_id (lease_buckets st b))"
    using assms(2) by (auto simp: hok_def)
  have "find (\<lambda>n. l_lease_id n = l_lease_id l) (lease_buckets st b) = Some l" by (rule find_key_mem [OF d assms(2)])
  then show "qdb__lease_get st (l_lease_id l) = Some l" by (simp add: lease_ops_eq(1) hget_def b)
qed

lemma expire_buckets_spec:
  assumes "db_ok w db i rs st A" and "calm w" and "distinct bs" and "set bs \<subseteq> {..<1024}"
    and "unat (db_log_end_offset db) + 26 * length (concat (map (\<lambda>b. lease_buckets st (of_nat b)) bs)) + 2 ^ 27 < 2 ^ 63"
  shows "\<exists>db' w' rs' st'. expire_buckets w db now bs c =
      Some ((int_inc ^^ length (filter (overdue now) (concat (map (\<lambda>b. lease_buckets st (of_nat b)) bs)))) c, db', w') \<and>
    db_ok w' db' i rs' st' (expired now (concat (map (\<lambda>b. lease_buckets st (of_nat b)) bs)) A) \<and> calm w' \<and>
    later w db rs w' db' rs'"
  using assms
proof (induction bs arbitrary: w db rs st A c)
  case Nil
  then show ?case using later_refl [of w db rs] by fastforce
next
  case (Cons b bs)
  note D = db_okD [OF Cons.prems(1)]
  let ?ls = "lease_buckets st (of_nat b)"
  have a: "unat (db_log_end_offset db) + 26 * length ?ls + 2 ^ 27 < 2 ^ 63" using Cons.prems(5) by simp
  have d: "distinct (map l_lease_id ?ls)" using absRD(7) [OF D(13)] by (simp add: leases_ok_def hok_def)
  obtain db1 w1 rs1 st1 where 1: "expire_chain w db now ?ls c = Some ((int_inc ^^ length (filter (overdue now) ?ls)) c, True, db1, w1)"
    "db_ok w1 db1 i rs1 st1 (expired now ?ls A)" "calm w1"
    "unat (db_log_end_offset db1) \<le> unat (db_log_end_offset db) + 26 * length ?ls"
    "\<forall>b'. b' \<noteq> of_nat b \<longrightarrow> lease_buckets st1 b' = lease_buckets st b'" "later w db rs w1 db1 rs1"
    using expire_chain_spec [OF Cons.prems(1,2) a bucket_chain(1) [OF D(13), where b = "of_nat b"] d
        bucket_chain(2) [OF D(13), where b = "of_nat b"]] by blast
  have "(of_nat b' :: u32) \<noteq> of_nat b" if "b' \<in> set bs" for b'
  proof
    assume e: "(of_nat b' :: u32) = of_nat b"
    have "b' < 1024" "b < 1024" "b' \<noteq> b" using Cons.prems(3,4) that by auto
    then show False using arg_cong [OF e, of unat] by (simp add: unat_of_nat_u32)
  qed
  then have rest: "map (\<lambda>b. lease_buckets st1 (of_nat b)) bs = map (\<lambda>b. lease_buckets st (of_nat b)) bs" using 1(5) by simp
  have "unat (db_log_end_offset db1) + 26 * length (concat (map (\<lambda>b. lease_buckets st1 (of_nat b)) bs)) + 2 ^ 27 < 2 ^ 63"
    unfolding rest using 1(4) Cons.prems(5) by simp
  from Cons.IH [OF 1(2,3) _ _ this, of "(int_inc ^^ length (filter (overdue now) ?ls)) c"] Cons.prems(3,4)
  show ?case using 1(1) D(12) later_trans [OF 1(6)] by (fastforce simp: rest funpow_funpow)
qed

lemma expired_msgs:
  assumes "distinct (map l_msg_id ls)"
  shows "a_msgs (expired now ls A) k =
    (if k \<in> l_msg_id ` {l \<in> set ls. overdue now l}
     then map_option (\<lambda>am. am\<lparr>am_status := APending, am_retry := am_retry am + 1\<rparr>) (a_msgs A k) else a_msgs A k)"
  using assms
proof (induction ls arbitrary: A)
  case (Cons l ls)
  have "l_msg_id l \<notin> l_msg_id ` set ls" "distinct (map l_msg_id ls)" using Cons.prems by auto
  then show ?case
    by (cases "a_msgs A (l_msg_id l)") (auto simp: Cons.IH a_return_def)
qed simp

lemma expired_pending:
  assumes "distinct (map l_msg_id ls)"
  shows "a_pending (expired now ls A) n = a_pending A n @
    map l_msg_id (filter (\<lambda>l. overdue now l \<and> map_option am_queue (a_msgs A (l_msg_id l)) = Some n) ls)"
  using assms
proof (induction ls arbitrary: A)
  case (Cons l ls)
  have new: "l_msg_id l' \<noteq> l_msg_id l" if "l' \<in> set ls" for l' using Cons.prems imageI [OF that, of l_msg_id] by auto
  have "map_option am_queue (a_msgs (a_return (l_msg_id l) A) (l_msg_id l')) = map_option am_queue (a_msgs A (l_msg_id l'))"
    if "l' \<in> set ls" for l' using new [OF that] by (simp add: a_return_def split: option.split)
  then have "filter (\<lambda>l'. overdue now l' \<and> map_option am_queue (a_msgs (a_return (l_msg_id l) A) (l_msg_id l')) = Some n) ls =
      filter (\<lambda>l'. overdue now l' \<and> map_option am_queue (a_msgs A (l_msg_id l')) = Some n) ls"
    by (intro filter_cong) auto
  then show ?case using Cons by (auto simp: a_return_def split: option.split)
qed simp

lemma lease_nodes_msgs:
  assumes R: "absR st A"
  shows "distinct (map l_msg_id (lease_nodes st))"
    "l_msg_id ` {l \<in> set (lease_nodes st). overdue now l} =
      {k. \<exists>am lid e. a_msgs A k = Some am \<and> am_status am = ALeased lid e \<and> e < now}"
proof -
  have mem: "l \<in> set (lease_nodes st) \<longleftrightarrow> qdb__lease_get st (l_lease_id l) = Some l" for l
    by (rule lt.nodes_get [OF absRD(7) [OF R]])
  have rel: "qdb__lease_get st lid = Some l \<longleftrightarrow> l_lease_id l = lid \<and>
      (\<exists>am. a_msgs A (l_msg_id l) = Some am \<and> am_status am = ALeased lid (l_expiry_us l))" for lid l
    using absRD(4) [OF R] by (simp add: leases_rel_def)
  have "distinct (lease_nodes st)" using lt.nodes_distinct [OF absRD(7) [OF R]] by (simp add: distinct_map)
  moreover have "inj_on l_msg_id (set (lease_nodes st))"
  proof (rule inj_onI)
    fix l l' assume l: "l \<in> set (lease_nodes st)" "l' \<in> set (lease_nodes st)" and eq: "l_msg_id l = l_msg_id l'"
    obtain am where "a_msgs A (l_msg_id l) = Some am" "am_status am = ALeased (l_lease_id l) (l_expiry_us l)"
      using l(1) mem rel by blast
    moreover obtain am' where "a_msgs A (l_msg_id l') = Some am'" "am_status am' = ALeased (l_lease_id l') (l_expiry_us l')"
      using l(2) mem rel by blast
    ultimately show "l = l'" using eq by simp
  qed
  ultimately show "distinct (map l_msg_id (lease_nodes st))" by (simp add: distinct_map)
  have "k \<in> l_msg_id ` {l \<in> set (lease_nodes st). overdue now l}"
    if "a_msgs A k = Some am" "am_status am = ALeased lid e" "e < now" for k am lid e
    by (rule image_eqI [of _ _ "\<lparr>l_lease_id = lid, l_msg_id = k, l_expiry_us = e\<rparr>"]) (use that mem rel in auto)
  then show "l_msg_id ` {l \<in> set (lease_nodes st). overdue now l} =
      {k. \<exists>am lid e. a_msgs A k = Some am \<and> am_status am = ALeased lid e \<and> e < now}"
    using mem rel by blast
qed

lemma expire_all:
  assumes ok: "db_ok w db i rs st A" and c: "calm w" and room: "unat (db_log_end_offset db) + 26 * card (a_leases A) + 2 ^ 27 < 2 ^ 63"
  obtains db' w' rs' st' where
    "expire_buckets w db now [0..<1024] 0 = Some (signed_take_bit 31 (int (length (filter (overdue now) (lease_nodes st)))), db', w')"
    "db_ok w' db' i rs' st' (expired now (lease_nodes st) A)" "calm w'" "later w db rs w' db' rs'"
proof -
  note D = db_okD [OF ok]
  let ?ls = "lease_nodes st"
  note ln = lease_nodes_msgs [OF D(13)]
  have "l_msg_id ` set ?ls \<subseteq> a_leases A"
    using lt.nodes_get [OF absRD(7) [OF D(13)]] absRD(4) [OF D(13)] by (fastforce simp: leases_rel_def a_leases_def)
  from card_mono [OF a_leases_finite [OF absRD(1) [OF D(13)]] this]
  have len: "length ?ls \<le> card (a_leases A)" using distinct_card [OF ln(1)] by simp
  have ndef: "concat (map (\<lambda>b. lease_buckets st (of_nat b)) [0..<1024]) = ?ls" by (simp add: lease_nodes_def)
  have bound: "unat (db_log_end_offset db) + 26 * length (concat (map (\<lambda>b. lease_buckets st (of_nat b)) [0..<1024])) + 2 ^ 27 < 2 ^ 63"
    unfolding ndef using room len by linarith
  show thesis using expire_buckets_spec [OF ok c _ _ bound, of now 0] that unfolding ndef by (force simp: int_inc_count)
qed

text \<open>The messages in \<open>E\<close> are pending again, each at the end of its queue; nothing else has changed.\<close>

definition returned :: "u64 set \<Rightarrow> astate \<Rightarrow> astate \<Rightarrow> bool" where
  "returned E A A' \<longleftrightarrow> a_queues A' = a_queues A \<and>
     (\<forall>k. a_msgs A' k = (if k \<in> E then map_option (\<lambda>am. am\<lparr>am_status := APending, am_retry := am_retry am + 1\<rparr>) (a_msgs A k)
        else a_msgs A k)) \<and>
     (\<forall>n. \<exists>ks. a_pending A' n = a_pending A n @ ks \<and> distinct ks \<and> set ks = {k \<in> E. map_option am_queue (a_msgs A k) = Some n})"

definition overdue_msgs :: "u64 \<Rightarrow> astate \<Rightarrow> u64 set" where
  "overdue_msgs now A = {k. \<exists>am lid e. a_msgs A k = Some am \<and> am_status am = ALeased lid e \<and> e < now}"

lemma expired_queues: "a_queues (expired now ls A) = a_queues A"
  by (induction ls arbitrary: A) (simp_all add: a_return_def split: option.split)

lemma expired_returned:
  assumes "absR st A"
  shows "returned (overdue_msgs now A) A (expired now (lease_nodes st) A)"
    "length (filter (overdue now) (lease_nodes st)) = card (overdue_msgs now A)"
proof -
  let ?ls = "lease_nodes st" and ?E = "overdue_msgs now A"
  note ln = lease_nodes_msgs [OF assms]
  have E: "l_msg_id ` {l \<in> set ?ls. overdue now l} = ?E" using ln(2) by (simp add: overdue_msgs_def)
  have dm: "distinct (map l_msg_id (filter P ?ls))" for P using ln(1) by (rule distinct_map_filter)
  show "length (filter (overdue now) ?ls) = card ?E" using distinct_card [OF dm, of "overdue now"] E by (simp add: image_Collect)
  have "\<exists>ks. a_pending (expired now ?ls A) n = a_pending A n @ ks \<and> distinct ks \<and>
      set ks = {k \<in> ?E. map_option am_queue (a_msgs A k) = Some n}" for n
    unfolding expired_pending [OF ln(1)] E [symmetric]
    by (rule exI [of _ "map l_msg_id (filter (\<lambda>l. overdue now l \<and> map_option am_queue (a_msgs A (l_msg_id l)) = Some n) ?ls)"]) (use dm in auto)
  then show "returned ?E A (expired now ?ls A)"
    unfolding returned_def expired_msgs [OF ln(1)] E expired_queues by blast
qed

lemma expire_call:
  assumes ok: "db_ok w db i rs st A" and c: "calm w" and room: "unat (db_log_end_offset db) + 26 * card (a_leases A) + 2 ^ 27 < 2 ^ 63"
  obtains db' w' rs' st' where
    "qdb_process_expired_leases w (Some db) = Some (signed_take_bit 31 (int (card (overdue_msgs (qdb__time_us w) A))), Some db', w')"
    "db_ok w' db' i rs' st' (expired (qdb__time_us w) (lease_nodes st) A)" "calm w'" "later w db rs w' db' rs'"
proof -
  let ?now = "qdb__time_us w"
  obtain db' w' rs' st' where r: "expire_buckets w db ?now [0..<1024] 0 =
      Some (signed_take_bit 31 (int (length (filter (overdue ?now) (lease_nodes st)))), db', w')"
    "db_ok w' db' i rs' st' (expired ?now (lease_nodes st) A)" "calm w'" "later w db rs w' db' rs'" by (rule expire_all [OF assms])
  show thesis
    by (rule that [OF _ r(2-4)])
      (use r(1) expired_returned(2) [OF db_okD(13) [OF ok]] in \<open>simp add: qdb_process_expired_leases_def\<close>)
qed

text \<open>
  Theorem C14.  Without failures, one call expires exactly the leases whose deadline has passed, if
  they are fewer than \<open>2 ^ 31\<close>, the range of its counter: it returns their number; every such message is pending again, at the end of the sequence of its
  queue, with its retry count one higher; every other message is as it was.
\<close>

theorem expiry_exact:
  assumes "db_ok w db i rs st A" and "calm w"
    and "unat (db_log_end_offset db) + 26 * card (a_leases A) + 2 ^ 27 < 2 ^ 63"
    and "E = {k. \<exists>am lid e. a_msgs A k = Some am \<and> am_status am = ALeased lid e \<and> e < qdb__time_us w}"
    and "card E < 2 ^ 31"
  shows "\<exists>db' w' rs' st' A'. qdb_process_expired_leases w (Some db) = Some (int (card E), Some db', w') \<and>
    db_ok w' db' i rs' st' A' \<and> calm w' \<and>
    (\<forall>k. a_msgs A' k = (if k \<in> E then map_option (\<lambda>am. am\<lparr>am_status := APending, am_retry := am_retry am + 1\<rparr>) (a_msgs A k)
       else a_msgs A k)) \<and>
    (\<forall>n. \<exists>ks. a_pending A' n = a_pending A n @ ks \<and> distinct ks \<and> set ks = {k \<in> E. map_option am_queue (a_msgs A k) = Some n})"
proof -
  let ?A = "expired (qdb__time_us w) (lease_nodes st) A"
  have E: "overdue_msgs (qdb__time_us w) A = E" by (simp add: overdue_msgs_def assms(4))
  obtain db' w' rs' st' where r: "qdb_process_expired_leases w (Some db) = Some (signed_take_bit 31 (int (card E)), Some db', w')"
    "db_ok w' db' i rs' st' ?A" "calm w'" by (rule expire_call [OF assms(1-3), unfolded E])
  have "returned E A ?A" unfolding E [symmetric] by (rule expired_returned(1) [OF db_okD(13) [OF assms(1)]])
  with r show ?thesis unfolding signed_take_bit_small [OF assms(5)] returned_def by blast
qed

theorem expiry_exact_witness:
  "\<exists>db' w'. qdb_process_expired_leases (leased_world\<lparr>w_clock := Some (60, 0)\<rparr>) (Some leased_db) = Some (1, Some db', w')"
proof -
  let ?w = "leased_world\<lparr>w_clock := Some (60, 0)\<rparr>"
  obtain rs st where st: "db_ok leased_world leased_db 0 rs st leased_spec" "calm leased_world"
    "unat (db_log_end_offset leased_db) < 10000" "qdb__time_us one_world = 1000005" by (rule leased_db_ok)
  have ok: "db_ok ?w leased_db 0 rs st leased_spec" "calm ?w" using st(1,2) by (simp_all add: db_ok_def calm_def)
  have "a_leases leased_spec = {1}" by (auto simp: a_leases_def split: if_splits)
  then have b: "unat (db_log_end_offset leased_db) + 26 * card (a_leases leased_spec) + 2 ^ 27 < 2 ^ 63" using st(3) by simp
  have "qdb__time_us ?w = 60000000" by (simp add: qdb__time_us_def)
  then have E: "{1} = {k. \<exists>am lid e. a_msgs leased_spec k = Some am \<and> am_status am = ALeased lid e \<and> e < qdb__time_us ?w}"
    using st(4) by (auto split: if_splits)
  obtain db' w' where "qdb_process_expired_leases ?w (Some leased_db) = Some (int (card {1 :: u64}), Some db', w')"
    using expiry_exact [OF ok b E] by auto
  then show ?thesis by simp
qed

end
