(* ===== verification/Recovery.thy ===== *)
theory Recovery
  imports Lifecycle AckProps
begin

text \<open>
  What opening a database finds.  \<open>file_ok\<close> says what a file holds that the message operations have
  written: a valid header and a log whose replay succeeds.  Shown: every content a crash can leave
  behind is such a file, for the same records; and opening such a file restores the counters, the
  state and the invariant exactly.
\<close>

section \<open>Files that can be opened\<close>

definition file_ok :: "bytes \<Rightarrow> 'x qdb \<Rightarrow> (u8 \<times> bytes) list \<Rightarrow> u64 \<Rightarrow> qdb__state \<Rightarrow> astate \<Rightarrow> bool" where
  "file_ok f h rs nl st A \<longleftrightarrow> has_header f h \<and> good_bounds h \<and> 4096 \<le> length f \<and> length f < 2 ^ 63 \<and>
     log_is f (unat (db_log_start_offset h)) (unat (db_log_end_offset h)) rs \<and>
     fresh rs (db_next_msg_id h) \<and> db_next_msg_id h \<noteq> 0 \<and> nl \<noteq> 0 \<and>
     (\<forall>lid. qdb__lease_get st lid \<noteq> None \<longrightarrow> lid < nl) \<and>
     rec_fold (db_log_start_offset h) rs (db_next_msg_id h, 1, empty_state) = Inr (db_next_msg_id h, nl, st) \<and> absR st A"

text \<open>Whatever content of the file survives a crash, it is the file of the last completed operation.\<close>

lemma db_ok_file:
  assumes ok: "db_ok w db i rs st A" and v: "v \<in> insert (ino_data (w_ino w i)) (set (ino_old (w_ino w i)))"
    and len: "length v < 2 ^ 63"
  shows "file_ok v db rs (db_next_lease_id db) st A"
proof -
  note D = db_okD [OF ok]
  let ?e = "unat (db_log_end_offset db)" and ?d = "ino_data (w_ino w i)"
  have "take (length (take ?e ?d)) v = take ?e ?d" using D(6) v unfolding stable_below_def by blast
  then have tk: "take ?e v = take ?e ?d" using D(14) by (simp add: min_absorb2)
  then have le: "?e \<le> length v" using D(14) by (metis length_take min.absorb_iff2 min.commute)
  have "has_header v db" using take_has_header [OF tk, of db] D(3,15,16) by simp
  moreover have "log_is v (unat (db_log_start_offset db)) ?e rs" by (rule log_is_cong [OF tk D(14) le D(5)])
  ultimately show ?thesis using ok le len D(15,16) by (simp add: file_ok_def db_ok_def)
qed

section \<open>The steps of an open\<close>

lemma file_open_missing:
  assumes "qdb__file_open w p False = (rc, fd, b, w1)" and "w_dir w p = None"
  shows "rc = QDB_ERR_IO \<and> same_fs w w1"
proof -
  obtain r w0 where r: "next_reply w = (r, w0)" by fastforce
  note same = next_reply_same [OF r]
  show ?thesis
    using assms same
    by (auto simp: qdb__file_open_def file_open_existing_def sys_open_def r same_fs_simps [OF same] Let_def
        split: sys_reply.splits option.splits)
qed

lemma replay_wal_absent:
  assumes "w_dir w (db_wal_path db) = None"
  obtains w1 where "replay_wal w db = (QDB_OK, db, w1)" "same_fs w w1"
proof -
  obtain rc fd b w1 where o: "qdb__file_open w (db_wal_path db) False = (rc, fd, b, w1)" by (metis prod_cases4)
  note m = file_open_missing [OF o assms]
  show thesis by (rule that [of w1]) (use o m in \<open>simp_all add: replay_wal_def\<close>)
qed

lemma trim_tail_spec:
  assumes tt: "trim_tail w db = (rc, w')" and fd: "w_fds w (db_fd db) = Some i"
    and le: "unat (db_log_end_offset db) \<le> length (ino_data (w_ino w i))" and lim: "length (ino_data (w_ino w i)) < 2 ^ 63"
  shows "only_file w w' i" "rc = QDB_OK \<or> rc = QDB_ERR_IO" "calm w \<Longrightarrow> rc = QDB_OK"
    "rc = QDB_OK \<Longrightarrow> ino_data (w_ino w' i) = take (unat (db_log_end_offset db)) (ino_data (w_ino w i))"
proof -
  let ?d = "ino_data (w_ino w i)" and ?e = "unat (db_log_end_offset db)"
  obtain r1 sz w1 where 1: "qdb__file_size w (db_fd db) = (r1, sz, w1)" by (metis prod_cases3)
  note s1 = qdb__file_size_spec [OF 1 fd]
  then have same: "same_fs w w1" by simp
  note e1 = same_fs_simps [OF same]
  obtain r2 w2 where 2: "qdb__file_truncate w1 (db_fd db) (db_log_end_offset db) = (r2, w2)" by fastforce
  have s2: "only_file w1 w2 i" "r2 = QDB_OK \<or> r2 = QDB_ERR_IO" "r2 = QDB_OK \<Longrightarrow> ino_data (w_ino w2 i) = take ?e ?d"
    "calm w1 \<Longrightarrow> r2 = QDB_OK"
    using qdb__file_truncate_spec [OF 2, of i] fd le lim by (auto simp: e1)
  have sz: "db_log_end_offset db < of_nat (length ?d) \<longleftrightarrow> ?e < length ?d"
    using lim by (simp add: word_less_nat_alt unat_of_nat_u64)
  have eq: "(rc, w') = (if r1 \<noteq> QDB_OK then (r1, w1) else if sz > db_log_end_offset db then (r2, w2) else (QDB_OK, w1))"
    unfolding tt [symmetric] trim_tail_def Let_def 1 prod.case 2 by simp
  have of: "only_file w w1 i" "only_file w w2 i" using same_fs_only_file [OF same] s2(1) only_file_trans by blast+
  show "only_file w w' i" using eq of by (auto split: if_splits)
  show "rc = QDB_OK \<or> rc = QDB_ERR_IO" using eq s1 s2 by (auto split: if_splits)
  show "calm w \<Longrightarrow> rc = QDB_OK" using eq s1 s2 calm_same_fs [OF same] by (auto split: if_splits)
  show "rc = QDB_OK \<Longrightarrow> ino_data (w_ino w' i) = take ?e ?d"
    using eq s1 s2(3) sz by (auto simp: e1 split: if_splits)
qed

lemma validate_loop_ok:
  assumes "log_is (fdata w (db_fd db)) (unat off) (unat (db_log_end_offset db)) rs"
    and "length (fdata w (db_fd db)) < 2 ^ 63" and "w_fds w (db_fd db) = Some i"
  shows "\<exists>rc w'. validate_loop w db off = (rc, False, db, w') \<and> same_fs w w' \<and> (rc = QDB_OK \<or> rc = QDB_ERR_IO) \<and>
    (calm w \<longrightarrow> rc = QDB_OK)"
  using assms
proof (induction rs arbitrary: w off)
  case Nil
  then have "\<not> off < db_log_end_offset db" by (simp add: word_less_nat_alt)
  then show ?case by (simp add: validate_loop.simps [of w])
next
  case (Cons r rs)
  obtain t p where r: "r = (t, p)" by fastforce
  let ?d = "fdata w (db_fd db)" and ?e = "db_log_end_offset db"
  have c: "slice ?d (unat off) (10 + length p) = enc_rec t p" "is_known_type t" "length p \<le> 67109376"
    "log_is ?d (unat off + 10 + length p) (unat ?e) rs"
    using Cons.prems by (auto simp: r enc_def rec_ok_def)
  note b = log_is_bounds [OF c(4)]
  have lt: "off < ?e" using b by (simp add: word_less_nat_alt)
  have off': "unat (off + of_nat (10 + length p)) = unat off + 10 + length p"
    using b Cons.prems(2) wf_offset [of off "10 + length p"] by simp
  obtain rc t' plen o1 w1 where sc: "qdb__scan_record w (db_fd db) off ?e = (rc, t', plen, o1, w1)" by (metis prod_cases5)
  have s1: "same_fs w w1" "rc = QDB_OK \<and> o1 = off + of_nat (10 + length p) \<or> rc = QDB_ERR_IO" "calm w \<Longrightarrow> rc = QDB_OK"
    using scan_record_complete [OF sc Cons.prems(3) refl Cons.prems(2) c(1,2,3)] b by auto
  show ?case
  proof (cases "rc = QDB_OK")
    case False
    then show ?thesis using sc lt s1 by (auto simp: validate_loop.simps [of w])
  next
    case True
    then have o1: "o1 = off + of_nat (10 + length p)" using s1(2) by auto
    have "log_is (fdata w1 (db_fd db)) (unat o1) (unat ?e) rs" using c(4) off' by (simp add: o1 same_fs_simps [OF s1(1)])
    from Cons.IH [OF this] Cons.prems(2,3) obtain rc' w' where "validate_loop w1 db o1 = (rc', False, db, w')" "same_fs w1 w'"
      "rc' = QDB_OK \<or> rc' = QDB_ERR_IO" "calm w1 \<longrightarrow> rc' = QDB_OK" by (auto simp: same_fs_simps [OF s1(1)])
    then show ?thesis
      using sc lt True same_fs_trans [OF s1(1)] calm_same_fs [OF s1(1)] by (auto simp: validate_loop.simps [of w])
  qed
qed

lemma validate_log_ok:
  assumes "validate_log w db = (rc, db', w')"
    and "log_is (fdata w (db_fd db)) (unat (db_log_start_offset db)) (unat (db_log_end_offset db)) rs"
    and "length (fdata w (db_fd db)) < 2 ^ 63" and "w_fds w (db_fd db) = Some i"
  shows "db' = db" "same_fs w w'" "rc = QDB_OK \<or> rc = QDB_ERR_IO" "calm w \<Longrightarrow> rc = QDB_OK"
  using validate_loop_ok [OF assms(2-4)] assms(1) by (auto simp: validate_log_def split: if_splits)

lemma rec_fold_error: "rec_fold off rs s = Inl c \<Longrightarrow> c = QDB_ERR_CORRUPT"
  by (induction rs arbitrary: off s) (auto split: sum.splits dest: rec_apply_error)

lemma replay_log_agrees:
  assumes rl: "qdb__replay_log w db = (rc, db', w')"
    and L: "log_is (fdata w (db_fd db)) (unat (db_log_start_offset db)) (unat (db_log_end_offset db)) rs"
    and "length (fdata w (db_fd db)) < 2 ^ 63" and "w_fds w (db_fd db) = Some i"
  shows "same_fs w w'"
    "(rc = QDB_ERR_IO \<or> rc = QDB_ERR_NOMEM) \<and> \<not> calm w \<or>
     (case rec_fold (db_log_start_offset db) rs (db_next_msg_id db, db_next_lease_id db, empty_state) of
        Inl c \<Rightarrow> rc = c
      | Inr (nm, nl, st) \<Rightarrow> rc = QDB_OK \<and> db' = db\<lparr>db_next_msg_id := nm, db_next_lease_id := nl, db_state := Some st\<rparr>)"
proof -
  let ?f = "rec_fold (db_log_start_offset db) rs (db_next_msg_id db, db_next_lease_id db, empty_state)"
  obtain b w1 where h: "heap_alloc w = (b, w1)" by fastforce
  note same = heap_alloc_same [OF h]
  obtain r2 db2 st2 w2 where l: "replay_loop w1 db empty_state (db_log_start_offset db) = (r2, db2, st2, w2)"
    by (metis prod_cases4)
  have ag: "agrees ?f w1 db (r2, db2, st2, w2)"
    using replay_loop_agrees [of w1 db "db_log_start_offset db" rs i empty_state] L assms(3,4) l
    by (simp add: same_fs_simps [OF same])
  have "same_fs w w2" using same_fs_trans [OF same agrees_same [OF ag]] .
  with rl h l same show "same_fs w w'"
    by (auto simp: qdb__replay_log_def qdb__state_alloc_def split: if_splits)
  show "(rc = QDB_ERR_IO \<or> rc = QDB_ERR_NOMEM) \<and> \<not> calm w \<or>
     (case ?f of Inl c \<Rightarrow> rc = c
      | Inr (nm, nl, st) \<Rightarrow> rc = QDB_OK \<and> db' = db\<lparr>db_next_msg_id := nm, db_next_lease_id := nl, db_state := Some st\<rparr>)"
    using rl h l ag heap_alloc_calm [OF h] calm_same_fs [OF same] rec_fold_error
    by (auto simp: qdb__replay_log_def qdb__state_alloc_def agrees_def split: if_splits sum.splits)
qed

lemma replay_log_exact:
  assumes rl: "qdb__replay_log w db = (rc, db', w')"
    and L: "log_is (fdata w (db_fd db)) (unat (db_log_start_offset db)) (unat (db_log_end_offset db)) rs"
    and "length (fdata w (db_fd db)) < 2 ^ 63" and "w_fds w (db_fd db) = Some i"
    and fold: "rec_fold (db_log_start_offset db) rs (db_next_msg_id db, db_next_lease_id db, empty_state) = Inr (nm, nl, st)"
  shows "same_fs w w'"
    "rc = QDB_OK \<and> db' = db\<lparr>db_next_msg_id := nm, db_next_lease_id := nl, db_state := Some st\<rparr> \<or>
     (rc = QDB_ERR_IO \<or> rc = QDB_ERR_NOMEM) \<and> \<not> calm w"
  using replay_log_agrees [OF assms(1-4)] fold by auto

section \<open>Opening an existing file\<close>

lemma file_ok_header:
  assumes "file_ok f h rs nl st A"
  shows "has_header f h" "good_bounds h" "4096 \<le> length f" "length f < 2 ^ 63"
    "log_is f (unat (db_log_start_offset h)) (unat (db_log_end_offset h)) rs"
    "unat (db_log_start_offset h) \<le> unat (db_log_end_offset h)" "unat (db_log_end_offset h) \<le> length f"
    "4096 \<le> unat (db_log_start_offset h)"
    "rec_fold (db_log_start_offset h) rs (db_next_msg_id h, 1, empty_state) = Inr (db_next_msg_id h, nl, st)"
  using assms log_is_bounds [of f "unat (db_log_start_offset h)" "unat (db_log_end_offset h)" rs]
  by (auto simp: file_ok_def good_bounds_def word_le_nat_alt)

lemma good_bounds_cong:
  "good_bounds (load_header db h) = good_bounds h"
  "db_log_start_offset a = db_log_start_offset b \<Longrightarrow> db_log_end_offset a = db_log_end_offset b \<Longrightarrow> good_bounds a = good_bounds b"
  by (simp_all add: good_bounds_def load_header_def)

text \<open>The header patch at the end of an open, over a file cut at the log end.\<close>

lemma open_commit:
  assumes F: "file_ok f h rs nl st A" and f: "ino_data (w_ino w i) = take (unat (db_log_end_offset h)) f"
    and fd: "w_fds w (db_fd db) = Some i"
    and db: "db_create_time_us db = db_create_time_us h" "db_next_msg_id db = db_next_msg_id h" "db_next_lease_id db = nl"
      "db_log_start_offset db = db_log_start_offset h" "db_log_end_offset db = db_log_end_offset h" "db_state db = Some st"
    and hu: "qdb__header_update w (db_fd db) db = (rc, w')"
  shows "only_file w w' i" "rc = QDB_OK \<or> rc = QDB_ERR_IO" "calm w \<Longrightarrow> rc = QDB_OK" "rc = QDB_OK \<Longrightarrow> db_ok w' db i rs st A"
proof -
  note H = file_ok_header [OF F]
  let ?e = "unat (db_log_end_offset h)" and ?s = "unat (db_log_start_offset h)"
  let ?d = "take ?e f" and ?d' = "splice (take ?e f) 24 (drop 24 (hdr_bytes db))"
  have ld: "length ?d = ?e" using H(7) by simp
  have "56 \<le> length (ino_data (w_ino w i))" using f ld H(6,8) by simp
  note s = header_update_spec [OF hu fd this, unfolded f]
  show of: "only_file w w' i" and "rc = QDB_OK \<or> rc = QDB_ERR_IO" and "calm w \<Longrightarrow> rc = QDB_OK" using s by blast+
  assume "rc = QDB_OK"
  then have d: "ino_data (w_ino w' i) = ?d'" "ino_old (w_ino w' i) = []" using s by auto
  have ld': "length ?d' = ?e" using ld H(6,8) by (simp add: max_absorb1)
  have "has_header ?d h" using H(1,6,8) has_header_take [of ?e f h] by simp
  from header_patch [OF this db(1)] have hdr: "has_header ?d' db" .
  have "log_is ?d ?s ?e rs" using log_is_cong [of ?e ?d f, OF _ H(7) _ H(5)] ld by simp
  moreover have "slice ?d' ?s (?e - ?s) = slice ?d ?s (?e - ?s)" using H(6,8) ld by (intro slice_splice_after) simp_all
  ultimately have "log_is ?d' ?s ?e rs" using log_is_same_slice [of ?d' ?s ?e ?d] ld' by simp
  moreover have "good_bounds db" using H(2) good_bounds_cong(2) [OF db(4,5)] by simp
  moreover have "stable_below (take ?e ?d') (w_ino w' i)" using d ld' by (simp add: stable_below_def)
  moreover have "w_fds w' (db_fd db) = Some i" using fd only_file_simps(2) [OF of] by simp
  ultimately show "db_ok w' db i rs st A" using F hdr ld' H(4,7) by (simp add: db_ok_def file_ok_def db d)
qed

lemma load_existing_ok:
  assumes F: "file_ok (ino_data (w_ino w i)) h rs nl st A" and fd: "w_fds w (db_fd db) = Some i" and c: "calm w"
    and wal: "w_dir w (db_wal_path db) = None"
  obtains db' w' where "load_existing w db = (QDB_OK, db', w')" "db_ok w' db' i rs st A" "calm w'" "only_file w w' i"
    "db_next_msg_id db' = db_next_msg_id h" "db_next_lease_id db' = nl" "db_fd db' = db_fd db" "db_lock_fd db' = db_lock_fd db"
    "db_lease_timeout_us db' = db_lease_timeout_us db" "db_path db' = db_path db"
proof -
  let ?f = "ino_data (w_ino w i)"
  note H = file_ok_header [OF F]
  have fdata: "fdata w (db_fd db) = ?f" by (simp add: fdata_def fd)
  obtain r1 db1 w1 where 1: "qdb__header_read w (db_fd db) db = (r1, db1, w1)" by (metis prod_cases3)
  have s1: "same_fs w w1" "r1 = QDB_OK" "db1 = load_header db h"
    using header_read_spec [OF 1 fd refl H(4), of h] H(1,2,3) c by auto
  note e1 = same_fs_simps [OF s1(1)]
  define db2 where "db2 = db1\<lparr>db_next_lease_id := 1\<rparr>"
  have db2: "db_fd db2 = db_fd db" "db_wal_path db2 = db_wal_path db" "db_log_start_offset db2 = db_log_start_offset h"
    "db_log_end_offset db2 = db_log_end_offset h" "db_next_msg_id db2 = db_next_msg_id h" "db_next_lease_id db2 = 1"
    "db_create_time_us db2 = db_create_time_us h" "db_lock_fd db2 = db_lock_fd db" "db_lease_timeout_us db2 = db_lease_timeout_us db"
    "db_path db2 = db_path db" by (simp_all add: db2_def s1(3) load_header_def)
  obtain w2 where 2: "(if db_flags db2 AND QDB_FLAG_WAL_PRESENT \<noteq> 0 \<or> db_flags db2 AND QDB_FLAG_DIRTY \<noteq> 0
      then replay_wal w1 db2 else (QDB_OK, db2, w1)) = (QDB_OK, db2, w2)" "same_fs w1 w2"
  proof -
    obtain w2 where "replay_wal w1 db2 = (QDB_OK, db2, w2)" "same_fs w1 w2"
      by (rule replay_wal_absent [of w1 db2]) (simp add: db2 e1 wal)
    then show thesis using that [of w2] that [of w1] by (cases "db_flags db2 AND 1 \<noteq> 0 \<or> db_flags db2 AND 2 \<noteq> 0") auto
  qed
  note same2 = same_fs_trans [OF s1(1) 2(2)]
  note e2 = same_fs_simps [OF same2]
  obtain r3 w3 where 3: "trim_tail w2 db2 = (r3, w3)" by fastforce
  have fd2: "w_fds w2 (db_fd db2) = Some i" by (simp add: e2 db2 fd)
  have t: "unat (db_log_end_offset db2) \<le> length (ino_data (w_ino w2 i))" "length (ino_data (w_ino w2 i)) < 2 ^ 63"
    using H(4,7) by (simp_all add: e2 db2)
  have s3: "only_file w2 w3 i" "r3 = QDB_OK" "ino_data (w_ino w3 i) = take (unat (db_log_end_offset h)) ?f"
    using trim_tail_spec [OF 3 fd2 t] calm_same_fs [OF same2 c] by (simp_all add: e2 db2)
  have fd3: "w_fds w3 (db_fd db2) = Some i" using only_file_simps(2) [OF s3(1)] fd2 by simp
  have fdata3: "fdata w3 (db_fd db2) = take (unat (db_log_end_offset h)) ?f" by (simp add: fdata_def fd3 s3(3))
  have L: "log_is (fdata w3 (db_fd db2)) (unat (db_log_start_offset db2)) (unat (db_log_end_offset db2)) rs"
    using log_is_cong [of "unat (db_log_end_offset h)" "take (unat (db_log_end_offset h)) ?f" ?f, OF _ H(7) _ H(5)] H(7)
    by (simp add: fdata3 db2(3,4))
  have lim: "length (fdata w3 (db_fd db2)) < 2 ^ 63" using H(4) by (simp add: fdata3)
  have c3: "calm w3" using calm_only_file [OF s3(1)] calm_same_fs [OF same2 c] by blast
  obtain r4 db4 w4 where 4: "validate_log w3 db2 = (r4, db4, w4)" by (metis prod_cases3)
  note v = validate_log_ok [OF 4 L lim fd3]
  have s4: "db4 = db2" "same_fs w3 w4" "r4 = QDB_OK" "calm w4" using v c3 calm_same_fs [OF v(2)] by auto
  note e4 = same_fs_simps [OF s4(2)]
  obtain r5 db5 w5 where 5: "qdb__replay_log w4 db2 = (r5, db5, w5)" by (metis prod_cases3)
  have fold: "rec_fold (db_log_start_offset db2) rs (db_next_msg_id db2, db_next_lease_id db2, empty_state) = Inr (db_next_msg_id h, nl, st)"
    using H(9) by (simp add: db2)
  have s5: "same_fs w4 w5" "r5 = QDB_OK" "db5 = db2\<lparr>db_next_msg_id := db_next_msg_id h, db_next_lease_id := nl, db_state := Some st\<rparr>"
    using replay_log_exact [OF 5 _ _ _ fold, of i] L lim fd3 s4(4) by (auto simp: e4)
  note same5 = same_fs_trans [OF s4(2) s5(1)]
  note e5 = same_fs_simps [OF same5]
  define db6 where "db6 = db5\<lparr>db_flags := db_flags db5 OR QDB_FLAG_DIRTY\<rparr>"
  obtain r6 w6 where 6: "qdb__header_update w5 (db_fd db6) db6 = (r6, w6)" by fastforce
  have fd5: "w_fds w5 (db_fd db6) = Some i" using fd3 by (simp add: e5 db6_def s5(3))
  have d5: "ino_data (w_ino w5 i) = take (unat (db_log_end_offset h)) ?f" using s3(3) by (simp add: e5)
  note s6 = open_commit [OF F d5 fd5 _ _ _ _ _ _ 6, unfolded db6_def s5(3), simplified, unfolded db2, simplified]
  have c5: "calm w5" using calm_same_fs [OF s5(1) s4(4)] .
  have r6: "r6 = QDB_OK" using s6(3) c5 by simp
  have 6: "qdb__header_update w5 (db_fd db5) (db5\<lparr>db_flags := db_flags db5 OR 2\<rparr>) = (QDB_OK, w6)"
    using 6 r6 by (simp add: db6_def)
  have eq: "load_existing w db = (QDB_OK, db6, w6)"
    unfolding load_existing_def Let_def 1 prod.case s1(2) db2_def [symmetric] 2(1) 3 s3(2)
    by (simp add: 4 s4 5 s5(2) db6_def 6)
  have of: "only_file w w6 i"
    using same_fs_only_file [OF same2] s3(1) same_fs_only_file [OF same5] s6(1) by (blast intro: only_file_trans)
  show thesis
    by (rule that [OF eq _ _ of]) (use s6(4) r6 c5 calm_only_file [OF s6(1)] in \<open>simp_all add: db6_def s5(3) db2\<close>)
qed

section \<open>Lock and files\<close>

text \<open>
  Inode numbers of the directory are below the next one, and nobody holds the lock of the database
  (\<open>lock_free\<close>), also not on an inode the lock file would get when it is created.
\<close>

definition dir_ok :: "world \<Rightarrow> bool" where
  "dir_ok w \<longleftrightarrow> (\<forall>p i. w_dir w p = Some i \<longrightarrow> i < w_next_ino w)"

definition lock_free :: "world \<Rightarrow> string \<Rightarrow> bool" where
  "lock_free w p \<longleftrightarrow> w_lock w (case w_dir w p of Some j \<Rightarrow> j | None \<Rightarrow> w_next_ino w) = None"

lemma calm_upd [simp]:
  "calm (w\<lparr>w_dir := a\<rparr>) = calm w" "calm (w\<lparr>w_fds := b\<rparr>) = calm w" "calm (w\<lparr>w_ino := c\<rparr>) = calm w"
  "calm (w\<lparr>w_lock := d\<rparr>) = calm w" "calm (w\<lparr>w_next_ino := e\<rparr>) = calm w" "calm (w\<lparr>w_next_fd := f\<rparr>) = calm w"
  by (simp_all add: calm_def)

lemma next_reply_full:
  assumes "calm w" and "next_reply w = (r, w1)"
  shows "same_fs w w1" "calm w1" "(case r of Full \<Rightarrow> x | Short k \<Rightarrow> x | Fail e \<Rightarrow> y e) = x"
  using next_reply_same [OF assms(2)] next_reply_calm [OF assms(2,1)] calm_same_fs [OF _ assms(1)] by auto

lemma sys_open_calm:
  assumes "calm w" and o: "sys_open w p creat excl = (res, w1)"
  shows "calm w1" "w_lock w1 = w_lock w" "w_clock w1 = w_clock w"
    "w_dir w p = Some j \<Longrightarrow> \<not> (creat \<and> excl) \<Longrightarrow> res = Inr (w_next_fd w) \<and> w_dir w1 = w_dir w \<and> w_ino w1 = w_ino w \<and>
       w_fds w1 = (w_fds w)(w_next_fd w \<mapsto> j) \<and> w_next_fd w1 = w_next_fd w + 1 \<and> w_next_ino w1 = w_next_ino w"
    "w_dir w p = Some j \<Longrightarrow> creat \<Longrightarrow> excl \<Longrightarrow> res = Inl EEXIST \<and> same_fs w w1"
    "w_dir w p = None \<Longrightarrow> creat \<Longrightarrow> res = Inr (w_next_fd w) \<and> w_dir w1 = (w_dir w)(p \<mapsto> w_next_ino w) \<and>
       w_ino w1 = (w_ino w)(w_next_ino w := \<lparr>ino_data = [], ino_old = []\<rparr>) \<and>
       w_fds w1 = (w_fds w)(w_next_fd w \<mapsto> w_next_ino w) \<and> w_next_fd w1 = w_next_fd w + 1 \<and> w_next_ino w1 = Suc (w_next_ino w)"
proof -
  obtain r w0 where r: "next_reply w = (r, w0)" by fastforce
  note n = next_reply_full [OF assms(1) r]
  note e = same_fs_simps [OF n(1)]
  show "calm w1" "w_lock w1 = w_lock w" "w_clock w1 = w_clock w"
    "w_dir w p = Some j \<Longrightarrow> \<not> (creat \<and> excl) \<Longrightarrow> res = Inr (w_next_fd w) \<and> w_dir w1 = w_dir w \<and> w_ino w1 = w_ino w \<and>
       w_fds w1 = (w_fds w)(w_next_fd w \<mapsto> j) \<and> w_next_fd w1 = w_next_fd w + 1 \<and> w_next_ino w1 = w_next_ino w"
    "w_dir w p = Some j \<Longrightarrow> creat \<Longrightarrow> excl \<Longrightarrow> res = Inl EEXIST \<and> same_fs w w1"
    "w_dir w p = None \<Longrightarrow> creat \<Longrightarrow> res = Inr (w_next_fd w) \<and> w_dir w1 = (w_dir w)(p \<mapsto> w_next_ino w) \<and>
       w_ino w1 = (w_ino w)(w_next_ino w := \<lparr>ino_data = [], ino_old = []\<rparr>) \<and>
       w_fds w1 = (w_fds w)(w_next_fd w \<mapsto> w_next_ino w) \<and> w_next_fd w1 = w_next_fd w + 1 \<and> w_next_ino w1 = Suc (w_next_ino w)"
    using o n(1,2) unfolding sys_open_def Let_def r prod.case n(3) by (auto simp: e same_fs_simps [of w w1] fun_upd_idem split: option.splits if_splits)
qed

lemma file_lock_calm:
  assumes "calm w" and "qdb__file_lock w fd = (rc, w1)" and "w_fds w fd = Some j"
  shows "calm w1" "w_dir w1 = w_dir w" "w_ino w1 = w_ino w" "w_fds w1 = w_fds w" "w_clock w1 = w_clock w"
    "w_next_ino w1 = w_next_ino w" "w_next_fd w1 = w_next_fd w"
    "w_lock w j = None \<Longrightarrow> rc = QDB_OK \<and> w_lock w1 = (w_lock w)(j \<mapsto> fd)"
    "w_lock w j = Some fd' \<Longrightarrow> fd' \<noteq> fd \<Longrightarrow> rc = QDB_ERR_LOCKED \<and> same_fs w w1"
proof -
  obtain r w0 where r: "next_reply w = (r, w0)" by fastforce
  note n = next_reply_full [OF assms(1) r]
  note e = same_fs_simps [OF n(1)]
  show "calm w1" "w_dir w1 = w_dir w" "w_ino w1 = w_ino w" "w_fds w1 = w_fds w" "w_clock w1 = w_clock w"
    "w_next_ino w1 = w_next_ino w" "w_next_fd w1 = w_next_fd w"
    "w_lock w j = None \<Longrightarrow> rc = QDB_OK \<and> w_lock w1 = (w_lock w)(j \<mapsto> fd)"
    "w_lock w j = Some fd' \<Longrightarrow> fd' \<noteq> fd \<Longrightarrow> rc = QDB_ERR_LOCKED \<and> same_fs w w1"
    using assms n(1,2) unfolding qdb__file_lock_def sys_flock_def Let_def r prod.case n(3) by (auto simp: e same_fs_simps [of w w1] fun_upd_idem split: option.splits if_splits)
qed

lemma file_delete_calm:
  assumes "calm w" and "qdb__file_delete w p = (rc, w1)"
  shows "calm w1" "w_dir w1 = (w_dir w)(p := None)" "w_ino w1 = w_ino w" "w_fds w1 = w_fds w" "w_lock w1 = w_lock w"
    "w_clock w1 = w_clock w" "w_next_ino w1 = w_next_ino w" "w_next_fd w1 = w_next_fd w" "rc = QDB_OK"
proof -
  obtain r w0 where r: "next_reply w = (r, w0)" by fastforce
  note n = next_reply_full [OF assms(1) r]
  note e = same_fs_simps [OF n(1)]
  show "calm w1" "w_dir w1 = (w_dir w)(p := None)" "w_ino w1 = w_ino w" "w_fds w1 = w_fds w" "w_lock w1 = w_lock w"
    "w_clock w1 = w_clock w" "w_next_ino w1 = w_next_ino w" "w_next_fd w1 = w_next_fd w" "rc = QDB_OK"
    using assms n(1,2) unfolding qdb__file_delete_def sys_unlink_def Let_def r prod.case n(3) by (auto simp: e same_fs_simps [of w w1] fun_upd_idem split: option.splits if_splits)
qed

lemma make_sidecar_calm:
  assumes "calm w"
  obtains w1 where "make_sidecar w base suffix = (Some (base @ suffix), w1)" "same_fs w w1" "calm w1"
proof -
  obtain ok w1 where h: "heap_alloc w = (ok, w1)" by fastforce
  have ok by (rule heap_alloc_calm [OF h assms])
  then show thesis
    using that [of w1] h heap_alloc_same [OF h] calm_same_fs [OF heap_alloc_same [OF h] assms] by (simp add: make_sidecar_def)
qed

text \<open>What the open has in hand when the main file is open and locked.\<close>

definition opened :: "world \<Rightarrow> world \<Rightarrow> db \<Rightarrow> string \<Rightarrow> qdb_open_opts_t option \<Rightarrow> bool" where
  "opened w w' db path opts \<longleftrightarrow> calm w' \<and> w_clock w' = w_clock w \<and>
     db_path db = path \<and> db_wal_path db = path @ ''-wal'' \<and> db_lock_path db = path @ ''-lock'' \<and> db_state db = None \<and>
     db_lease_timeout_us db = (case opts of
        Some os \<Rightarrow> if lease_timeout_s os \<noteq> 0 then ucast (lease_timeout_s os) * 1000000 else QDB_DEFAULT_LEASE_US
      | None \<Rightarrow> QDB_DEFAULT_LEASE_US) \<and>
     (\<exists>l. w_fds w' (db_lock_fd db) = Some l \<and> w_lock w' l = Some (db_lock_fd db) \<and> w_dir w' (path @ ''-lock'') = Some l) \<and>
     w_dir w' (path @ ''-wal'') = w_dir w (path @ ''-wal'') \<and> w_dir w' (path @ ''-compact'') = None \<and>
     (case w_dir w path of
        Some i \<Rightarrow> w_fds w' (db_fd db) = Some i \<and> w_ino w' i = w_ino w i \<and> w_dir w' path = Some i
      | None \<Rightarrow> (\<exists>i. w_fds w' (db_fd db) = Some i \<and> w_ino w' i = \<lparr>ino_data = [], ino_old = []\<rparr> \<and> w_dir w' path = Some i))"

lemma lockfile_open_calm:
  assumes "calm w" and "dir_ok w"
  obtains l w1 where "qdb__lockfile_open w p = (QDB_OK, w_next_fd w, w1)" "calm w1" "w_lock w1 = w_lock w" "w_clock w1 = w_clock w"
    "w_fds w1 = (w_fds w)(w_next_fd w \<mapsto> l)" "w_dir w1 = (w_dir w)(p \<mapsto> l)" "w_next_fd w1 = w_next_fd w + 1" "dir_ok w1"
    "l = (case w_dir w p of Some j \<Rightarrow> j | None \<Rightarrow> w_next_ino w)" "\<forall>q i. w_dir w q = Some i \<longrightarrow> w_ino w1 i = w_ino w i"
proof -
  obtain res w1 where o: "sys_open w p True False = (res, w1)" by fastforce
  note s = sys_open_calm [OF assms(1) o]
  show thesis
  proof (cases "w_dir w p")
    case None
    have n: "res = Inr (w_next_fd w)" "w_dir w1 = (w_dir w)(p \<mapsto> w_next_ino w)"
      "w_ino w1 = (w_ino w)(w_next_ino w := \<lparr>ino_data = [], ino_old = []\<rparr>)" "w_fds w1 = (w_fds w)(w_next_fd w \<mapsto> w_next_ino w)"
      "w_next_fd w1 = w_next_fd w + 1" "w_next_ino w1 = Suc (w_next_ino w)" using s(6) [OF None] by simp_all
    have lt: "w_dir w q = Some i \<Longrightarrow> i < w_next_ino w" for q i using assms(2) by (simp add: dir_ok_def)
    have "w_ino w1 i = w_ino w i" if "w_dir w q = Some i" for q i using lt [OF that] by (simp add: n(3))
    moreover have "dir_ok w1" using lt by (fastforce simp: dir_ok_def n(2,6) less_Suc_eq)
    ultimately show thesis
      using that [of w1 "w_next_ino w"] s(1,2,3) n(2,4,5) o [unfolded n(1)] None by (simp add: qdb__lockfile_open_def)
  next
    case (Some j)
    have n: "res = Inr (w_next_fd w)" "w_dir w1 = w_dir w" "w_ino w1 = w_ino w" "w_fds w1 = (w_fds w)(w_next_fd w \<mapsto> j)"
      "w_next_fd w1 = w_next_fd w + 1" "w_next_ino w1 = w_next_ino w" using s(4) [OF Some] by simp_all
    have dok: "dir_ok w1" using assms(2) by (simp add: dir_ok_def n(2,6))
    have dir: "w_dir w1 = (w_dir w)(p \<mapsto> j)" using Some by (simp add: n(2) fun_upd_idem)
    show thesis
      by (rule that [OF _ s(1,2,3) n(4) dir n(5) dok]) (use o [unfolded n(1)] Some n(3) in \<open>simp_all add: qdb__lockfile_open_def\<close>)
  qed
qed

lemma file_open_calm:
  assumes "calm w"
  obtains i w1 where "qdb__file_open w p True = (QDB_OK, w_next_fd w, w_dir w p = None, w1)" "calm w1" "w_lock w1 = w_lock w"
    "w_clock w1 = w_clock w" "w_fds w1 = (w_fds w)(w_next_fd w \<mapsto> i)" "w_dir w1 = (w_dir w)(p \<mapsto> i)"
    "case w_dir w p of Some j \<Rightarrow> i = j \<and> w_ino w1 = w_ino w | None \<Rightarrow> w_ino w1 i = \<lparr>ino_data = [], ino_old = []\<rparr>"
proof -
  obtain res w1 where o: "sys_open w p True True = (res, w1)" by fastforce
  note s = sys_open_calm [OF assms o]
  show thesis
  proof (cases "w_dir w p")
    case None
    then show thesis
      using that [of w1 "w_next_ino w"] s(1,2,3) s(6) o by (auto simp: qdb__file_open_def)
  next
    case (Some j)
    have e: "res = Inl EEXIST" "same_fs w w1" using s(5) [OF Some] by auto
    obtain res2 w2 where o2: "sys_open w1 p False False = (res2, w2)" by fastforce
    note s2 = sys_open_calm [OF s(1) o2]
    show thesis
      using that [of w2 j] s2(1,2,3) s2(4) [of j] o o2 Some e(1)
      by (auto simp: qdb__file_open_def file_open_existing_def same_fs_simps [OF e(2)] fun_upd_idem)
  qed
qed

lemma sidecars_differ:
  "path @ ''-wal'' \<noteq> path" "path @ ''-lock'' \<noteq> path" "path @ ''-compact'' \<noteq> path"
  "path @ ''-wal'' \<noteq> path @ ''-lock''" "path @ ''-compact'' \<noteq> path @ ''-lock''" "path @ ''-wal'' \<noteq> path @ ''-compact''"
  by simp_all

lemma open_prefix:
  assumes c: "calm w" and dok: "dir_ok w" and lk: "lock_free w (path @ ''-lock'')"
  obtains db w' where "opened w w' db path opts"
    "qdb_open_err w (Some path) opts = (if w_dir w path = None then open_new w' db else open_existing w' db)"
proof -
  obtain ok w1 where 1: "heap_alloc w = (ok, w1)" by fastforce
  have s1: "same_fs w w1" "calm w1" ok using heap_alloc_same [OF 1] heap_alloc_calm [OF 1 c] calm_same_fs [OF _ c] by auto
  obtain w2 where 2: "make_sidecar w1 path [] = (Some path, w2)" "same_fs w1 w2" "calm w2"
    using make_sidecar_calm [OF s1(2), of path "[]"] by auto
  obtain w3 where 3: "make_sidecar w2 path ''-wal'' = (Some (path @ ''-wal''), w3)" "same_fs w2 w3" "calm w3" by (rule make_sidecar_calm [OF 2(3)])
  obtain w4 where 4: "make_sidecar w3 path ''-lock'' = (Some (path @ ''-lock''), w4)" "same_fs w3 w4" "calm w4" by (rule make_sidecar_calm [OF 3(3)])
  have same4: "same_fs w w4" using s1(1) 2(2) 3(2) 4(2) by (blast intro: same_fs_trans)
  note e4 = same_fs_simps [OF same4]
  have dok4: "dir_ok w4" using dok by (simp add: dir_ok_def e4)
  obtain l w5 where 5: "qdb__lockfile_open w4 (path @ ''-lock'') = (QDB_OK, w_next_fd w4, w5)" "calm w5" "w_lock w5 = w_lock w4"
    "w_clock w5 = w_clock w4" "w_fds w5 = (w_fds w4)(w_next_fd w4 \<mapsto> l)" "w_dir w5 = (w_dir w4)(path @ ''-lock'' \<mapsto> l)"
    "w_next_fd w5 = w_next_fd w4 + 1" "dir_ok w5" "l = (case w_dir w4 (path @ ''-lock'') of Some j \<Rightarrow> j | None \<Rightarrow> w_next_ino w4)"
    "\<forall>q i. w_dir w4 q = Some i \<longrightarrow> w_ino w5 i = w_ino w4 i"
    by (rule lockfile_open_calm [OF 4(3) dok4])
  let ?lf = "w_next_fd w"
  obtain rc6 w6 where 6: "qdb__file_lock w5 ?lf = (rc6, w6)" by fastforce
  have fd5: "w_fds w5 ?lf = Some l" using 5(5) by (simp add: e4)
  have "w_lock w5 l = None" using lk 5(3,9) by (simp add: lock_free_def e4 split: option.splits)
  with file_lock_calm [OF 5(2) 6 fd5] have s6: "calm w6" "w_dir w6 = w_dir w5" "w_ino w6 = w_ino w5" "w_fds w6 = w_fds w5"
    "w_clock w6 = w_clock w5" "w_next_fd w6 = w_next_fd w5" "rc6 = QDB_OK" "w_lock w6 = (w_lock w5)(l \<mapsto> ?lf)" by auto
  obtain w7 where 7: "make_sidecar w6 path ''-compact'' = (Some (path @ ''-compact''), w7)" "same_fs w6 w7" "calm w7"
    by (rule make_sidecar_calm [OF s6(1)])
  note e7 = same_fs_simps [OF 7(2)]
  obtain rc8 w8 where 8: "qdb__file_delete w7 (path @ ''-compact'') = (rc8, w8)" by fastforce
  note s8 = file_delete_calm [OF 7(3) 8]
  obtain i w9 where 9: "qdb__file_open w8 path True = (QDB_OK, w_next_fd w8, w_dir w8 path = None, w9)" "calm w9" "w_lock w9 = w_lock w8"
    "w_clock w9 = w_clock w8" "w_fds w9 = (w_fds w8)(w_next_fd w8 \<mapsto> i)" "w_dir w9 = (w_dir w8)(path \<mapsto> i)"
    "case w_dir w8 path of Some j \<Rightarrow> i = j \<and> w_ino w9 = w_ino w8 | None \<Rightarrow> w_ino w9 i = \<lparr>ino_data = [], ino_old = []\<rparr>"
    by (rule file_open_calm [OF s8(1)])
  have dir8: "w_dir w8 path = w_dir w path" using s8(2) e7 s6(2) 5(6) by (simp add: e4 sidecars_differ)
  let ?lt = "case opts of Some os \<Rightarrow> if lease_timeout_s os \<noteq> 0 then ucast (lease_timeout_s os) * 1000000 else QDB_DEFAULT_LEASE_US
      | None \<Rightarrow> QDB_DEFAULT_LEASE_US"
  let ?db = "\<lparr>db_fd = ?lf + 1, db_lock_fd = ?lf, db_path = path, db_wal_path = path @ ''-wal'', db_lock_path = path @ ''-lock'',
      db_next_msg_id = 0, db_next_lease_id = 0, db_log_start_offset = 0, db_log_end_offset = 0, db_create_time_us = 0,
      db_flags = 0, db_lease_timeout_us = ?lt, db_state = None\<rparr>"
  have fd8: "w_next_fd w8 = ?lf + 1" using s8(8) e7 s6(6) 5(7) by (simp add: e4)
  have eq: "qdb_open_err w (Some path) opts = (if w_dir w path = None then open_new w9 ?db else open_existing w9 ?db)"
    using s1(3) 9(1) unfolding qdb_open_err_def option.case Let_def 1 prod.case 2 3 4 5
    by (simp add: 5(1) 6 e4 s6(7) 7(1) 8 fd8 dir8)
  have "opened w w9 ?db path opts"
    unfolding opened_def
    using 9 s8 e7 s6 5 dir8 fd8 by (auto simp: e4 sidecars_differ split: option.splits)
  then show thesis using that eq by blast
qed

end
