(* ===== verification/RecoveryProps.thy ===== *)
theory RecoveryProps
  imports Recovery
begin

text \<open>
  The promises of \<open>qdb_open_err\<close> and \<open>qdb_close\<close>: a new database starts empty; after a crash or a
  close, opening restores exactly the messages, their order, their leases and the counters; a database
  somebody else has open is refused.
\<close>

section \<open>New databases\<close>

lemma open_new_ok:
  assumes c: "calm w" and fd: "w_fds w (db_fd db) = Some i" and new: "w_ino w i = \<lparr>ino_data = [], ino_old = []\<rparr>"
  obtains db' w' where "open_new w db = (Some db', QDB_OK, w')" "db_ok w' db' i [] empty_state a_empty"
    "db_next_msg_id db' = 1" "db_next_lease_id db' = 1" "calm w'" "db_lock_fd db' = db_lock_fd db"
proof -
  define db1 where "db1 = db\<lparr>db_next_msg_id := 1, db_next_lease_id := 1, db_log_start_offset := of_nat QDB_HDR_SIZE,
      db_log_end_offset := of_nat QDB_HDR_SIZE, db_create_time_us := qdb__time_us w, db_flags := QDB_FLAG_DIRTY\<rparr>"
  obtain r1 w1 where 1: "qdb__header_write w (db_fd db) db1 = (r1, w1)" by fastforce
  have s1: "only_file w w1 i" "r1 = QDB_OK" "ino_data (w_ino w1 i) = header_encode db1" "ino_old (w_ino w1 i) = []"
    using header_write_spec [OF 1 fd] c new by (auto simp: splice_def)
  have c1: "calm w1" using calm_only_file [OF s1(1) c] .
  obtain ok w2 where 2: "heap_alloc w1 = (ok, w2)" by fastforce
  have s2: ok "same_fs w1 w2" using heap_alloc_calm [OF 2 c1] heap_alloc_same [OF 2] by auto
  note e2 = same_fs_simps [OF s2(2)]
  let ?db = "db1\<lparr>db_state := Some empty_state\<rparr>"
  have eq: "open_new w db = (Some ?db, QDB_OK, w2)"
    using s1(2) s2(1) 1 2 unfolding open_new_def Let_def db1_def [symmetric]
    by (simp add: db1_def qdb__state_alloc_def)
  have f: "db_log_start_offset db1 = 4096" "db_log_end_offset db1 = 4096" "db_next_msg_id db1 = 1" "db_next_lease_id db1 = 1"
    "db_fd db1 = db_fd db" "db_lock_fd db1 = db_lock_fd db" by (simp_all add: db1_def)
  have "w_fds w2 (db_fd db) = Some i" using fd only_file_simps(2) [OF s1(1)] by (simp add: e2)
  moreover have "has_header (header_encode db1) db1" by (rule has_header_encode)
  ultimately have "db_ok w2 ?db i [] empty_state a_empty"
    using absR_empty s1(3,4) by (simp add: db_ok_def f e2 good_bounds_def stable_below_def fresh_def)
  then show thesis using that [OF eq] f calm_same_fs [OF s2(2) c1] by simp
qed

lemma open_empty:
  assumes "calm w" and "dir_ok w" and "lock_free w (path @ ''-lock'')" and "w_dir w path = None"
  obtains db i w' where "qdb_open_err w (Some path) opts = (Some db, QDB_OK, w')" "db_ok w' db i [] empty_state a_empty"
    "db_next_msg_id db = 1" "db_next_lease_id db = 1" "calm w'"
proof -
  obtain db0 w1 where o: "opened w w1 db0 path opts"
    "qdb_open_err w (Some path) opts = (if w_dir w path = None then open_new w1 db0 else open_existing w1 db0)"
    by (rule open_prefix [OF assms(1-3)])
  obtain i where i: "w_fds w1 (db_fd db0) = Some i" "w_ino w1 i = \<lparr>ino_data = [], ino_old = []\<rparr>" and c: "calm w1"
    using o(1) assms(4) by (auto simp: opened_def)
  obtain db' w' where "open_new w1 db0 = (Some db', QDB_OK, w')" "db_ok w' db' i [] empty_state a_empty"
    "db_next_msg_id db' = 1" "db_next_lease_id db' = 1" "calm w'" by (rule open_new_ok [OF c i])
  then show thesis using that o(2) assms(4) by simp
qed

text \<open>
  Theorem C22.  Opening a path where there is no file (without failures, nobody holding the lock)
  creates an empty database: no messages, both counters at one, header on disk, invariant established.
\<close>

theorem open_creates_empty:
  assumes "calm w" and "dir_ok w" and "lock_free w (path @ ''-lock'')" and "w_dir w path = None"
  shows "\<exists>db i w'. qdb_open_err w (Some path) opts = (Some db, QDB_OK, w') \<and> db_ok w' db i [] empty_state a_empty \<and>
    db_next_msg_id db = 1 \<and> db_next_lease_id db = 1"
  by (rule open_empty [OF assms]) blast

definition blank_world :: world where
  "blank_world = \<lparr>w_dir = Map.empty, w_ino = (\<lambda>_. \<lparr>ino_data = [], ino_old = []\<rparr>), w_fds = Map.empty, w_lock = Map.empty,
     w_next_ino = 0, w_next_fd = 3, w_replies = [], w_allocs = [], w_clock = None\<rparr>"

lemma blank_world_simps [simp]:
  "calm blank_world" "dir_ok blank_world" "lock_free blank_world p" "w_dir blank_world q = None"
  by (simp_all add: blank_world_def calm_def dir_ok_def lock_free_def)

theorem open_creates_empty_witness:
  "\<exists>db i w'. qdb_open_err blank_world (Some ''/tmp/q'') None = (Some db, QDB_OK, w') \<and> db_ok w' db i [] empty_state a_empty"
  using open_creates_empty [of blank_world "''/tmp/q''" None] by auto

section \<open>Recovery\<close>

lemma open_file_ok:
  assumes F: "file_ok (ino_data (w_ino w j)) h rs nl st A" and c: "calm w" and dok: "dir_ok w"
    and lk: "lock_free w (path @ ''-lock'')" and p: "w_dir w path = Some j" "w_dir w (path @ ''-wal'') = None"
  shows "\<exists>db' w'. qdb_open_err w (Some path) opts = (Some db', QDB_OK, w') \<and> db_ok w' db' j rs st A \<and>
    db_next_msg_id db' = db_next_msg_id h \<and> db_next_lease_id db' = nl \<and> calm w' \<and> w_dir w' path = Some j"
proof -
  obtain db0 w1 where o: "opened w w1 db0 path opts"
    "qdb_open_err w (Some path) opts = (if w_dir w path = None then open_new w1 db0 else open_existing w1 db0)"
    by (rule open_prefix [OF c dok lk])
  have i: "w_fds w1 (db_fd db0) = Some j" "w_ino w1 j = w_ino w j" "calm w1" "w_dir w1 (db_wal_path db0) = None" "w_dir w1 path = Some j"
    using o(1) p by (auto simp: opened_def)
  have "file_ok (ino_data (w_ino w1 j)) h rs nl st A" using F i(2) by simp
  from load_existing_ok [OF this i(1,3,4)] obtain db' w' where l: "load_existing w1 db0 = (QDB_OK, db', w')"
    "db_ok w' db' j rs st A" "db_next_msg_id db' = db_next_msg_id h" "db_next_lease_id db' = nl" "calm w'" "only_file w1 w' j" by blast
  then show ?thesis using o(2) p(1) i(5) only_file_simps [OF l(6)] by (auto simp: open_existing_def)
qed

text \<open>
  Theorem C7.  Crash recovery.  Take a database in order and any content of its file that a crash can
  leave behind: the current one or one that an unsynced write replaced.  Opening that file restores
  the log, the messages with their order, leases and retry counts, and both counters exactly.
\<close>

theorem crash_recovery:
  assumes "db_ok w db i rs st A" and "v \<in> insert (ino_data (w_ino w i)) (set (ino_old (w_ino w i)))" and "length v < 2 ^ 63"
    and "calm w0" and "dir_ok w0" and "lock_free w0 (path @ ''-lock'')"
    and "w_dir w0 path = Some j" and "w_dir w0 (path @ ''-wal'') = None" and "ino_data (w_ino w0 j) = v"
  shows "\<exists>db' w'. qdb_open_err w0 (Some path) opts = (Some db', QDB_OK, w') \<and> db_ok w' db' j rs st A \<and>
    db_next_msg_id db' = db_next_msg_id db \<and> db_next_lease_id db' = db_next_lease_id db"
  using open_file_ok [OF _ assms(4-8)] db_ok_file [OF assms(1-3)] assms(9) by blast

definition file_world :: "bytes \<Rightarrow> world" where
  "file_world f = \<lparr>w_dir = [''q'' \<mapsto> 0], w_ino = (\<lambda>_. \<lparr>ino_data = f, ino_old = []\<rparr>), w_fds = Map.empty, w_lock = Map.empty,
     w_next_ino = 1, w_next_fd = 3, w_replies = [], w_allocs = [], w_clock = None\<rparr>"

lemma file_world_simps [simp]:
  "calm (file_world f)" "dir_ok (file_world f)" "lock_free (file_world f) p" "w_dir (file_world f) ''q'' = Some 0"
  "w_dir (file_world f) (''q'' @ ''-wal'') = None" "ino_data (w_ino (file_world f) j) = f"
  by (simp_all add: file_world_def calm_def dir_ok_def lock_free_def)

theorem crash_recovery_witness:
  "\<exists>db' w' rs st. qdb_open_err (file_world (ino_data (w_ino leased_world 0))) (Some ''q'') None = (Some db', QDB_OK, w') \<and>
    db_ok w' db' 0 rs st leased_spec \<and> db_next_lease_id db' = 2"
proof -
  obtain rs st where st: "db_ok leased_world leased_db 0 rs st leased_spec" "db_next_lease_id leased_db = 2" by (rule leased_db_ok)
  let ?w = "file_world (ino_data (w_ino leased_world 0))"
  have "\<exists>db' w'. qdb_open_err ?w (Some ''q'') None = (Some db', QDB_OK, w') \<and> db_ok w' db' 0 rs st leased_spec \<and>
      db_next_msg_id db' = db_next_msg_id leased_db \<and> db_next_lease_id db' = db_next_lease_id leased_db"
    by (rule crash_recovery [OF st(1) insertI1 db_okD(2) [OF st(1)]]) (rule file_world_simps)+
  then show ?thesis using st(2) by auto
qed

text \<open>
  Theorem C8.  A crash after an append began and before the header patch: whatever happened to the
  append and whichever content of the file survives, opening it restores exactly the database before
  the operation.  This covers an append that succeeded, with record and commit marker synced: the
  header still has the old log end, and the open drops what is behind it.
\<close>

theorem interrupted_append_recovers:
  assumes "db_ok w db i rs st A" and "qdb__append_record w (db_fd db) t p plen (db_log_end_offset db) = (rc, e, w1)"
    and "length p = unat plen" and "unat (db_log_end_offset db) + 10 + length p < 2 ^ 63"
    and "v \<in> insert (ino_data (w_ino w1 i)) (set (ino_old (w_ino w1 i)))" and "length v < 2 ^ 63"
    and "calm w0" and "dir_ok w0" and "lock_free w0 (path @ ''-lock'')"
    and "w_dir w0 path = Some j" and "w_dir w0 (path @ ''-wal'') = None" and "ino_data (w_ino w0 j) = v"
  shows "\<exists>db' w'. qdb_open_err w0 (Some path) opts = (Some db', QDB_OK, w') \<and> db_ok w' db' j rs st A \<and>
    db_next_msg_id db' = db_next_msg_id db \<and> db_next_lease_id db' = db_next_lease_id db"
proof -
  note D = db_okD [OF assms(1)]
  note sp = append_record_spec [OF assms(2) D(1) assms(3,4) D(14)]
  have "length (ino_data (w_ino w1 i)) < 2 ^ 63" using sp D(2) assms(4) by auto
  then have "db_ok w1 db i rs st A" using db_ok_tail [OF assms(1)] sp by blast
  from db_ok_file [OF this assms(5,6)] show ?thesis using open_file_ok [OF _ assms(7-11)] assms(12) by blast
qed

theorem interrupted_append_recovers_witness:
  "\<exists>rc e w1 db' w'. qdb__append_record (new_world [Short 9, Full, Fail EIO]) 3 QDB_RT_MSG_ACK [1, 2] 2 4096 = (rc, e, w1) \<and>
    qdb_open_err (file_world (ino_data (w_ino w1 0))) (Some ''q'') None = (Some db', QDB_OK, w') \<and>
    db_ok w' db' 0 [] empty_state a_empty"
proof -
  let ?w = "new_world [Short 9, Full, Fail EIO]"
  obtain rc e w1 where a: "qdb__append_record ?w (db_fd new_db) QDB_RT_MSG_ACK [1, 2] 2 (db_log_end_offset new_db) = (rc, e, w1)"
    by (metis prod_cases3)
  have len: "length [1, 2 :: u8] = unat (2 :: u32)" "unat (db_log_end_offset new_db) + 10 + length [1, 2 :: u8] < 2 ^ 63" by simp_all
  have D: "length (ino_data (w_ino w1 0)) < 2 ^ 63"
    using append_record_spec [OF a db_okD(1) [OF new_db_ok] len db_okD(14) [OF new_db_ok]] db_okD(2) [OF new_db_ok, of "[Short 9, Full, Fail EIO]"]
    by auto
  have "\<exists>db' w'. qdb_open_err (file_world (ino_data (w_ino w1 0))) (Some ''q'') None = (Some db', QDB_OK, w') \<and>
      db_ok w' db' 0 [] empty_state a_empty \<and>
      db_next_msg_id db' = db_next_msg_id new_db \<and> db_next_lease_id db' = db_next_lease_id new_db"
    by (rule interrupted_append_recovers [OF new_db_ok a len insertI1 D]) (rule file_world_simps)+
  then show ?thesis using a by auto
qed

section \<open>Close\<close>

text \<open>A header patch that changes nothing but the flags keeps the invariant.\<close>

lemma flags_update_ok:
  assumes ok: "db_ok w db i rs st A" and hu: "qdb__header_update w (db_fd db) (db\<lparr>db_flags := fl\<rparr>) = (QDB_OK, w')"
  shows "db_ok w' (db\<lparr>db_flags := fl\<rparr>) i rs st A" "only_file w w' i"
proof -
  note D = db_okD [OF ok]
  let ?db = "db\<lparr>db_flags := fl\<rparr>" and ?d = "ino_data (w_ino w i)" and ?e = "unat (db_log_end_offset db)" and ?s = "unat (db_log_start_offset db)"
  have len: "56 \<le> length ?d" using D(14,15,16) by simp
  have h: "ino_data (w_ino w' i) = splice ?d 24 (drop 24 (hdr_bytes ?db))" "ino_old (w_ino w' i) = []" "only_file w w' i"
    using header_update_spec [OF hu D(1) len] by auto
  show "only_file w w' i" by (fact h(3))
  let ?d' = "splice ?d 24 (drop 24 (hdr_bytes ?db))"
  have ld: "length ?d' = length ?d" using len by (simp add: max_absorb1)
  have "has_header ?d' ?db" using header_patch [OF D(3), of ?db] by simp
  moreover have "slice ?d' ?s (?e - ?s) = slice ?d ?s (?e - ?s)" using D(15) len by (intro slice_splice_after) simp_all
  then have "log_is ?d' ?s ?e rs" using log_is_same_slice [OF _ _ D(5), of ?d'] ld D(14) by simp
  moreover have "good_bounds ?db" using D(4) by (simp add: good_bounds_def)
  moreover have "stable_below (take ?e ?d') (w_ino w' i)" using h ld D(14) by (simp add: stable_below_def min_absorb2)
  ultimately show "db_ok w' ?db i rs st A"
    using ok h ld only_file_simps(2) [OF h(3)] by (simp add: db_ok_def)
qed

lemma free_db_simps:
  assumes "w' = qdb__free_db w (Some db)"
  shows "w_ino w' = w_ino w" "w_dir w' = w_dir w" "w_next_ino w' = w_next_ino w" "calm w' = calm w"
    "w_lock w' l \<noteq> Some (db_lock_fd db) \<or> db_lock_fd db = QDB__INVALID_FD" "w_lock w l = None \<Longrightarrow> w_lock w' l = None"
    "w_lock w l = Some (db_lock_fd db) \<Longrightarrow> db_lock_fd db \<noteq> QDB__INVALID_FD \<Longrightarrow> w_lock w' l = None"
  unfolding assms
  by (auto simp: qdb__free_db_def qdb__file_close_def qdb__file_unlock_def sys_close_def drop_lock_def Let_def)

text \<open>Closing leaves a file that can be opened, with the records of the handle.\<close>

lemma close_file:
  assumes ok: "db_ok w db i rs st A" and c: "calm w"
  obtains h :: db where "file_ok (ino_data (w_ino (qdb_close w (Some db)) i)) h rs (db_next_lease_id db) st A" "db_next_msg_id h = db_next_msg_id db"
    "length (ino_data (w_ino (qdb_close w (Some db)) i)) = length (ino_data (w_ino w i))" "w_dir (qdb_close w (Some db)) = w_dir w"
    "calm (qdb_close w (Some db))" "w_next_ino (qdb_close w (Some db)) = w_next_ino w"
    "\<And>l. w_lock w l = Some (db_lock_fd db) \<Longrightarrow> db_lock_fd db \<noteq> QDB__INVALID_FD \<Longrightarrow> w_lock (qdb_close w (Some db)) l = None"
proof (cases "db_fd db = QDB__INVALID_FD")
  case True
  define w2 where "w2 = qdb__free_db w (Some db)"
  have "qdb_close w (Some db) = w2" using True by (simp add: qdb_close_def w2_def)
  with free_db_simps [OF w2_def] show thesis using that [of db] db_ok_file [OF ok insertI1 db_okD(2) [OF ok]] c by simp
next
  case False
  note D = db_okD [OF ok]
  define fl where "fl = db_flags db AND NOT (QDB_FLAG_DIRTY OR QDB_FLAG_WAL_PRESENT)"
  let ?db = "db\<lparr>db_flags := fl\<rparr>"
  obtain rc w1 where 1: "qdb__header_update w (db_fd db) ?db = (rc, w1)" by fastforce
  have len: "56 \<le> length (ino_data (w_ino w i))" using D(14,15,16) by simp
  note sp = header_update_spec [OF 1 D(1) len]
  have rc: "rc = QDB_OK" using sp c by auto
  note 1 = 1 [unfolded this]
  note o1 = flags_update_ok [OF ok 1]
  note e1 = only_file_simps [OF o1(2)]
  define w2 where "w2 = qdb__free_db w1 (Some ?db)"
  have cl: "qdb_close w (Some db) = w2"
    using False 1 unfolding w2_def qdb_close_def Let_def by (simp add: fl_def)
  note e2 = free_db_simps [OF w2_def]
  have F: "file_ok (ino_data (w_ino w2 i)) ?db rs (db_next_lease_id db) st A"
    using db_ok_file [OF o1(1) insertI1 db_okD(2) [OF o1(1)]] e2(1) by simp
  have ld: "length (ino_data (w_ino w2 i)) = length (ino_data (w_ino w i))" using sp rc len e2(1) by (auto simp: max_absorb1)
  show thesis by (rule that [unfolded cl, OF F _ ld]) (use calm_only_file [OF o1(2) c] e2(7) in \<open>simp_all add: e1 e2\<close>)
qed

text \<open>
  Theorem C10.  Closing a database and opening its path again gives the database back: the same
  log, messages, order, leases, retry counts and counters.  The lock is released by the close.
\<close>

theorem close_reopen:
  assumes ok: "db_ok w db i rs st A" and c: "calm w" and fds: "db_fd db \<noteq> QDB__INVALID_FD" "db_lock_fd db \<noteq> QDB__INVALID_FD"
    and dok: "dir_ok w" and p: "w_dir w path = Some i" "w_dir w (path @ ''-wal'') = None"
    and lk: "w_dir w (path @ ''-lock'') = Some l" "w_lock w l = Some (db_lock_fd db)"
  shows "\<exists>db' w'. qdb_open_err (qdb_close w (Some db)) (Some path) opts = (Some db', QDB_OK, w') \<and> db_ok w' db' i rs st A \<and>
    db_next_msg_id db' = db_next_msg_id db \<and> db_next_lease_id db' = db_next_lease_id db"
proof -
  define w2 where "w2 = qdb_close w (Some db)"
  obtain h :: db where h: "file_ok (ino_data (w_ino w2 i)) h rs (db_next_lease_id db) st A" "db_next_msg_id h = db_next_msg_id db"
    "w_dir w2 = w_dir w" "calm w2" "w_next_ino w2 = w_next_ino w" "w_lock w2 l = None"
    using close_file [OF ok c, folded w2_def] lk(2) fds(2) by metis
  have "dir_ok w2" "lock_free w2 (path @ ''-lock'')" using dok lk(1) h(3,5,6) by (simp_all add: dir_ok_def lock_free_def)
  from open_file_ok [OF h(1,4) this, of opts] show ?thesis using p h(2,3) unfolding w2_def [symmetric] by force
qed

definition held_world :: world where
  "held_world = (new_world [])\<lparr>w_dir := [''q'' \<mapsto> 0, ''q-lock'' \<mapsto> 5], w_fds := [3 \<mapsto> 0, 4 \<mapsto> 5], w_lock := [5 \<mapsto> 4],
     w_next_ino := 6, w_next_fd := 5\<rparr>"

lemma held_world_simps [simp]:
  "calm held_world" "dir_ok held_world" "w_dir held_world ''q'' = Some 0" "w_dir held_world (''q'' @ ''-wal'') = None"
  "w_dir held_world (''q'' @ ''-lock'') = Some 5" "w_lock held_world 5 = Some 4" "w_next_fd held_world = 5"
  by (auto simp: held_world_def dir_ok_def split: if_splits)

lemma held_world_ok: "db_ok held_world new_db 0 [] empty_state a_empty"
  using new_db_ok [of "[]"] by (simp add: held_world_def db_ok_def)

theorem close_reopen_witness:
  "\<exists>db' w'. qdb_open_err (qdb_close held_world (Some new_db)) (Some ''q'') None = (Some db', QDB_OK, w') \<and>
    db_ok w' db' 0 [] empty_state a_empty"
proof -
  have "db_fd new_db \<noteq> QDB__INVALID_FD" "db_lock_fd new_db \<noteq> QDB__INVALID_FD" "w_lock held_world 5 = Some (db_lock_fd new_db)"
    by (simp_all add: new_db_def)
  from close_reopen [OF held_world_ok held_world_simps(1) this(1,2) held_world_simps(2-5) this(3), of None] show ?thesis by blast
qed

section \<open>Mutual exclusion\<close>

text \<open>
  Theorem C23.  While a handle holds the lock of a database, every other attempt to open it (without
  failures) is refused with \<open>QDB_ERR_LOCKED\<close>, touches no file and no directory entry, and leaves the lock
  with its holder.
\<close>

theorem open_locked_refused:
  assumes c: "calm w" and dok: "dir_ok w" and lk: "w_dir w (path @ ''-lock'') = Some l" "w_lock w l = Some fd'" "fd' \<noteq> w_next_fd w"
  shows "\<exists>w'. qdb_open_err w (Some path) opts = (None, QDB_ERR_LOCKED, w') \<and> w_ino w' = w_ino w \<and> w_dir w' = w_dir w \<and>
    w_lock w' l = Some fd'"
proof -
  obtain ok w1 where 1: "heap_alloc w = (ok, w1)" by fastforce
  have s1: "same_fs w w1" "calm w1" ok using heap_alloc_same [OF 1] heap_alloc_calm [OF 1 c] calm_same_fs [OF _ c] by auto
  obtain w2 where 2: "make_sidecar w1 path [] = (Some path, w2)" "same_fs w1 w2" "calm w2"
    using make_sidecar_calm [OF s1(2), of path "[]"] by auto
  obtain w3 where 3: "make_sidecar w2 path ''-wal'' = (Some (path @ ''-wal''), w3)" "same_fs w2 w3" "calm w3" by (rule make_sidecar_calm [OF 2(3)])
  obtain w4 where 4: "make_sidecar w3 path ''-lock'' = (Some (path @ ''-lock''), w4)" "same_fs w3 w4" "calm w4" by (rule make_sidecar_calm [OF 3(3)])
  have same4: "same_fs w w4" using s1(1) 2(2) 3(2) 4(2) by (blast intro: same_fs_trans)
  note e4 = same_fs_simps [OF same4]
  obtain res w5 where o: "sys_open w4 (path @ ''-lock'') True False = (res, w5)" by fastforce
  have dir4: "w_dir w4 (path @ ''-lock'') = Some l" using lk(1) by (simp add: e4)
  note s5 = sys_open_calm [OF 4(3) o]
  have s5: "calm w5" "w_lock w5 = w_lock w" "res = Inr (w_next_fd w)" "w_dir w5 = w_dir w" "w_ino w5 = w_ino w"
    "w_fds w5 = (w_fds w)(w_next_fd w \<mapsto> l)"
    using s5(1,2) s5(4) [OF dir4] by (simp_all add: e4)
  obtain rc w6 where 6: "qdb__file_lock w5 (w_next_fd w) = (rc, w6)" by fastforce
  have fd5: "w_fds w5 (w_next_fd w) = Some l" by (simp add: s5(6))
  have "w_lock w5 l = Some fd'" using lk(2) by (simp add: s5(2))
  from file_lock_calm(9) [OF s5(1) 6 fd5 this lk(3)] have s6: "rc = QDB_ERR_LOCKED" "same_fs w5 w6" by auto
  have eq: "qdb_open_err w (Some path) opts = (None, QDB_ERR_LOCKED, qdb__file_close w6 (w_next_fd w))"
    using s1(3) unfolding qdb_open_err_def option.case Let_def 1 prod.case 2 3 4
    by (simp add: qdb__lockfile_open_def o s5(3) 6 s6(1) open_fail_def qdb__free_db_def)
  show ?thesis
    using lk(2,3) by (simp add: eq qdb__file_close_def sys_close_def drop_lock_def same_fs_simps [OF s6(2)] s5(2,4,5))
qed

theorem open_locked_refused_witness:
  "\<exists>w'. qdb_open_err held_world (Some ''q'') None = (None, QDB_ERR_LOCKED, w') \<and> w_ino w' = w_ino held_world"
  using open_locked_refused [OF held_world_simps(1,2,5,6), of None] by auto

end
