(* ===== verification/Stats.thy ===== *)
theory Stats
  imports AckProps
begin

text \<open>
  The read-only operations of \<^verbatim>\<open>src/qdb.c\<close>: statistics of the database and of one queue, the list of
  the queue names, the compaction hint and the error texts.  Shown: the counters reported are the
  cardinalities of the specification, they add up to the number of messages, the queue list is
  complete within the caller's capacity and never writes past it.
\<close>

section \<open>Operations\<close>

record qdb_stats_t =
  s_queue_count :: u64
  s_pending_count :: u64
  s_leased_count :: u64
  s_acked_count :: u64
  s_file_size_bytes :: u64

record qdb_queue_stats_t =
  qs_pending_count :: u64
  qs_leased_count :: u64
  qs_acked_count :: u64

definition stats_add :: "qdb__queue \<Rightarrow> qdb_stats_t \<Rightarrow> qdb_stats_t" where
  "stats_add q s = s\<lparr>s_pending_count := s_pending_count s + ucast (q_pending_count q),
     s_leased_count := s_leased_count s + ucast (q_leased_count q),
     s_acked_count := s_acked_count s + ucast (q_acked_count q)\<rparr>"

definition qdb_stats :: "world \<Rightarrow> db option \<Rightarrow> qdb_stats_t option \<Rightarrow> (int \<times> qdb_stats_t option \<times> world) option" where
  "qdb_stats w db out =
     (case (db, out) of
        (Some db, Some _) \<Rightarrow>
          (case db_state db of
             None \<Rightarrow> None
           | Some st \<Rightarrow>
               let s = fold stats_add (queue_nodes st) \<lparr>s_queue_count = queue_count st, s_pending_count = 0,
                         s_leased_count = 0, s_acked_count = 0, s_file_size_bytes = 0\<rparr>;
                   (_, sz, w1) = qdb__file_size w (db_fd db)
               in Some (QDB_OK, Some (s\<lparr>s_file_size_bytes := sz\<rparr>), w1))
      | _ \<Rightarrow> Some (QDB_ERR_INVAL, out, w))"

definition qdb_queue_stats :: "db option \<Rightarrow> bytes option \<Rightarrow> qdb_queue_stats_t option \<Rightarrow> (int \<times> qdb_queue_stats_t option) option" where
  "qdb_queue_stats db queue out =
     (case (db, queue, out) of
        (Some db, Some queue, Some _) \<Rightarrow>
          let qlen = strlen queue in
          if qlen = 0 \<or> qlen > QDB_QUEUE_NAME_MAX then Some (QDB_ERR_INVAL, out)
          else (case db_state db of
              None \<Rightarrow> None
            | Some st \<Rightarrow>
                (case qdb__queue_get st (take qlen queue) of
                   None \<Rightarrow> Some (QDB_ERR_NOENT, out)
                 | Some q \<Rightarrow> Some (QDB_OK, Some \<lparr>qs_pending_count = ucast (q_pending_count q),
                     qs_leased_count = ucast (q_leased_count q), qs_acked_count = ucast (q_acked_count q)\<rparr>)))
      | _ \<Rightarrow> Some (QDB_ERR_INVAL, out))"

text \<open>An entry of the caller's array is its bytes; a name is stored with its terminator.\<close>

fun queue_list_walk :: "qdb__queue list \<Rightarrow> bytes list option \<Rightarrow> nat \<Rightarrow> nat \<Rightarrow> bytes list option \<times> nat" where
  "queue_list_walk [] out cap tot = (out, tot)"
| "queue_list_walk (q # qs) out cap tot =
     (let out1 = (case out of
                    Some names \<Rightarrow>
                      if tot < cap then
                        Some (names[tot := q_name q @ [0] @ drop (length (q_name q) + 1) (names ! tot)])
                      else out
                  | None \<Rightarrow> None)
      in queue_list_walk qs out1 cap (Suc tot))"

definition qdb_queue_list :: "db option \<Rightarrow> bytes list option \<Rightarrow> nat \<Rightarrow> nat option \<Rightarrow> (int \<times> bytes list option \<times> nat option) option" where
  "qdb_queue_list db out cap out_count =
     (case (db, out_count) of
        (Some db, Some _) \<Rightarrow>
          if out = None \<and> cap > 0 then Some (QDB_ERR_INVAL, out, out_count)
          else (case db_state db of
              None \<Rightarrow> None
            | Some st \<Rightarrow>
                let (out1, tot) = queue_list_walk (queue_nodes st) out cap 0
                in Some (QDB_OK, out1, Some tot))
      | _ \<Rightarrow> Some (QDB_ERR_INVAL, out, out_count))"

definition qdb_compact_recommended :: "world \<Rightarrow> db option \<Rightarrow> bool option \<Rightarrow> (int \<times> bool option \<times> world) option" where
  "qdb_compact_recommended w db out_recommended =
     (case (db, out_recommended) of
        (Some db, Some _) \<Rightarrow>
          (case qdb_stats w (Some db) (Some \<lparr>s_queue_count = 0, s_pending_count = 0, s_leased_count = 0,
                  s_acked_count = 0, s_file_size_bytes = 0\<rparr>) of
             None \<Rightarrow> None
           | Some (rc, st, w1) \<Rightarrow>
               if rc \<noteq> QDB_OK then Some (rc, out_recommended, w1)
               else let st = the st
                    in Some (QDB_OK, Some (s_acked_count st > 0 \<and> s_acked_count st > s_pending_count st + s_leased_count st), w1))
      | _ \<Rightarrow> Some (QDB_ERR_INVAL, out_recommended, w))"

definition qdb_errmsg :: "int \<Rightarrow> string" where
  "qdb_errmsg err =
     (if err = QDB_OK then ''success''
      else if err = QDB_ERR_IO then ''I/O error''
      else if err = QDB_ERR_CORRUPT then ''database corrupt or unrecognised format''
      else if err = QDB_ERR_INVAL then ''invalid argument''
      else if err = QDB_ERR_EMPTY then ''queue is empty''
      else if err = QDB_ERR_NOENT then ''message ID not found''
      else if err = QDB_ERR_NOMEM then ''out of memory''
      else if err = QDB_ERR_LOCKED then ''database locked by another process''
      else ''unknown error'')"

text \<open>Every code of the interface has a text of its own.\<close>

lemma qdb_errmsg_distinct:
  "distinct (map qdb_errmsg [QDB_OK, QDB_ERR_IO, QDB_ERR_CORRUPT, QDB_ERR_INVAL, QDB_ERR_EMPTY, QDB_ERR_NOENT,
     QDB_ERR_NOMEM, QDB_ERR_LOCKED, 1])"
  by (simp add: qdb_errmsg_def)

section \<open>The counters\<close>

lemma stats_fold:
  "fold stats_add qs s = s\<lparr>s_pending_count := s_pending_count s + (\<Sum>q \<leftarrow> qs. ucast (q_pending_count q)),
     s_leased_count := s_leased_count s + (\<Sum>q \<leftarrow> qs. ucast (q_leased_count q)),
     s_acked_count := s_acked_count s + (\<Sum>q \<leftarrow> qs. ucast (q_acked_count q))\<rparr>"
  by (induction qs arbitrary: s) (simp_all add: stats_add_def add.assoc)

definition a_status :: "astate \<Rightarrow> (astatus \<Rightarrow> bool) \<Rightarrow> u64 set" where
  "a_status A P = {k. \<exists>am. a_msgs A k = Some am \<and> P (am_status am)}"

lemma a_status_queues:
  assumes "ainv A"
  shows "a_status A P = (\<Union>n \<in> a_queues A. a_with A n P)"
  using ainvD(4) [OF assms] by (auto simp: a_status_def a_with_def)

lemma card_status:
  assumes "ainv A"
  shows "card (a_status A P) = (\<Sum>n \<in> a_queues A. card (a_with A n P))"
  unfolding a_status_queues [OF assms]
  by (rule card_UN_disjoint) (use ainvD(2) [OF assms] a_with_finite [OF assms] in \<open>auto simp: a_with_def\<close>)

lemma queue_names:
  assumes "absR st A"
  shows "q_name ` set (queue_nodes st) = a_queues A" "distinct (map q_name (queue_nodes st))"
proof -
  show d: "distinct (map q_name (queue_nodes st))" by (rule qt.nodes_distinct [OF absRD(6) [OF assms]])
  have "n \<in> q_name ` set (queue_nodes st) \<longleftrightarrow> qdb__queue_get st n \<noteq> None" for n
  proof
    assume "n \<in> q_name ` set (queue_nodes st)"
    then show "qdb__queue_get st n \<noteq> None" using qt.nodes_get [OF absRD(6) [OF assms]] by auto
  next
    assume "qdb__queue_get st n \<noteq> None"
    then obtain q where q: "qdb__queue_get st n = Some q" by auto
    then show "n \<in> q_name ` set (queue_nodes st)"
      using qt.get_key [OF q] qt.nodes_get [OF absRD(6) [OF assms], of q] by (intro image_eqI [of _ _ q]) auto
  qed
  then show "q_name ` set (queue_nodes st) = a_queues A" using absRD(10) [OF assms] by blast
qed

lemma ucast_count: "m < 2 ^ 32 \<Longrightarrow> (ucast (of_nat m :: u32) :: u64) = of_nat m"
  by (simp add: word_unat_eq_iff unat_of_nat_u32 unat_of_nat_u64)

lemma count_sum:
  assumes R: "absR st A" and few: "card (dom (a_msgs A)) < 2 ^ 32"
    and c: "\<And>n q. qdb__queue_get st n = Some q \<Longrightarrow> c q = of_nat (card (a_with A n P))"
  shows "(\<Sum>q \<leftarrow> queue_nodes st. ucast (c q :: u32)) = (of_nat (card (a_status A P)) :: u64)"
proof -
  note inv = absRD(1) [OF R]
  have small: "card (a_with A n P) < 2 ^ 32" for n
  proof -
    have "card (a_with A n P) \<le> card (dom (a_msgs A))"
      using ainvD(1) [OF inv] by (intro card_mono) (auto simp: a_with_def)
    then show ?thesis using few by simp
  qed
  have "(\<Sum>q \<leftarrow> queue_nodes st. ucast (c q)) = (\<Sum>q \<leftarrow> queue_nodes st. of_nat (card (a_with A (q_name q) P)) :: u64)"
  proof (rule arg_cong [of _ _ sum_list], rule map_cong [OF refl])
    fix q assume "q \<in> set (queue_nodes st)"
    then have "qdb__queue_get st (q_name q) = Some q" using qt.nodes_get [OF absRD(6) [OF R]] by blast
    then show "ucast (c q) = (of_nat (card (a_with A (q_name q) P)) :: u64)" using c ucast_count [OF small] by simp
  qed
  also have "\<dots> = (\<Sum>n \<leftarrow> map q_name (queue_nodes st). of_nat (card (a_with A n P)))" by (simp add: comp_def)
  also have "\<dots> = (\<Sum>n \<in> a_queues A. of_nat (card (a_with A n P)))"
    using sum_list_distinct_conv_sum_set [OF queue_names(2) [OF R]] queue_names(1) [OF R] by simp
  finally show ?thesis by (simp add: card_status [OF inv])
qed

lemma pending_card: "ainv A \<Longrightarrow> length (a_pending A n) = card (a_with A n (\<lambda>s. s = APending))"
  using distinct_card [OF ainvD(6)] ainvD(7) by metis

lemma stats_values:
  assumes ok: "db_ok w db i rs st A" and few: "card (dom (a_msgs A)) < 2 ^ 32"
  shows "qdb_stats w (Some db) (Some out) = (case qdb__file_size w (db_fd db) of (_, sz, w1) \<Rightarrow>
    Some (QDB_OK, Some \<lparr>s_queue_count = of_nat (card (a_queues A)),
      s_pending_count = of_nat (card (a_status A (\<lambda>s. s = APending))),
      s_leased_count = of_nat (card (a_status A is_leased)),
      s_acked_count = of_nat (card (a_status A (\<lambda>s. s = AAcked))), s_file_size_bytes = sz\<rparr>, w1))"
proof -
  note D = db_okD [OF ok]
  note R = D(13)
  have rel: "queue_rel st A n q" if "qdb__queue_get st n = Some q" for n q using absRD(11) [OF R that] .
  have "(\<Sum>q \<leftarrow> queue_nodes st. ucast (q_pending_count q)) = (of_nat (card (a_status A (\<lambda>s. s = APending))) :: u64)"
    by (rule count_sum [OF R few]) (use rel pending_card [OF absRD(1) [OF R]] in \<open>auto simp: queue_rel_def list_ok_def\<close>)
  moreover have "(\<Sum>q \<leftarrow> queue_nodes st. ucast (q_leased_count q)) = (of_nat (card (a_status A is_leased)) :: u64)"
    by (rule count_sum [OF R few]) (use rel in \<open>auto simp: queue_rel_def\<close>)
  moreover have "(\<Sum>q \<leftarrow> queue_nodes st. ucast (q_acked_count q)) = (of_nat (card (a_status A (\<lambda>s. s = AAcked))) :: u64)"
    by (rule count_sum [OF R few]) (use rel in \<open>auto simp: queue_rel_def\<close>)
  moreover have "queue_count st = of_nat (card (a_queues A))" using absRD(3) [OF R] by (simp add: queues_rel_def)
  ultimately show ?thesis using D(12) by (simp add: qdb_stats_def stats_fold Let_def split: prod.split)
qed


lemma status_partition:
  assumes "ainv A"
  shows "card (a_status A (\<lambda>s. s = APending)) + card (a_status A is_leased) + card (a_status A (\<lambda>s. s = AAcked))
    = card (dom (a_msgs A))"
proof -
  have fin: "finite (a_status A P)" for P
    by (rule finite_subset [OF _ ainvD(1) [OF assms]]) (auto simp: a_status_def)
  have "s = APending \<or> is_leased s \<or> s = AAcked" for s by (cases s) auto
  then have "dom (a_msgs A) = a_status A (\<lambda>s. s = APending) \<union> a_status A is_leased \<union> a_status A (\<lambda>s. s = AAcked)"
    by (auto simp: a_status_def)
  moreover have "a_status A (\<lambda>s. s = APending) \<inter> a_status A is_leased = {}"
    "a_status A (\<lambda>s. s = APending) \<inter> a_status A (\<lambda>s. s = AAcked) = {}"
    "a_status A is_leased \<inter> a_status A (\<lambda>s. s = AAcked) = {}"
    by (auto simp: a_status_def)
  ultimately show ?thesis by (simp add: card_Un_disjoint fin Int_Un_distrib2)
qed

text \<open>
  Theorem C26.  On a well-formed database with fewer than \<open>2\<^sup>32\<close> messages, \<open>qdb_stats\<close> reports exactly
  the number of queues and of pending, leased and acknowledged messages; the last three add up to
  the number of messages, and in a calm run the size reported is that of the file.
\<close>

theorem stats_exact:
  assumes "db_ok w db i rs st A" and "card (dom (a_msgs A)) < 2 ^ 32" and "calm w"
  shows "\<exists>out' w'. qdb_stats w (Some db) (Some out) = Some (QDB_OK, Some out', w') \<and> same_fs w w' \<and>
    s_queue_count out' = of_nat (card (a_queues A)) \<and>
    unat (s_pending_count out') = card (a_status A (\<lambda>s. s = APending)) \<and>
    unat (s_leased_count out') = card (a_status A is_leased) \<and>
    unat (s_acked_count out') = card (a_status A (\<lambda>s. s = AAcked)) \<and>
    unat (s_pending_count out') + unat (s_leased_count out') + unat (s_acked_count out') = card (dom (a_msgs A)) \<and>
    unat (s_file_size_bytes out') = length (ino_data (w_ino w i))"
proof -
  note D = db_okD [OF assms(1)]
  obtain rc sz w1 where f: "qdb__file_size w (db_fd db) = (rc, sz, w1)" by (metis prod_cases3)
  note F = qdb__file_size_spec [OF f D(1)]
  note P = status_partition [OF absRD(1) [OF D(13)]]
  have small: "unat (of_nat (card (a_status A Q)) :: u64) = card (a_status A Q)"
    if "card (a_status A Q) \<le> card (dom (a_msgs A))" for Q
    using that assms(2) by (simp add: unat_of_nat_u64)
  have "unat sz = length (ino_data (w_ino w i))" using F assms(3) D(2) by (simp add: unat_of_nat_u64)
  then show ?thesis using P small F by (simp add: stats_values [OF assms(1,2)] f)
qed

theorem stats_exact_witness:
  "\<exists>out w'. qdb_stats one_world (Some one_db) (Some (undefined::qdb_stats_t)) = Some (QDB_OK, Some out, w') \<and>
    unat (s_pending_count out) + unat (s_leased_count out) + unat (s_acked_count out) = 1"
proof (rule one_db_ok)
  fix st assume ok: "db_ok one_world one_db 0 [(QDB_RT_MSG_PUSH, push_buf 1 [106] [1, 2])] st one_spec"
    and c: "calm one_world"
  have d: "dom (a_msgs one_spec) = {1}" by (auto split: if_splits)
  show ?thesis using stats_exact [OF ok _ c] unfolding d by fastforce
qed

lemma recommended_values:
  assumes "db_ok w db i rs st A" and "card (dom (a_msgs A)) < 2 ^ 32"
  shows "\<exists>w'. qdb_compact_recommended w (Some db) (Some b) = Some (QDB_OK,
      Some (2 * card (a_status A (\<lambda>s. s = AAcked)) > card (dom (a_msgs A))), w') \<and> same_fs w w'"
proof -
  note D = db_okD [OF assms(1)]
  let ?p = "card (a_status A (\<lambda>s. s = APending))" and ?l = "card (a_status A is_leased)" and ?a = "card (a_status A (\<lambda>s. s = AAcked))"
  obtain rc sz w1 where f: "qdb__file_size w (db_fd db) = (rc, sz, w1)" by (metis prod_cases3)
  note F = qdb__file_size_spec [OF f D(1)]
  note P = status_partition [OF absRD(1) [OF D(13)]]
  have "?a < 2 ^ 64" "?p + ?l < 2 ^ 64" using P assms(2) by simp_all
  note n = this [THEN unat_of_nat_u64]
  have "(of_nat ?a :: u64) > of_nat ?p + of_nat ?l \<longleftrightarrow> ?a > ?p + ?l"
    using n unfolding word_less_nat_alt of_nat_add [symmetric] by simp
  moreover have "(of_nat ?a :: u64) > 0 \<longleftrightarrow> ?a > 0" using n(1) by (simp add: word_less_nat_alt)
  ultimately show ?thesis
    using P F by (auto simp: qdb_compact_recommended_def stats_values [OF assms] f)
qed

text \<open>
  Theorem C28.  The compaction hint is given exactly when the acknowledged messages, whose records are
  dead weight in the log, outnumber the live ones; asking for it changes nothing.
\<close>

theorem compact_recommended_iff:
  assumes "db_ok w db i rs st A" and "card (dom (a_msgs A)) < 2 ^ 32"
  shows "\<exists>w'. qdb_compact_recommended w (Some db) (Some b) = Some (QDB_OK,
      Some (2 * card (a_status A (\<lambda>s. s = AAcked)) > card (dom (a_msgs A))), w') \<and> same_fs w w'"
  by (rule recommended_values [OF assms])

theorem compact_recommended_iff_witness:
  "\<exists>w'. qdb_compact_recommended one_world (Some one_db) (Some True) = Some (QDB_OK, Some False, w')"
proof (rule one_db_ok)
  fix st assume ok: "db_ok one_world one_db 0 [(QDB_RT_MSG_PUSH, push_buf 1 [106] [1, 2])] st one_spec"
  have d: "dom (a_msgs one_spec) = {1}" and a: "a_status one_spec (\<lambda>s. s = AAcked) = {}"
    by (auto simp: a_status_def split: if_splits)
  show ?thesis using compact_recommended_iff [OF ok, of True] unfolding d a by auto
qed

section \<open>The list of queues\<close>

text \<open>What the walk leaves in the caller's array: entry \<open>j\<close> holds the name and its terminator.\<close>

definition entry :: "bytes \<Rightarrow> bytes \<Rightarrow> bytes" where
  "entry n old = n @ [0] @ drop (length n + 1) old"

lemma queue_list_walk_none: "queue_list_walk qs None cap tot = (None, tot + length qs)"
  by (induction qs arbitrary: tot) auto

lemma queue_list_walk_some:
  assumes "cap \<le> length names"
  shows "\<exists>names'. queue_list_walk qs (Some names) cap tot = (Some names', tot + length qs) \<and>
    length names' = length names \<and>
    (\<forall>j < length names. names' ! j =
       (if tot \<le> j \<and> j < tot + length qs \<and> j < cap then entry (q_name (qs ! (j - tot))) (names ! j) else names ! j))"
  using assms
proof (induction qs arbitrary: names tot)
  case (Cons q qs)
  define ns where "ns = (if tot < cap then names[tot := entry (q_name q) (names ! tot)] else names)"
  have l: "cap \<le> length ns" "length ns = length names" using Cons.prems by (simp_all add: ns_def)
  from Cons.IH [OF l(1), of "Suc tot"] obtain names' where
    n: "queue_list_walk qs (Some ns) cap (Suc tot) = (Some names', Suc tot + length qs)" "length names' = length names"
    "\<forall>j < length names. names' ! j = (if Suc tot \<le> j \<and> j < Suc tot + length qs \<and> j < cap
        then entry (q_name (qs ! (j - Suc tot))) (ns ! j) else ns ! j)"
    unfolding l(2) by blast
  have "queue_list_walk (q # qs) (Some names) cap tot = (Some names', tot + length (q # qs))"
    using n(1) by (auto simp: entry_def ns_def split: if_splits)
  moreover have "names' ! j = (if tot \<le> j \<and> j < tot + length (q # qs) \<and> j < cap
      then entry (q_name ((q # qs) ! (j - tot))) (names ! j) else names ! j)" if j: "j < length names" for j
  proof (cases "j = tot")
    case True then show ?thesis using n(3) j by (simp add: ns_def)
  next
    case False
    then have "ns ! j = names ! j" by (simp add: ns_def)
    then show ?thesis using n(3) j False by (auto simp: nth_Cons')
  qed
  ultimately show ?case using n(2) by blast
qed (use not_less in auto)

lemma queue_nodes_card:
  assumes "absR st A"
  shows "length (queue_nodes st) = card (a_queues A)"
  using queue_names [OF assms] distinct_card by fastforce

text \<open>
  Theorem C27.  \<open>qdb_queue_list\<close> with an array of at least \<open>cap\<close> entries reports the number of queues,
  writes the distinct names of \<open>min cap\<close> of them, each terminated and within its 256 bytes, and
  leaves every later entry as it was; when the capacity is enough, every queue is listed.
\<close>

theorem queue_list_bounds:
  assumes "db_ok w db i rs st A" and "cap \<le> length names" and "list_all (\<lambda>e. length e = 256) names"
  shows "\<exists>names' ns. qdb_queue_list (Some db) (Some names) cap (Some x) = Some (QDB_OK, Some names', Some (card (a_queues A))) \<and>
    length names' = length names \<and> list_all (\<lambda>e. length e = 256) names' \<and>
    length ns = min cap (card (a_queues A)) \<and> distinct ns \<and> set ns \<subseteq> a_queues A \<and>
    (card (a_queues A) \<le> cap \<longrightarrow> set ns = a_queues A) \<and>
    (\<forall>j < length names. names' ! j = (if j < length ns then entry (ns ! j) (names ! j) else names ! j))"
proof -
  note D = db_okD [OF assms(1)]
  note Q = queue_names [OF D(13)]
  note N = queue_nodes_card [OF D(13)]
  from queue_list_walk_some [OF assms(2), of "queue_nodes st" 0] obtain names' where
    n: "queue_list_walk (queue_nodes st) (Some names) cap 0 = (Some names', length (queue_nodes st))"
    "length names' = length names"
    "\<And>j. j < length names \<Longrightarrow> names' ! j = (if j < length (queue_nodes st) \<and> j < cap
        then entry (q_name (queue_nodes st ! j)) (names ! j) else names ! j)"
    by auto
  define ns where "ns = take cap (map q_name (queue_nodes st))"
  have len: "length ns = min cap (card (a_queues A))" by (simp add: ns_def N min.commute)
  have sub: "set ns \<subseteq> a_queues A" using set_take_subset [of cap "map q_name (queue_nodes st)"] Q(1) by (simp add: ns_def)
  have nth: "names' ! j = (if j < length ns then entry (ns ! j) (names ! j) else names ! j)" if "j < length names" for j
    using n(3) [OF that] by (auto simp: ns_def)
  have nm: "length (ns ! j) \<le> 255" if "j < length ns" for j
    using ainvD(5) [OF absRD(1) [OF D(13)], of "ns ! j"] sub nth_mem [OF that] by (auto simp: name_ok_def)
  have "list_all (\<lambda>e. length e = 256) names'"
    using assms(3) nm by (auto simp: list_all_length n(2) nth entry_def)
  moreover have "set ns = a_queues A" if "card (a_queues A) \<le> cap" using that Q(1) by (simp add: ns_def N)
  moreover have "distinct ns" using Q(2) by (simp add: ns_def distinct_take)
  ultimately show ?thesis
    using D(12) n(1,2) len sub nth N by (intro exI [of _ names'] exI [of _ ns]) (simp add: qdb_queue_list_def)
qed

theorem queue_list_bounds_witness:
  "\<exists>names'. qdb_queue_list (Some one_db) (Some [replicate 256 0, replicate 256 7]) 2 (Some 0)
    = Some (QDB_OK, Some names', Some 1) \<and> names' ! 0 = 106 # replicate 255 0 \<and> names' ! 1 = replicate 256 7"
proof (rule one_db_ok)
  fix st assume ok: "db_ok one_world one_db 0 [(QDB_RT_MSG_PUSH, push_buf 1 [106] [1, 2])] st one_spec"
  have q: "a_queues one_spec = {[106]}" by (simp add: one_spec_def a_push_def a_empty_def)
  have e: "entry [106] (replicate 256 0) = 106 # replicate 255 0"
    by (simp add: entry_def replicate_app_Cons_same drop_replicate numeral_eq_Suc)
  from queue_list_bounds [OF ok, of 2 "[replicate 256 0, replicate 256 7]" 0] obtain names' ns where
    n: "qdb_queue_list (Some one_db) (Some [replicate 256 0, replicate 256 7]) 2 (Some 0) = Some (QDB_OK, Some names', Some 1)"
    "length ns = 1" "set ns = {[106]}"
    "\<forall>j < 2. names' ! j = (if j < length ns then entry (ns ! j) ([replicate 256 0, replicate 256 7] ! j) else [replicate 256 0, replicate 256 7] ! j)"
    by (auto simp: q)
  then have "ns = [[106]]" by (cases ns) auto
  then have "names' ! 0 = 106 # replicate 255 0" "names' ! 1 = replicate 256 7" using n(4) e by auto
  then show ?thesis using n(1) by blast
qed

end
