(* ===== verification/CompactProps.thy ===== *)
theory CompactProps
  imports Compact RecoveryProps Stats
begin

text \<open>
  What compaction keeps.  The staging file is a log of its own: the invariant \<open>staged\<close> follows its
  records while they are appended, \<open>copied\<close> says how far the specification state it describes has
  caught up with that of the database.  Shown: without failures the database open afterwards has the
  same pending sequences, leases, data and counters, without the acknowledged messages and with all
  retry counts reset; whatever fails, the path names the old file or the complete new one, and the
  call returns.
\<close>

section \<open>Copies of the specification state\<close>

definition live :: "astate \<Rightarrow> u64 set" where
  "live A = {k. \<exists>am. a_msgs A k = Some am \<and> am_status am \<noteq> AAcked}"

definition copy_of :: "amsg \<Rightarrow> amsg \<Rightarrow> bool" where
  "copy_of am am' \<longleftrightarrow> am_queue am' = am_queue am \<and> am_len am' = am_len am \<and> am_status am' = am_status am \<and> am_retry am' = 0"

definition copied :: "astate \<Rightarrow> u64 set \<Rightarrow> astate \<Rightarrow> bool" where
  "copied A K B \<longleftrightarrow> dom (a_msgs B) = K \<and> (\<forall>k \<in> K. \<exists>am am'. a_msgs A k = Some am \<and> a_msgs B k = Some am' \<and> copy_of am am') \<and>
     (\<forall>n. a_pending B n = filter (\<lambda>k. k \<in> K) (a_pending A n))"

lemma copied_empty: "copied A {} a_empty"
  by (simp add: copied_def a_empty_def)

lemma copied_push:
  assumes c: "copied A K B" and inv: "ainv A" and am: "a_msgs A k = Some am" "am_status am = APending" and k: "k \<notin> K"
    and p: "a_pending A (am_queue am) = pre @ k # suf" "set suf \<inter> K = {}"
  shows "copied A (insert k K) (a_push k (am_queue am) off (am_len am) B)"
proof -
  have d: "distinct (pre @ k # suf)" using ainvD(6) [OF inv, of "am_queue am"] p(1) by simp
  have "filter (\<lambda>x. x \<in> K) suf = []" "filter (\<lambda>x. x \<in> insert k K) suf = []"
    using p(2) d by (auto simp: filter_empty_conv)
  moreover have "filter (\<lambda>x. x \<in> insert k K) pre = filter (\<lambda>x. x \<in> K) pre" using d by (intro filter_cong) auto
  ultimately have n: "filter (\<lambda>x. x \<in> insert k K) (a_pending A (am_queue am)) = filter (\<lambda>x. x \<in> K) (a_pending A (am_queue am)) @ [k]"
    using k by (simp add: p(1))
  have "filter (\<lambda>x. x \<in> insert k K) (a_pending A n) = filter (\<lambda>x. x \<in> K) (a_pending A n)" if "n \<noteq> am_queue am" for n
  proof (rule filter_cong)
    fix x assume "x \<in> set (a_pending A n)"
    then have "x \<noteq> k" using ainvD(7) [OF inv, of n] am(1) that by (auto simp: a_with_def)
    then show "(x \<in> insert k K) = (x \<in> K)" by simp
  qed simp
  then show ?thesis
    using c am n k unfolding copied_def by (auto simp: a_push_def copy_of_def)
qed

lemma copied_lease:
  assumes c: "copied A K B" and inv: "ainv A" and am: "a_msgs A k = Some am" "am_status am = ALeased lid e" and k: "k \<notin> K"
  shows "copied A (insert k K) (a_lease k lid e (a_push k (am_queue am) off (am_len am) B))"
proof -
  have np: "k \<notin> set (a_pending A n)" for n using ainvD(7) [OF inv, of n] am by (auto simp: a_with_def)
  then have f: "filter (\<lambda>x. x \<in> insert k K) (a_pending A n) = filter (\<lambda>x. x \<in> K) (a_pending A n)" for n
    by (intro filter_cong) auto
  have "remove1 k (a_pending B (am_queue am) @ [k]) = a_pending B (am_queue am)"
    using c np by (simp add: copied_def remove1_append)
  then show ?thesis
    using c am k f unfolding copied_def by (auto simp: a_push_def a_lease_def copy_of_def)
qed

section \<open>The staging file\<close>

lemma log_is_rec_ok: "log_is d a b rs \<Longrightarrow> r \<in> set rs \<Longrightarrow> rec_ok r"
  by (induction rs arbitrary: a) auto

definition staged :: "world \<Rightarrow> world \<Rightarrow> int \<Rightarrow> nat \<Rightarrow> db \<Rightarrow> u64 \<Rightarrow> (u8 \<times> bytes) list \<Rightarrow> u64 \<Rightarrow> qdb__state \<Rightarrow> astate \<Rightarrow> bool" where
  "staged w0 w fd j cm e rs nl st B \<longleftrightarrow> only_file w0 w j \<and> w_fds w fd = Some j \<and>
     length (ino_data (w_ino w j)) < 2 ^ 63 \<and> has_header (ino_data (w_ino w j)) cm \<and>
     log_is (ino_data (w_ino w j)) 4096 (unat e) rs \<and> fresh rs (db_next_msg_id cm) \<and>
     rec_fold 4096 rs (db_next_msg_id cm, 1, empty_state) = Inr (db_next_msg_id cm, nl, st) \<and> absR st B"

lemma stagedD:
  assumes "staged w0 w fd j cm e rs nl st B"
  shows "only_file w0 w j" "w_fds w fd = Some j" "length (ino_data (w_ino w j)) < 2 ^ 63"
    "has_header (ino_data (w_ino w j)) cm" "log_is (ino_data (w_ino w j)) 4096 (unat e) rs" "fresh rs (db_next_msg_id cm)"
    "rec_fold 4096 rs (db_next_msg_id cm, 1, empty_state) = Inr (db_next_msg_id cm, nl, st)" "absR st B"
    "4096 \<le> unat e" "unat e \<le> length (ino_data (w_ino w j))"
  using assms log_is_bounds unfolding staged_def by blast+

lemma staged_same:
  assumes "staged w0 w fd j cm e rs nl st B" and "same_fs w w'"
  shows "staged w0 w' fd j cm e rs nl st B"
  using assms(1) only_file_trans [OF stagedD(1) [OF assms(1)] same_fs_only_file [OF assms(2)]]
  by (simp add: staged_def same_fs_simps [OF assms(2)])

text \<open>
  What a step of the compaction does that started in \<open>w\<close>: it touches no file but the staging file,
  it succeeds when nothing fails, and when it succeeds \<open>Q\<close> holds.
\<close>

definition outcome :: "world \<Rightarrow> world \<Rightarrow> nat \<Rightarrow> int \<Rightarrow> world \<Rightarrow> bool \<Rightarrow> bool" where
  "outcome w0 w j rc w' Q \<longleftrightarrow> only_file w0 w' j \<and> (calm w \<longrightarrow> rc = QDB_OK \<and> calm w') \<and> (rc = QDB_OK \<longrightarrow> Q)"

lemma outcomeD:
  assumes "outcome w0 w j rc w' Q"
  shows "only_file w0 w' j" "calm w \<Longrightarrow> rc = QDB_OK" "calm w \<Longrightarrow> calm w'" "rc = QDB_OK \<Longrightarrow> Q"
  using assms by (auto simp: outcome_def)

lemma outcome_fail:
  "only_file w0 w' j \<Longrightarrow> rc \<noteq> QDB_OK \<Longrightarrow> \<not> calm w \<Longrightarrow> outcome w0 w j rc w' Q"
  by (simp add: outcome_def)

lemma outcome_step:
  assumes "outcome w0 w j QDB_OK w1 P" and "outcome w0 w1 j rc w2 Q"
  shows "outcome w0 w j rc w2 Q"
  using assms by (simp add: outcome_def)

lemma outcome_stop:
  assumes "outcome w0 w j rc w1 P" and "rc \<noteq> QDB_OK"
  shows "outcome w0 w j rc w1 Q"
  using assms by (simp add: outcome_def)

lemma outcome_seq:
  assumes "outcome w0 w j r1 w1 P" and "r1 = QDB_OK \<Longrightarrow> P \<Longrightarrow> outcome w0 w1 j r2 w2 Q"
    and "(rc, w') = (if r1 \<noteq> QDB_OK then (r1, w1) else (r2, w2))"
  shows "outcome w0 w j rc w' Q"
  using assms by (auto simp: outcome_def split: if_splits)

lemma staged_append:
  assumes S: "staged w0 w fd j cm e rs nl st B"
    and ap: "qdb__append_record w fd t p plen e = (rc, e', w')" and p: "length p = unat plen" "rec_ok (t, p)"
    and room: "unat e + 10 + length p < 2 ^ 63"
    and app: "rec_apply (e + 9) t p (db_next_msg_id cm, nl, st) = Inr (db_next_msg_id cm, nl', st')"
    and fr: "fresh [(t, p)] (db_next_msg_id cm)"
  shows "outcome w0 w j rc w' (staged w0 w' fd j cm e' (rs @ [(t, p)]) nl' st' (a_rec (e + 9) t p B) \<and> unat e' = unat e + 10 + length p)"
proof -
  note D = stagedD [OF S]
  let ?d = "ino_data (w_ino w j)" and ?d' = "ino_data (w_ino w' j)" and ?e = "unat e"
  note sp = append_record_spec [OF ap D(2) p(1) room D(10)]
  have tw: "tail_write w w' j ?e" using sp by blast
  have of: "only_file w0 w' j" using only_file_trans [OF D(1) tail_write_only [OF tw]] .
  have ok: "staged w0 w' fd j cm e' (rs @ [(t, p)]) nl' st' (a_rec (e + 9) t p B) \<and> unat e' = unat e + 10 + length p" if rc: "rc = QDB_OK"
  proof -
    have d': "?d' = splice ?d ?e (enc_rec t p)" and e': "unat e' = ?e + 10 + length p" using sp rc by blast+
    have len: "?e + 10 + length p \<le> length ?d'" "length ?d' < 2 ^ 63" using D(3) room by (simp_all add: d')
    have tk: "take ?e ?d' = take ?e ?d" using D(10) by (simp add: d' take_splice)
    have "log_is ?d' 4096 ?e rs" using log_is_cong [OF tk D(10) _ D(5)] len by simp
    moreover have "slice ?d' ?e (10 + length p) = enc_rec t p" unfolding d' using D(10) by (intro slice_splice_same) auto
    ultimately have L: "log_is ?d' 4096 (unat e') (rs @ [(t, p)])"
      using log_is_snoc [of ?d' 4096 ?e rs "(t, p)"] p(2) len by (simp add: enc_def e')
    have h: "has_header ?d' cm" using take_has_header [OF tk, of cm] D(4,9) by simp
    have "4096 + of_nat (log_len rs) = e" using arg_cong [OF log_is_len [OF D(5)], of "of_nat :: nat \<Rightarrow> u64"] by simp
    then have "rec_fold 4096 (rs @ [(t, p)]) (db_next_msg_id cm, 1, empty_state) = Inr (db_next_msg_id cm, nl', st')"
      using app D(7) by (simp add: rec_fold_append)
    then show ?thesis
      using of L h len tail_write_fds [OF tw] D(2,6) fr rec_apply_absR [OF D(8) app] e'
      unfolding staged_def by (simp add: fresh_def)
  qed
  show ?thesis using of ok sp tail_write_calm [OF tw] unfolding outcome_def by blast
qed

section \<open>Copying a message\<close>

text \<open>The source database in the world \<open>w0\<close> of the start, beside the staging file.\<close>

definition source :: "world \<Rightarrow> db \<Rightarrow> nat \<Rightarrow> (u8 \<times> bytes) list \<Rightarrow> qdb__state \<Rightarrow> astate \<Rightarrow> nat \<Rightarrow> db \<Rightarrow> bool" where
  "source w0 db i rs st A j cm \<longleftrightarrow> db_ok w0 db i rs st A \<and> i \<noteq> j \<and> db_next_msg_id cm = db_next_msg_id db"

text \<open>The allocation of the buffer and the read of the data, as \<open>compact_write_push\<close> composes them.\<close>

lemma copy_read:
  assumes at: "at_file w fd (m_data_file_offset m) d" and len: "length d = unat (m_data_len m)"
    and 1: "heap_alloc w = (ok1, w1)"
    and 2: "(if m_data_len m > 0 then qdb__read_full w1 fd (unat (m_data_len m)) (m_data_file_offset m) else (QDB_OK, [], w1)) = (r2, b, w2)"
  shows "same_fs w w1" "same_fs w w2" "calm w \<Longrightarrow> ok1 \<and> r2 = QDB_OK" "r2 = QDB_OK \<Longrightarrow> b = d"
proof -
  have s1: "same_fs w w1" "calm w \<Longrightarrow> ok1 \<and> calm w1" using heap_alloc_same [OF 1] heap_alloc_calm [OF 1] calm_same_fs by auto
  have at1: "at_file w1 fd (m_data_file_offset m) d" using at by (simp add: at_file_same [OF s1(1)])
  have "same_fs w1 w2 \<and> (r2 = QDB_OK \<longrightarrow> b = d) \<and> (calm w1 \<longrightarrow> r2 = QDB_OK)"
  proof (cases "m_data_len m > 0")
    case True
    then have rd: "qdb__read_full w1 fd (unat (m_data_len m)) (m_data_file_offset m) = (r2, b, w2)" using 2 by simp
    have "unat (m_data_len m) \<le> length d" by (simp add: len)
    note rf = payload_read0 [OF rd at1 this]
    have "take (unat (m_data_len m)) d = d" by (simp add: len [symmetric])
    then show ?thesis using rf by auto
  next
    case False
    then have "d = []" using len by (simp add: word_less_nat_alt)
    then show ?thesis using False 2 by simp
  qed
  then show "same_fs w w1" "same_fs w w2" "calm w \<Longrightarrow> ok1 \<and> r2 = QDB_OK" "r2 = QDB_OK \<Longrightarrow> b = d"
    using s1 same_fs_trans by blast+
qed

lemma write_push_ok:
  assumes src: "source w0 db i rs st A j cm" and S: "staged w0 w fd j cm e rs' nl st' B"
    and m: "qdb__msg_get st k = Some m" and k: "a_msgs B k = None" and room: "unat e + 300 + unat (m_data_len m) < 2 ^ 63"
    and wp: "compact_write_push w (db_fd db) fd m e = (rc, e', w')"
  shows "outcome w0 w j rc w' (\<exists>d off st''. pushed rs k (m_queue_name m) d \<and>
    staged w0 w' fd j cm e' (rs' @ [(QDB_RT_MSG_PUSH, push_buf k (m_queue_name m) d)]) nl st''
       (a_push k (m_queue_name m) off (m_data_len m) B) \<and>
    unat e' \<le> unat e + 300 + unat (m_data_len m))"
proof -
  have ok: "db_ok w0 db i rs st A" and ij: "i \<noteq> j" and nm: "db_next_msg_id cm = db_next_msg_id db"
    using src by (auto simp: source_def)
  note D = db_okD [OF ok]
  note SD = stagedD [OF S]
  note M = absR_msg [OF D(13) m]
  let ?n = "m_queue_name m"
  obtain d where d: "pushed rs k ?n d" "length d = unat (m_data_len m)" "at_file w0 (db_fd db) (m_data_file_offset m) d"
    by (rule db_ok_stored [OF ok m])
  have nl: "0 < length ?n" "length ?n \<le> 255" using M(6) by (auto simp: name_ok_def)
  have r: "rec_ok (QDB_RT_MSG_PUSH, push_buf k ?n d)" using log_is_rec_ok [OF D(5)] d(1) by (simp add: pushed_def)
  then have small: "9 + length ?n + length d \<le> 67109376" by (simp add: rec_ok_def)
  let ?pl = "of_nat 9 + of_nat (length ?n) + m_data_len m :: u32"
  have pl: "unat ?pl = 9 + length ?n + length d"
  proof -
    have "?pl = of_nat (9 + length ?n + length d)" by (simp add: d(2))
    moreover have "unat (of_nat (9 + length ?n + length d) :: u32) = 9 + length ?n + length d"
      using small by (intro unat_of_nat_u32) simp
    ultimately show ?thesis by (simp only:)
  qed
  have "fdata w (db_fd db) = fdata w0 (db_fd db)" "w_fds w = w_fds w0"
    using only_file_simps(2,7) [OF SD(1)] ij D(1) by (simp_all add: fdata_def)
  then have at: "at_file w (db_fd db) (m_data_file_offset m) d" using d(3) by (simp add: at_file_def)
  obtain ok1 w1 where 1: "heap_alloc w = (ok1, w1)" by fastforce
  obtain r2 b w2 where 2: "(if m_data_len m > 0 then qdb__read_full w1 (db_fd db) (unat (m_data_len m)) (m_data_file_offset m)
      else (QDB_OK, [], w1)) = (r2, b, w2)" by (metis prod_cases3)
  note s = copy_read [OF at d(2) 1 2]
  have of1: "only_file w0 w1 j" "only_file w0 w2 j"
    using only_file_trans [OF SD(1)] same_fs_only_file [OF s(1)] same_fs_only_file [OF s(2)] by blast+
  have S2: "staged w0 w2 fd j cm e rs' nl st' B" by (rule staged_same [OF S s(2)])
  obtain rc3 e3 w3 where 3: "qdb__append_record w2 fd QDB_RT_MSG_PUSH (push_buf k ?n d) ?pl e = (rc3, e3, w3)" by (metis prod_cases3)
  have eq: "(rc, e', w') = (if \<not> ok1 then (QDB_ERR_NOMEM, e, w1) else if r2 \<noteq> QDB_OK then (r2, e, w2) else (rc3, e3, w3))"
    using wp 3 s(4) unfolding compact_write_push_def Let_def 1 prod.case 2 push_buf_def by (auto simp: M(2) split: if_splits)
  have lp: "length (push_buf k ?n d) = unat ?pl" by (simp only: pl length_push_buf)
  have kb: "k < db_next_msg_id cm" using db_ok_below [OF ok, of k] m nm by simp
  have "qdb__msg_get st' k = None" using k absRD(8) [OF SD(8), of k] by simp
  then have app: "rec_apply (e + 9) QDB_RT_MSG_PUSH (push_buf k ?n d) (db_next_msg_id cm, nl, st') = Inr (db_next_msg_id cm, nl,
      st_push st' k (e + 9 + 9 + of_nat (length ?n)) (of_nat (length d)) ?n)"
    using rec_push_buf [OF M(6,3)] linorder_not_le [THEN iffD2, OF kb] by simp
  have fr: "fresh [(QDB_RT_MSG_PUSH, push_buf k ?n d)] (db_next_msg_id cm)" using kb push_buf_fields(1) [OF M(6)] by (simp add: fresh_def)
  have rm: "unat e + 10 + length (push_buf k ?n d) < 2 ^ 63" using room nl d(2) by simp
  note A = staged_append [OF S2 3 lp r rm app fr]
  show ?thesis (is "outcome _ _ _ _ _ ?Q")
  proof (cases "ok1 \<and> r2 = QDB_OK")
    case True
    then have e: "rc = rc3" "e' = e3" "w' = w3" using eq by auto
    have ?Q if "rc3 = QDB_OK"
      using outcomeD(4) [OF A that] d(1) a_rec_push [OF M(6), of "e + 9" k d B] nl d(2) unfolding e by auto
    then show ?thesis using outcomeD(1-3) [OF A] calm_same_fs [OF s(2)] unfolding outcome_def e by blast
  next
    case False
    then have "rc \<noteq> QDB_OK" "w' = w1 \<or> w' = w2" using eq by (auto split: if_splits)
    then show ?thesis using False s(3) of1 by (intro outcome_fail) auto
  qed
qed

section \<open>Progress\<close>

text \<open>
  The keys \<open>K\<close> have been copied: the bytes used so far, at most the cost of every message, and the
  state of the staging file.  Every push record of the staging file is one of the database.
\<close>

definition cost :: "astate \<Rightarrow> u64 \<Rightarrow> nat" where
  "cost A k = 334 + unat (am_len (the (a_msgs A k)))"

definition fits :: "astate \<Rightarrow> bool" where
  "fits A \<longleftrightarrow> 8192 + sum (cost A) (dom (a_msgs A)) < 2 ^ 63"

definition only_pushes :: "(u8 \<times> bytes) list \<Rightarrow> (u8 \<times> bytes) list \<Rightarrow> bool" where
  "only_pushes rs' rs \<longleftrightarrow> (\<forall>r \<in> set rs'. fst r = QDB_RT_MSG_PUSH \<longrightarrow> r \<in> set rs)"

definition progress :: "world \<Rightarrow> int \<Rightarrow> nat \<Rightarrow> db \<Rightarrow> astate \<Rightarrow> (u8 \<times> bytes) list \<Rightarrow> u64 \<Rightarrow> u64 set \<Rightarrow> u64 \<Rightarrow> world \<Rightarrow> bool" where
  "progress w0 fd j cm A rs N K e w \<longleftrightarrow> unat e \<le> 4096 + sum (cost A) K \<and>
     (\<exists>rs' nl st' B. staged w0 w fd j cm e rs' nl st' B \<and> copied A K B \<and> nl \<le> N \<and> only_pushes rs' rs)"

lemma copied_sub: "copied A K B \<Longrightarrow> K \<subseteq> dom (a_msgs A)"
  unfolding copied_def by blast

lemma cost_insert:
  assumes "ainv A" and "fits A" and "K \<subseteq> dom (a_msgs A)" and "k \<in> dom (a_msgs A)" and "k \<notin> K"
  shows "sum (cost A) (insert k K) = cost A k + sum (cost A) K" "8192 + (cost A k + sum (cost A) K) < 2 ^ 63"
proof -
  note fin = ainvD(1) [OF assms(1)]
  show eq: "sum (cost A) (insert k K) = cost A k + sum (cost A) K"
    using assms(5) finite_subset [OF assms(3) fin] by simp
  have "sum (cost A) (insert k K) \<le> sum (cost A) (dom (a_msgs A))"
    using assms(3,4) by (intro sum_mono2 [OF fin]) auto
  then show "8192 + (cost A k + sum (cost A) K) < 2 ^ 63" using assms(2) eq by (simp add: fits_def)
qed

lemma pending_msg:
  assumes "absR st A" and "a_msgs A k = Some am" and "am_status am = APending"
  obtains m where "qdb__msg_get st k = Some m" "m_state m = QDB_MSG_STATE_PENDING"
proof -
  obtain m where m: "qdb__msg_get st k = Some m" "am = amsg_of m" using assms(2) by (auto simp: absRD(8) [OF assms(1)])
  then show thesis using that absRD(9) [OF assms(1) m(1)] assms(3) astatus_of_iff(1) [of m] by (simp add: msg_tidy_def)
qed

lemma progress_pending:
  assumes src: "source w0 db i rs st A j cm" and P: "progress w0 fd j cm A rs N K e w" and fits: "fits A"
    and pend: "a_pending A n = pre @ k # suf" "set suf \<inter> K = {}" "k \<notin> K"
  obtains m rc e' w' where "qdb__msg_get st k = Some m" "compact_write_push w (db_fd db) fd m e = (rc, e', w')"
    "outcome w0 w j rc w' (progress w0 fd j cm A rs N (insert k K) e' w')"
proof -
  have R: "absR st A" using src db_okD(13) unfolding source_def by blast
  note inv = absRD(1) [OF R]
  obtain am where am: "a_msgs A k = Some am" "am_queue am = n" "am_status am = APending"
    using pending_queue [OF inv, of k n] pend(1) by auto
  obtain m where m: "qdb__msg_get st k = Some m" "am = amsg_of m" using am(1) by (auto simp: absRD(8) [OF R])
  have f: "m_queue_name m = am_queue am" "m_data_len m = am_len am" by (simp_all add: m(2) amsg_of_def)
  obtain rs' nl st' B where S: "staged w0 w fd j cm e rs' nl st' B" and c: "copied A K B" and nl: "nl \<le> N" and o: "only_pushes rs' rs"
    and e: "unat e \<le> 4096 + sum (cost A) K" using P unfolding progress_def by blast
  have sum: "sum (cost A) (insert k K) = cost A k + sum (cost A) K" "8192 + (cost A k + sum (cost A) K) < 2 ^ 63"
    by (rule cost_insert [OF inv fits copied_sub [OF c] _ pend(3)]; use am in blast)+
  have ck: "cost A k = 334 + unat (m_data_len m)" by (simp add: cost_def am(1) f)
  have k: "a_msgs B k = None" using c pend(3) by (auto simp: copied_def)
  have room: "unat e + 300 + unat (m_data_len m) < 2 ^ 63" using e sum(2) ck by linarith
  obtain rc e' w' where wp: "compact_write_push w (db_fd db) fd m e = (rc, e', w')" by (metis prod_cases3)
  note W = write_push_ok [OF src S m(1) k room wp]
  have "progress w0 fd j cm A rs N (insert k K) e' w'" if r: "rc = QDB_OK"
  proof -
    obtain d off st'' where w: "pushed rs k (m_queue_name m) d"
      "staged w0 w' fd j cm e' (rs' @ [(QDB_RT_MSG_PUSH, push_buf k (m_queue_name m) d)]) nl st'' (a_push k (m_queue_name m) off (m_data_len m) B)"
      "unat e' \<le> unat e + 300 + unat (m_data_len m)" using outcomeD(4) [OF W r] by blast
    have "copied A (insert k K) (a_push k (m_queue_name m) off (m_data_len m) B)"
      using copied_push [OF c inv am(1,3) pend(3) _ pend(2), of pre off] pend(1) am(2) f by simp
    moreover have "only_pushes (rs' @ [(QDB_RT_MSG_PUSH, push_buf k (m_queue_name m) d)]) rs"
      using o w(1) by (auto simp: only_pushes_def pushed_def)
    moreover have "unat e' \<le> 4096 + sum (cost A) (insert k K)" using w(3) e sum(1) ck by linarith
    ultimately show ?thesis using w(2) nl unfolding progress_def by blast
  qed
  with W have "outcome w0 w j rc w' (progress w0 fd j cm A rs N (insert k K) e' w')" by (simp add: outcome_def)
  with that m(1) wp show thesis by blast
qed

lemma rec_lease_any:
  assumes R: "absR st A" and m: "qdb__msg_get st k = Some m" "m_state m = QDB_MSG_STATE_PENDING"
    and lid: "lid \<noteq> 0" "qdb__lease_get st lid = None"
  shows "rec_apply po QDB_RT_MSG_LEASE (lease_buf k e lid) (nm, nl, st) =
    Inr (nm, if lid \<ge> nl then lid + 1 else nl, st_lease st (m_queue_name m) k lid e)"
proof -
  obtain q where "qdb__queue_get st (m_queue_name m) = Some q" using absR_msg(5) [OF R m(1)] by blast
  then show ?thesis using m lid by (simp add: rec_apply_def rec_lease_def Let_def)
qed

lemma copied_lease_fresh:
  assumes "copied A K B" and "ainv A" and "a_msgs A k = Some am" and "am_status am = ALeased lid e" and "k \<notin> K"
    and "a_msgs (a_push k n off len B) k' = Some am'"
  shows "am_status am' \<noteq> ALeased lid e'"
proof
  assume l: "am_status am' = ALeased lid e'"
  have "k' \<noteq> k" using assms(6) l by (auto simp: a_push_def)
  then have b: "a_msgs B k' = Some am'" using assms(6) by (simp add: a_push_def)
  then obtain am0 where "a_msgs A k' = Some am0" "am_status am0 = ALeased lid e'" "k' \<in> K"
    using assms(1) l unfolding copied_def copy_of_def by (metis domI option.inject)
  with leases_injD(2) [OF assms(2-4)] \<open>k' \<noteq> k\<close> show False by blast
qed

lemma write_lease_ok:
  assumes S: "staged w0 w fd j cm e rs' nl st' B" and inv: "absR st A" and am: "a_msgs A k = Some (amsg_of m)" "astatus_of m = ALeased lid ex"
    and m: "m_id m = k" and B: "a_msgs B k = Some am'" "am_status am' = APending"
    and fresh: "\<forall>k' am e'. a_msgs B k' = Some am \<longrightarrow> am_status am \<noteq> ALeased lid e'"
    and room: "unat e + 34 < 2 ^ 63" and wl: "compact_write_lease w fd m e = (rc, e', w')"
  shows "outcome w0 w j rc w' (\<exists>st''. staged w0 w' fd j cm e' (rs' @ [(QDB_RT_MSG_LEASE, lease_buf k ex lid)])
    (if lid \<ge> nl then lid + 1 else nl) st'' (a_lease k lid ex B) \<and> unat e' = unat e + 34)"
proof -
  note R1 = stagedD(8) [OF S]
  have f: "m_lease_id m = lid" "m_lease_expiry_us m = ex" using am(2) by (simp_all add: astatus_of_iff)
  obtain m1 where m1: "qdb__msg_get st' k = Some m1" "m_state m1 = QDB_MSG_STATE_PENDING" by (rule pending_msg [OF R1 B])
  have "lid \<noteq> 0" using leases_injD(1) [OF absRD(1) [OF inv] am(1), of lid ex] am(2) by simp
  moreover have "qdb__lease_get st' lid = None" using lease_get_iff [OF R1, of lid] fresh by blast
  ultimately have app: "rec_apply (e + 9) QDB_RT_MSG_LEASE (lease_buf k ex lid) (db_next_msg_id cm, nl, st') =
      Inr (db_next_msg_id cm, if lid \<ge> nl then lid + 1 else nl, st_lease st' (m_queue_name m1) k lid ex)"
    by (rule rec_lease_any [OF R1 m1])
  have 2: "qdb__append_record w fd QDB_RT_MSG_LEASE (lease_buf k ex lid) 24 e = (rc, e', w')"
    using wl by (simp add: compact_write_lease_def f m lease_buf_def)
  have "rec_ok (QDB_RT_MSG_LEASE, lease_buf k ex lid)" by (simp add: rec_ok_def is_known_type_def)
  from staged_append [OF S 2 _ this _ app] room show ?thesis
    unfolding outcome_def by (auto simp: fresh_def a_rec_lease)
qed

lemma progress_leased:
  assumes src: "source w0 db i rs st A j cm" and P: "progress w0 fd j cm A rs (db_next_lease_id db) K e w" and fits: "fits A"
    and l: "qdb__lease_get st lid = Some l" "l_msg_id l \<notin> K"
  obtains m r1 e1 w1 r2 e2 w2 where "qdb__msg_get st (l_msg_id l) = Some m"
    "compact_write_push w (db_fd db) fd m e = (r1, e1, w1)" "compact_write_lease w1 fd m e1 = (r2, e2, w2)"
    "outcome w0 w j r1 w1 (outcome w0 w1 j r2 w2 (progress w0 fd j cm A rs (db_next_lease_id db) (insert (l_msg_id l) K) e2 w2))"
proof -
  let ?k = "l_msg_id l" and ?N = "db_next_lease_id db" and ?ex = "l_expiry_us l"
  have ok: "db_ok w0 db i rs st A" using src by (simp add: source_def)
  note D = db_okD [OF ok]
  note R = D(13)
  note inv = absRD(1) [OF R]
  obtain am where am: "a_msgs A ?k = Some am" "am_status am = ALeased lid ?ex" by (rule lease_node_msg [OF R l(1)])
  obtain m where m: "qdb__msg_get st ?k = Some m" "am = amsg_of m" using am(1) by (auto simp: absRD(8) [OF R])
  have f: "m_queue_name m = am_queue am" "m_data_len m = am_len am" "astatus_of m = ALeased lid ?ex" using am(2) by (simp_all add: m(2) amsg_of_def)
  obtain rs' nl st' B where S: "staged w0 w fd j cm e rs' nl st' B" and c: "copied A K B" and nl: "nl \<le> ?N" and o: "only_pushes rs' rs"
    and e: "unat e \<le> 4096 + sum (cost A) K" using P unfolding progress_def by blast
  have sum: "sum (cost A) (insert ?k K) = cost A ?k + sum (cost A) K" "8192 + (cost A ?k + sum (cost A) K) < 2 ^ 63"
    by (rule cost_insert [OF inv fits copied_sub [OF c] _ l(2)]; use am in blast)+
  have ck: "cost A ?k = 334 + unat (m_data_len m)" by (simp add: cost_def am(1) f)
  have k: "a_msgs B ?k = None" using c l(2) by (auto simp: copied_def)
  have room: "unat e + 300 + unat (m_data_len m) < 2 ^ 63" using e sum(2) ck by linarith
  obtain r1 e1 w1 where wp: "compact_write_push w (db_fd db) fd m e = (r1, e1, w1)" by (metis prod_cases3)
  obtain r2 e2 w2 where wl: "compact_write_lease w1 fd m e1 = (r2, e2, w2)" by (metis prod_cases3)
  note W = write_push_ok [OF src S m(1) k room wp]
  have "outcome w0 w1 j r2 w2 (progress w0 fd j cm A rs ?N (insert ?k K) e2 w2)" if r1: "r1 = QDB_OK"
  proof -
    obtain d off st1 where w: "pushed rs ?k (m_queue_name m) d"
      "staged w0 w1 fd j cm e1 (rs' @ [(QDB_RT_MSG_PUSH, push_buf ?k (m_queue_name m) d)]) nl st1 (a_push ?k (m_queue_name m) off (m_data_len m) B)"
      "unat e1 \<le> unat e + 300 + unat (m_data_len m)" using outcomeD(4) [OF W r1] by blast
    let ?B1 = "a_push ?k (m_queue_name m) off (m_data_len m) B"
    let ?rs = "(rs' @ [(QDB_RT_MSG_PUSH, push_buf ?k (m_queue_name m) d)]) @ [(QDB_RT_MSG_LEASE, lease_buf ?k ?ex lid)]"
    obtain amB where b: "a_msgs ?B1 ?k = Some amB" "am_status amB = APending" by (simp add: a_push_def)
    have rm: "unat e1 + 34 < 2 ^ 63" using w(3) e sum(2) ck by linarith
    have fresh: "\<forall>k' a x. a_msgs ?B1 k' = Some a \<longrightarrow> am_status a \<noteq> ALeased lid x"
      using copied_lease_fresh [OF c inv am l(2)] by blast
    note L = write_lease_ok [OF w(2) R am(1) [unfolded m(2)] f(3) absR_msg(2) [OF R m(1)] b fresh rm wl]
    have "progress w0 fd j cm A rs ?N (insert ?k K) e2 w2" if r2: "r2 = QDB_OK"
    proof -
      obtain st2 where s2: "staged w0 w2 fd j cm e2 ?rs (if lid \<ge> nl then lid + 1 else nl) st2 (a_lease ?k lid ?ex ?B1)" "unat e2 = unat e1 + 34"
        using outcomeD(4) [OF L r2] by blast
      have "copied A (insert ?k K) (a_lease ?k lid ?ex ?B1)" using copied_lease [OF c inv am l(2), of off] by (simp add: f)
      moreover have "(if lid \<ge> nl then lid + 1 else nl) \<le> ?N" using nl inc_le [OF D(10) [of lid]] l(1) by simp
      moreover have "only_pushes ?rs rs" using o w(1) by (auto simp: only_pushes_def pushed_def)
      moreover have "unat e2 \<le> 4096 + sum (cost A) (insert ?k K)" using w(3) s2(2) e sum(1) ck by linarith
      ultimately show ?thesis using s2(1) unfolding progress_def by blast
    qed
    with L show ?thesis by (simp add: outcome_def)
  qed
  with W have "outcome w0 w j r1 w1 (outcome w0 w1 j r2 w2 (progress w0 fd j cm A rs ?N (insert ?k K) e2 w2))" by (simp add: outcome_def)
  with that m(1) wp wl show thesis by blast
qed

section \<open>The loops\<close>

lemma compact_chain_ok:
  assumes src: "source w0 db i rs st A j cm" and fits: "fits A"
    and "progress w0 fd j cm A rs N K e w" and "a_pending A n = pre @ suf" and "dseg (qdb__msg_get st) p suf 0"
    and "set suf \<inter> K = {}" and "0 \<notin> set suf"
  shows "\<exists>rc e' w'. compact_chain w (db_fd db) fd st (hdo suf 0) e = Some (rc, e', w') \<and>
    outcome w0 w j rc w' (progress w0 fd j cm A rs N (K \<union> set suf) e' w')"
  using assms(3-)
proof (induction suf arbitrary: pre K e w p)
  case Nil
  then show ?case by (subst compact_chain.simps) (auto simp: outcome_def progress_def dest: stagedD(1))
next
  case (Cons k ks)
  have inv: "ainv A" using src db_okD(13) absRD(1) unfolding source_def by blast
  have "distinct (pre @ k # ks)" using ainvD(6) [OF inv, of n] Cons.prems(2) by simp
  then have d: "k \<notin> set ks" by simp
  have "set ks \<inter> K = {}" "k \<notin> K" using Cons.prems(4) by auto
  from progress_pending [OF src Cons.prems(1) fits Cons.prems(2) this] obtain m rc e1 w1 where
    m: "qdb__msg_get st k = Some m" "compact_write_push w (db_fd db) fd m e = (rc, e1, w1)"
    "outcome w0 w j rc w1 (progress w0 fd j cm A rs N (insert k K) e1 w1)" .
  have nx: "m_next_pending m = hdo ks 0" using Cons.prems(3) m(1) by simp
  show ?case
  proof (cases "rc = QDB_OK")
    case True
    note P = outcomeD(4) [OF m(3) True]
    have "a_pending A n = (pre @ [k]) @ ks" "dseg (qdb__msg_get st) k ks 0" "set ks \<inter> insert k K = {}" "0 \<notin> set ks"
      using Cons.prems d by auto
    from Cons.IH [OF P this] obtain rc' e' w' where
      2: "compact_chain w1 (db_fd db) fd st (hdo ks 0) e1 = Some (rc', e', w')"
      "outcome w0 w1 j rc' w' (progress w0 fd j cm A rs N (insert k K \<union> set ks) e' w')" by blast
    have "outcome w0 w j rc' w' (progress w0 fd j cm A rs N (insert k K \<union> set ks) e' w')"
      by (rule outcome_step [OF m(3) [unfolded True] 2(2)])
    then show ?thesis using Cons.prems(5) m(1,2) nx 2(1) True by (subst compact_chain.simps) simp
  next
    case False
    then show ?thesis using Cons.prems(5) m(1,2) outcome_stop [OF m(3) False] by (subst compact_chain.simps) simp
  qed
qed

lemma compact_pending_ok:
  assumes src: "source w0 db i rs st A j cm" and fits: "fits A"
    and "progress w0 fd j cm A rs N K e w" and "set qs \<subseteq> set (queue_nodes st)" and "distinct (map q_name qs)"
    and "\<And>q. q \<in> set qs \<Longrightarrow> set (a_pending A (q_name q)) \<inter> K = {}"
  shows "\<exists>rc e' w'. compact_pending w (db_fd db) fd st qs e = Some (rc, e', w') \<and>
    outcome w0 w j rc w' (progress w0 fd j cm A rs N (K \<union> (\<Union>q \<in> set qs. set (a_pending A (q_name q)))) e' w')"
  using assms(3-)
proof (induction qs arbitrary: K e w)
  case Nil
  then show ?case by (auto simp: outcome_def progress_def dest: stagedD(1))
next
  case (Cons q qs)
  have R: "absR st A" using src db_okD(13) unfolding source_def by blast
  note inv = absRD(1) [OF R]
  let ?n = "q_name q" and ?ks = "a_pending A (q_name q)"
  have q: "qdb__queue_get st ?n = Some q" using Cons.prems(2) qt.nodes_get [OF absRD(6) [OF R], of q] by simp
  have L: "list_ok (qdb__msg_get st) q ?ks" using absRD(11) [OF R q] by (simp add: queue_rel_def)
  then have l: "dseg (qdb__msg_get st) 0 ?ks 0" "0 \<notin> set ?ks" "q_pending_head q = hdo ?ks 0" by (auto simp: list_ok_def)
  have "set ?ks \<inter> K = {}" using Cons.prems(4) by simp
  from compact_chain_ok [OF src fits Cons.prems(1) _ l(1) this l(2), of ?n "[]"] obtain rc e1 w1 where
    1: "compact_chain w (db_fd db) fd st (q_pending_head q) e = Some (rc, e1, w1)"
    "outcome w0 w j rc w1 (progress w0 fd j cm A rs N (K \<union> set ?ks) e1 w1)"
    by (auto simp: l(3))
  show ?case
  proof (cases "rc = QDB_OK")
    case True
    have "set (a_pending A (q_name q')) \<inter> (K \<union> set ?ks) = {}" if "q' \<in> set qs" for q'
    proof -
      have "q_name q' \<noteq> ?n" using Cons.prems(3) imageI [OF that, of q_name] by auto
      then have "set (a_pending A (q_name q')) \<inter> set ?ks = {}"
        using ainvD(7) [OF inv, of ?n] ainvD(7) [OF inv, of "q_name q'"] by (auto simp: a_with_def)
      then show ?thesis using Cons.prems(4) [of q'] that by auto
    qed
    with Cons.IH [OF outcomeD(4) [OF 1(2) True]] Cons.prems(2,3) obtain rc' e' w' where
      2: "compact_pending w1 (db_fd db) fd st qs e1 = Some (rc', e', w')"
      "outcome w0 w1 j rc' w' (progress w0 fd j cm A rs N ((K \<union> set ?ks) \<union> (\<Union>q \<in> set qs. set (a_pending A (q_name q)))) e' w')" by fastforce
    from outcome_step [OF 1(2) [unfolded True] 2(2)] show ?thesis using 1(1) 2(1) True by (simp add: Un_assoc)
  next
    case False
    then show ?thesis using 1(1) outcome_stop [OF 1(2) False] by simp
  qed
qed

lemma compact_leased_ok:
  assumes src: "source w0 db i rs st A j cm" and fits: "fits A"
    and "progress w0 fd j cm A rs (db_next_lease_id db) K e w" and "set ls \<subseteq> set (lease_nodes st)" and "distinct (map l_msg_id ls)"
    and "l_msg_id ` set ls \<inter> K = {}" and "compact_leased w (db_fd db) fd st ls e = (rc, e', w')"
  shows "outcome w0 w j rc w' (progress w0 fd j cm A rs (db_next_lease_id db) (K \<union> l_msg_id ` set ls) e' w')"
  using assms(3-)
proof (induction ls arbitrary: K e w)
  case Nil
  then show ?case by (auto simp: outcome_def progress_def dest: stagedD(1))
next
  case (Cons l ls)
  have R: "absR st A" using src db_okD(13) unfolding source_def by blast
  have l: "qdb__lease_get st (l_lease_id l) = Some l" using Cons.prems(2) lt.nodes_get [OF absRD(7) [OF R], of l] by simp
  have "l_msg_id l \<notin> K" using Cons.prems(4) by auto
  from progress_leased [OF src Cons.prems(1) fits l this] obtain m r1 e1 w1 r2 e2 w2 where
    m: "qdb__msg_get st (l_msg_id l) = Some m" "compact_write_push w (db_fd db) fd m e = (r1, e1, w1)"
    "compact_write_lease w1 fd m e1 = (r2, e2, w2)"
    "outcome w0 w j r1 w1 (outcome w0 w1 j r2 w2 (progress w0 fd j cm A rs (db_next_lease_id db) (insert (l_msg_id l) K) e2 w2))" .
  show ?case
  proof (cases "r1 = QDB_OK")
    case r1: True
    note O2 = outcome_step [OF m(4) [unfolded r1] outcomeD(4) [OF m(4) r1]]
    show ?thesis
    proof (cases "r2 = QDB_OK")
      case r2: True
      have "l_msg_id ` set ls \<inter> insert (l_msg_id l) K = {}" using Cons.prems(3,4) by auto
      moreover have "compact_leased w2 (db_fd db) fd st ls e2 = (rc, e', w')" using Cons.prems(5) m(1-3) r1 r2 by simp
      ultimately have "outcome w0 w2 j rc w' (progress w0 fd j cm A rs (db_next_lease_id db) (insert (l_msg_id l) K \<union> l_msg_id ` set ls) e' w')"
        using Cons.IH [OF outcomeD(4) [OF O2 r2]] Cons.prems(2,3) by auto
      from outcome_step [OF O2 [unfolded r2] this] show ?thesis by simp
    next
      case False
      then show ?thesis using Cons.prems(5) m(1-3) r1 outcome_stop [OF O2 False] by auto
    qed
  next
    case False
    then show ?thesis using Cons.prems(5) m(1-3) outcome_stop [OF m(4) False] by auto
  qed
qed

lemma live_keys:
  assumes R: "absR st A"
  shows "(\<Union>q \<in> set (queue_nodes st). set (a_pending A (q_name q))) \<union> l_msg_id ` set (lease_nodes st) = live A"
    "l_msg_id ` set (lease_nodes st) \<inter> (\<Union>q \<in> set (queue_nodes st). set (a_pending A (q_name q))) = {}"
proof -
  note inv = absRD(1) [OF R]
  have names: "q_name ` set (queue_nodes st) = a_queues A" by (rule queue_names(1) [OF R])
  have "(\<Union>q \<in> set (queue_nodes st). set (a_pending A (q_name q))) = (\<Union>n \<in> q_name ` set (queue_nodes st). set (a_pending A n))" by simp
  also have "\<dots> = {k. \<exists>am. a_msgs A k = Some am \<and> am_status am = APending}"
    unfolding names using ainvD(4,7) [OF inv] by (fastforce simp: a_with_def)
  finally have p: "(\<Union>q \<in> set (queue_nodes st). set (a_pending A (q_name q))) = {k. \<exists>am. a_msgs A k = Some am \<and> am_status am = APending}" .
  have mem: "l \<in> set (lease_nodes st) \<longleftrightarrow> qdb__lease_get st (l_lease_id l) = Some l" for l
    by (rule lt.nodes_get [OF absRD(7) [OF R]])
  have rel: "qdb__lease_get st lid = Some l \<longleftrightarrow> l_lease_id l = lid \<and>
      (\<exists>am. a_msgs A (l_msg_id l) = Some am \<and> am_status am = ALeased lid (l_expiry_us l))" for lid l
    using absRD(4) [OF R] by (simp add: leases_rel_def)
  have "k \<in> l_msg_id ` set (lease_nodes st)" if "a_msgs A k = Some am" "am_status am = ALeased lid e" for k am lid e
    by (rule image_eqI [of _ _ "\<lparr>l_lease_id = lid, l_msg_id = k, l_expiry_us = e\<rparr>"]) (use that mem rel in auto)
  then have l: "l_msg_id ` set (lease_nodes st) = {k. \<exists>am lid e. a_msgs A k = Some am \<and> am_status am = ALeased lid e}"
    using mem rel by blast
  show "(\<Union>q \<in> set (queue_nodes st). set (a_pending A (q_name q))) \<union> l_msg_id ` set (lease_nodes st) = live A"
    unfolding p l live_def by (auto, metis astatus.exhaust)
  show "l_msg_id ` set (lease_nodes st) \<inter> (\<Union>q \<in> set (queue_nodes st). set (a_pending A (q_name q))) = {}"
    unfolding p l by auto
qed

section \<open>Filling the staging file\<close>

lemma db_ok_other:
  assumes "db_ok w db i rs st A" and "only_file w w' j" and "i \<noteq> j"
  shows "db_ok w' db i rs st A"
  using assms(1) only_file_simps(2,7) [OF assms(2)] assms(3) by (simp add: db_ok_def)

definition ckpt_buf :: "u64 \<Rightarrow> u64 \<Rightarrow> u64 \<Rightarrow> bytes" where
  "ckpt_buf t nm nl = qdb__put_u64le t @ qdb__put_u64le nm @ qdb__put_u64le nl"

lemma ckpt_buf_fields [simp]:
  "length (ckpt_buf t nm nl) = 24" "qdb__get_u64le (drop 8 (ckpt_buf t nm nl)) = nm"
  "qdb__get_u64le (drop 16 (ckpt_buf t nm nl)) = nl"
  by (simp_all add: ckpt_buf_def u64le.get_put u64le.get_put_self)

lemma checkpoint_ok:
  assumes S: "staged w0 w fd j cm e rs nl st B" and room: "unat e + 34 < 2 ^ 63" and nl: "nl \<le> db_next_lease_id db"
    and nm: "db_next_msg_id cm = db_next_msg_id db" and ck: "compact_write_checkpoint w fd db e = (rc, e', w')"
  shows "outcome w0 w j rc w' (\<exists>p. length p = 24 \<and> staged w0 w' fd j cm e' (rs @ [(QDB_RT_CHECKPOINT, p)]) (db_next_lease_id db) st B)"
proof -
  let ?p = "ckpt_buf (qdb__time_us w) (db_next_msg_id db) (db_next_lease_id db)"
  have ap: "qdb__append_record w fd QDB_RT_CHECKPOINT ?p 24 e = (rc, e', w')"
    using ck by (simp add: compact_write_checkpoint_def ckpt_buf_def)
  have app: "rec_apply (e + 9) QDB_RT_CHECKPOINT ?p (db_next_msg_id cm, nl, st) = Inr (db_next_msg_id cm, db_next_lease_id db, st)"
    using nl by (simp add: rec_apply_def rec_checkpoint_def nm max_absorb2)
  have "rec_ok (QDB_RT_CHECKPOINT, ?p)" by (simp add: rec_ok_def is_known_type_def)
  from staged_append [OF S ap _ this _ app] room nm
  have "outcome w0 w j rc w' (staged w0 w' fd j cm e' (rs @ [(QDB_RT_CHECKPOINT, ?p)]) (db_next_lease_id db) st B)"
    by (simp add: fresh_def a_rec_def outcome_def)
  then show ?thesis using ckpt_buf_fields(1) unfolding outcome_def by blast
qed

text \<open>The header patch and the sync turn the staging file into one that can be opened.\<close>

lemma staged_finish:
  assumes S: "staged w0 w fd j cm e rs nl st B" and cm: "db_log_start_offset cm = 4096"
    and nz: "db_next_msg_id cm \<noteq> 0" "nl \<noteq> 0" and ls: "\<forall>lid. qdb__lease_get st lid \<noteq> None \<longrightarrow> lid < nl"
    and 1: "qdb__header_update w fd (cm\<lparr>db_log_end_offset := e\<rparr>) = (r1, w1)" and 2: "qdb__file_sync w1 fd = (r2, w2)"
  shows "outcome w0 w j r1 w1 (outcome w0 w1 j r2 w2
    (ino_old (w_ino w2 j) = [] \<and> file_ok (ino_data (w_ino w2 j)) (cm\<lparr>db_log_end_offset := e\<rparr>) rs nl st B))"
proof -
  note D = stagedD [OF S]
  let ?d = "ino_data (w_ino w j)" and ?h = "cm\<lparr>db_log_end_offset := e\<rparr>"
  let ?d2 = "splice ?d 24 (drop 24 (hdr_bytes ?h))"
  have s1: "only_file w w1 j" "r1 = QDB_OK \<Longrightarrow> ino_data (w_ino w1 j) = ?d2" "calm w \<Longrightarrow> r1 = QDB_OK"
    using header_update_spec [OF 1 D(2)] D(9,10) by auto
  have fd1: "w_fds w1 fd = Some j" using D(2) only_file_simps(2) [OF s1(1)] by simp
  have s2: "only_file w1 w2 j" "r2 = QDB_OK \<Longrightarrow> ino_old (w_ino w2 j) = []" "ino_data (w_ino w2 j) = ino_data (w_ino w1 j)" "calm w1 \<Longrightarrow> r2 = QDB_OK"
    using qdb__file_sync_spec [OF 2 fd1] by auto
  have hdr: "has_header ?d2 ?h" by (rule header_patch [OF D(4)]) simp
  have len: "length ?d2 = length ?d" using D(9,10) by simp
  have "slice ?d2 4096 n = slice ?d 4096 n" for n using D(9,10) by (intro slice_splice_after) simp_all
  from log_is_same_slice [OF this _ D(5)] have L: "log_is ?d2 4096 (unat e) rs" using D(10) len by simp
  have "good_bounds ?h" using D(9) by (simp add: good_bounds_def cm word_le_nat_alt)
  then have F: "file_ok ?d2 ?h rs nl st B"
    unfolding file_ok_def using hdr L len D(3,6-10) nz ls by (simp add: cm)
  have "only_file w0 w1 j" "only_file w0 w2 j" using D(1) s1(1) s2(1) by (blast intro: only_file_trans)+
  then show ?thesis
    using s1 s2 F calm_only_file [OF s1(1)] calm_only_file [OF s2(1)] unfolding outcome_def by simp
qed

text \<open>Every message that is not acknowledged is copied; the pending sequences are the same.\<close>

definition compacted :: "astate \<Rightarrow> astate \<Rightarrow> bool" where
  "compacted A B \<longleftrightarrow> dom (a_msgs B) = live A \<and>
     (\<forall>k \<in> live A. \<exists>am am'. a_msgs A k = Some am \<and> a_msgs B k = Some am' \<and> copy_of am am') \<and> a_pending B = a_pending A"

lemma copied_live:
  assumes "ainv A" and "copied A (live A) B"
  shows "compacted A B"
proof -
  have "filter (\<lambda>k. k \<in> live A) (a_pending A n) = a_pending A n" for n
    using ainvD(7) [OF assms(1), of n] by (auto simp: filter_id_conv a_with_def live_def)
  then show ?thesis using assms(2) by (auto simp: copied_def compacted_def)
qed

lemma compacted_leases:
  assumes "absR st A" and "absR st' B" and "compacted A B" and "qdb__lease_get st' lid \<noteq> None"
  shows "qdb__lease_get st lid \<noteq> None"
proof -
  obtain k am' e where b: "a_msgs B k = Some am'" "am_status am' = ALeased lid e"
    using assms(4) lease_get_iff [OF assms(2)] by blast
  then obtain am where "a_msgs A k = Some am" "copy_of am am'"
    using assms(3) unfolding compacted_def by (metis domI option.inject)
  then have "a_msgs A k = Some am \<and> am_status am = ALeased lid e" using b(2) by (simp add: copy_of_def)
  then show ?thesis using lease_get_iff [OF assms(1)] by blast
qed

text \<open>The staging file when it is done: durable, and a database that can be opened.\<close>

definition staging_done :: "world \<Rightarrow> nat \<Rightarrow> db \<Rightarrow> (u8 \<times> bytes) list \<Rightarrow> astate \<Rightarrow> bool" where
  "staging_done w j db rs A \<longleftrightarrow> (\<exists>(h :: db) rs' st' B. ino_old (w_ino w j) = [] \<and>
     file_ok (ino_data (w_ino w j)) h rs' (db_next_lease_id db) st' B \<and>
     compacted A B \<and> only_pushes rs' rs \<and> db_next_msg_id h = db_next_msg_id db)"

lemma fill_tail:
  assumes src: "source w0 db i rs st A j cm" and cms: "db_log_start_offset cm = 4096" and fits: "fits A"
    and P: "progress w0 fd j cm A rs (db_next_lease_id db) (live A) e w"
    and 4: "compact_write_checkpoint w fd db e = (r4, e4, w4)"
    and 5: "qdb__header_update w4 fd (cm\<lparr>db_log_end_offset := e4\<rparr>) = (r5, w5)" and 6: "qdb__file_sync w5 fd = (r6, w6)"
    and r: "(r, w7) = (if r4 \<noteq> QDB_OK then (r4, w4) else if r5 \<noteq> QDB_OK then (r5, w5) else (r6, w6))"
  shows "outcome w0 w j r w7 (staging_done w7 j db rs A)"
proof -
  let ?N = "db_next_lease_id db"
  have ok: "db_ok w0 db i rs st A" and nm: "db_next_msg_id cm = db_next_msg_id db" using src by (auto simp: source_def)
  note D = db_okD [OF ok]
  note inv = absRD(1) [OF D(13)]
  obtain rs' nl st' B where S: "staged w0 w fd j cm e rs' nl st' B" and cp: "copied A (live A) B" and nl: "nl \<le> ?N"
    and o: "only_pushes rs' rs" and e: "unat e \<le> 4096 + sum (cost A) (live A)" using P unfolding progress_def by blast
  have "sum (cost A) (live A) \<le> sum (cost A) (dom (a_msgs A))"
    by (intro sum_mono2 [OF ainvD(1) [OF inv]] copied_sub [OF cp]) auto
  then have room: "unat e + 34 < 2 ^ 63" using e fits by (simp add: fits_def)
  note C = copied_live [OF inv cp]
  have ls: "\<forall>lid. qdb__lease_get st' lid \<noteq> None \<longrightarrow> lid < ?N"
    using D(10) compacted_leases [OF D(13) stagedD(8) [OF S] C] by blast
  note O4 = checkpoint_ok [OF S room nl nm 4]
  obtain r' w' where r': "(r', w') = (if r5 \<noteq> QDB_OK then (r5, w5) else (r6, w6))" by (metis prod.exhaust)
  have "outcome w0 w4 j r' w' (staging_done w' j db rs A)" if r4: "r4 = QDB_OK"
  proof -
    obtain p where S4: "staged w0 w4 fd j cm e4 (rs' @ [(QDB_RT_CHECKPOINT, p)]) ?N st' B" using outcomeD(4) [OF O4 r4] by blast
    have nz: "db_next_msg_id cm \<noteq> 0" using D(8) nm by simp
    have "only_pushes (rs' @ [(QDB_RT_CHECKPOINT, p)]) rs" using o by (auto simp: only_pushes_def)
    then have fin: "staging_done w6 j db rs A" if "ino_old (w_ino w6 j) = []"
      "file_ok (ino_data (w_ino w6 j)) (cm\<lparr>db_log_end_offset := e4\<rparr>) (rs' @ [(QDB_RT_CHECKPOINT, p)]) ?N st' B"
      using that C nm unfolding staging_done_def by (intro exI [of _ "cm\<lparr>db_log_end_offset := e4\<rparr>"]) auto
    note O5 = staged_finish [OF S4 cms nz D(9) ls 5 6]
    show ?thesis
    proof (rule outcome_seq [OF O5 _ r'])
      assume "r5 = QDB_OK" and O6: "outcome w0 w5 j r6 w6 (ino_old (w_ino w6 j) = [] \<and>
        file_ok (ino_data (w_ino w6 j)) (cm\<lparr>db_log_end_offset := e4\<rparr>) (rs' @ [(QDB_RT_CHECKPOINT, p)]) ?N st' B)"
      then have "w' = w6" using r' by simp
      then show "outcome w0 w5 j r6 w6 (staging_done w' j db rs A)" using O6 fin by (auto simp: outcome_def)
    qed
  qed
  moreover have rr: "(r, w7) = (if r4 \<noteq> QDB_OK then (r4, w4) else (r', w'))" using r r' by (simp split: if_splits)
  ultimately show ?thesis
  proof (cases "r4 = QDB_OK")
    case True
    then show ?thesis using rr outcome_seq [OF O4 _ rr] \<open>r4 = QDB_OK \<Longrightarrow> outcome w0 w4 j r' w' (staging_done w' j db rs A)\<close> by simp
  next
    case False
    then show ?thesis using rr outcome_stop [OF O4 False] by simp
  qed
qed

lemma compact_fill_ok:
  assumes ok: "db_ok w db i rs st A" and fd: "w_fds w fd = Some j" and ij: "i \<noteq> j"
    and old: "length (ino_data (w_ino w j)) < 2 ^ 63" and fits: "fits A"
  obtains rc w' where "compact_fill w db fd = Some (rc, w')" "outcome w w j rc w' (staging_done w' j db rs A)"
proof -
  note D = db_okD [OF ok]
  let ?N = "db_next_lease_id db"
  define cm :: db where "cm = \<lparr>db_fd = 0, db_lock_fd = 0, db_path = [], db_wal_path = [], db_lock_path = [],
             db_next_msg_id = db_next_msg_id db, db_next_lease_id = db_next_lease_id db,
             db_log_start_offset = of_nat QDB_HDR_SIZE, db_log_end_offset = of_nat QDB_HDR_SIZE,
             db_create_time_us = db_create_time_us db, db_flags = QDB_FLAG_DIRTY, db_lease_timeout_us = 0,
             db_state = None\<rparr>"
  have cms: "db_log_start_offset cm = 4096" "db_next_msg_id cm = db_next_msg_id db" by (simp_all add: cm_def)
  obtain r1 w1 where 1: "qdb__header_write w fd cm = (r1, w1)" by fastforce
  have s1: "only_file w w1 j" "r1 = QDB_OK \<Longrightarrow> ino_data (w_ino w1 j) = splice (ino_data (w_ino w j)) 0 (header_encode cm)" "calm w \<Longrightarrow> r1 = QDB_OK"
    using header_write_spec [OF 1 fd] by auto
  show thesis
  proof (cases "r1 = QDB_OK")
    case False
    then have "compact_fill w db fd = Some (r1, w1)" using 1 unfolding compact_fill_def Let_def cm_def [symmetric] by simp
    then show thesis by (rule that) (use False s1(1,3) in \<open>auto intro: outcome_fail\<close>)
  next
    case r1: True
    have src: "source w1 db i rs st A j cm" using db_ok_other [OF ok s1(1) ij] ij cms by (simp add: source_def)
    let ?d = "splice (ino_data (w_ino w j)) 0 (header_encode cm)"
    have "take 56 ?d = hdr_bytes cm" by (simp add: splice_def header_encode_eq)
    then have "has_header ?d cm" by (simp add: has_header_def)
    moreover have "header_encode cm \<noteq> []" by (simp flip: length_greater_0_conv)
    then have "4096 \<le> length ?d" "length ?d < 2 ^ 63" using old by simp_all
    ultimately have "staged w1 w1 fd j cm 4096 [] 1 empty_state a_empty"
      using fd only_file_simps(2) [OF s1(1)] absR_empty by (simp add: staged_def s1(2) [OF r1] fresh_def)
    moreover have "1 \<le> ?N" using D(9) by (simp add: word_le_nat_alt unat_gt_0 Suc_le_eq)
    ultimately have P0: "progress w1 fd j cm A rs ?N {} 4096 w1" using copied_empty unfolding progress_def only_pushes_def by fastforce
    note K = live_keys [OF D(13)]
    let ?K = "\<Union>q \<in> set (queue_nodes st). set (a_pending A (q_name q))"
    from compact_pending_ok [OF src fits P0 subset_refl qt.nodes_distinct [OF absRD(6) [OF D(13)]]] obtain r2 e2 w2 where
      2: "compact_pending w1 (db_fd db) fd st (queue_nodes st) 4096 = Some (r2, e2, w2)"
      "outcome w1 w1 j r2 w2 (progress w1 fd j cm A rs ?N ?K e2 w2)" by auto
    obtain r3 e3 w3 where 3: "compact_leased w2 (db_fd db) fd st (lease_nodes st) e2 = (r3, e3, w3)" by (metis prod_cases3)
    obtain r4 e4 w4 where 4: "compact_write_checkpoint w3 fd db e3 = (r4, e4, w4)" by (metis prod_cases3)
    obtain r5 w5 where 5: "qdb__header_update w4 fd (cm\<lparr>db_log_end_offset := e4\<rparr>) = (r5, w5)" by fastforce
    obtain r6 w6 where 6: "qdb__file_sync w5 fd = (r6, w6)" by fastforce
    obtain rt wt where t: "(rt, wt) = (if r4 \<noteq> QDB_OK then (r4, w4) else if r5 \<noteq> QDB_OK then (r5, w5) else (r6, w6))" by (metis prod.exhaust)
    obtain rl wl where l: "(rl, wl) = (if r3 \<noteq> QDB_OK then (r3, w3) else (rt, wt))" by (metis prod.exhaust)
    obtain rc w' where rc: "(rc, w') = (if r2 \<noteq> QDB_OK then (r2, w2) else (rl, wl))" by (metis prod.exhaust)
    have eq: "compact_fill w db fd = Some (rc, w')"
      using 1 2(1) 3 4 5 6 r1 D(12) unfolding compact_fill_def Let_def cm_def [symmetric] rc l t by simp
    have O3: "outcome w1 w2 j r3 w3 (progress w1 fd j cm A rs ?N (live A) e3 w3)" if "progress w1 fd j cm A rs ?N ?K e2 w2"
      using compact_leased_ok [OF src fits that subset_refl lease_nodes_msgs(1) [OF D(13)] K(2) 3] unfolding K(1) .
    have "outcome w1 w2 j rl wl (staging_done wl j db rs A)" if "progress w1 fd j cm A rs ?N ?K e2 w2"
      using O3 [OF that] fill_tail [OF src cms(1) fits _ 4 5 6 t] l by (cases "r3 = QDB_OK") (auto simp: outcome_def)
    then have "outcome w1 w1 j rc w' (staging_done w' j db rs A)"
      using 2(2) rc by (cases "r2 = QDB_OK") (auto simp: outcome_def)
    then have "outcome w w j rc w' (staging_done w' j db rs A)"
      using calm_only_file [OF s1(1)] only_file_trans [OF s1(1)] by (auto simp: outcome_def)
    with eq that show thesis by blast
  qed
qed

section \<open>Replacing the database\<close>

text \<open>Descriptors are below the next one.\<close>

definition fds_ok :: "world \<Rightarrow> bool" where
  "fds_ok w \<longleftrightarrow> (\<forall>fd i. w_fds w fd = Some i \<longrightarrow> fd < w_next_fd w)"

lemma db_ok_frame:
  assumes "db_ok w db i rs st A" and "w_fds w' (db_fd db) = w_fds w (db_fd db)" and "w_ino w' i = w_ino w i"
  shows "db_ok w' db i rs st A"
  using assms by (simp add: db_ok_def)

lemma next_reply_calm_world: "next_reply w = (r, w1) \<Longrightarrow> calm w \<Longrightarrow> calm w1"
  using calm_same_fs next_reply_same by blast

lemma sys_open_any:
  assumes o: "sys_open w p creat excl = (res, w1)"
  shows "calm w \<Longrightarrow> calm w1"
    "(\<exists>e. res = Inl e) \<and> same_fs w w1 \<or>
     (\<exists>j. res = Inr (w_next_fd w) \<and> w_dir w1 = (w_dir w)(p \<mapsto> j) \<and> w_fds w1 = (w_fds w)(w_next_fd w \<mapsto> j) \<and>
       w_next_fd w1 = w_next_fd w + 1 \<and>
       (w_dir w p = Some j \<and> w_ino w1 = w_ino w \<or>
        w_dir w p = None \<and> j = w_next_ino w \<and> w_ino w1 = (w_ino w)(j := \<lparr>ino_data = [], ino_old = []\<rparr>)))"
proof -
  obtain r w0 where r: "next_reply w = (r, w0)" by fastforce
  note same = next_reply_same [OF r]
  note e = same_fs_simps [OF same]
  show "calm w \<Longrightarrow> calm w1" "(\<exists>e. res = Inl e) \<and> same_fs w w1 \<or>
     (\<exists>j. res = Inr (w_next_fd w) \<and> w_dir w1 = (w_dir w)(p \<mapsto> j) \<and> w_fds w1 = (w_fds w)(w_next_fd w \<mapsto> j) \<and>
       w_next_fd w1 = w_next_fd w + 1 \<and>
       (w_dir w p = Some j \<and> w_ino w1 = w_ino w \<or>
        w_dir w p = None \<and> j = w_next_ino w \<and> w_ino w1 = (w_ino w)(j := \<lparr>ino_data = [], ino_old = []\<rparr>)))"
    using o same next_reply_calm_world [OF r] unfolding sys_open_def Let_def r prod.case
    by (auto simp: e fun_upd_idem split: option.splits if_splits sys_reply.splits)
qed

lemma file_create_any:
  assumes o: "qdb__file_open w p True = (rc, fd, b, w1)"
  shows "calm w \<Longrightarrow> rc = QDB_OK \<and> calm w1"
    "rc \<noteq> QDB_OK \<and> same_fs w w1 \<or>
     rc = QDB_OK \<and> fd = w_next_fd w \<and> (\<exists>j. w_dir w1 = (w_dir w)(p \<mapsto> j) \<and> w_fds w1 = (w_fds w)(w_next_fd w \<mapsto> j) \<and>
       (w_dir w p = Some j \<and> w_ino w1 = w_ino w \<or>
        w_dir w p = None \<and> j = w_next_ino w \<and> w_ino w1 = (w_ino w)(j := \<lparr>ino_data = [], ino_old = []\<rparr>)))"
proof -
  obtain res w2 where 2: "sys_open w p True True = (res, w2)" by fastforce
  obtain res3 w3 where 3: "sys_open w2 p False False = (res3, w3)" by fastforce
  have eq: "(rc, fd, b, w1) = (case res of Inr fd \<Rightarrow> (QDB_OK, fd, True, w2)
      | Inl e \<Rightarrow> if e \<noteq> EEXIST then (QDB_ERR_IO, QDB__INVALID_FD, False, w2)
          else case res3 of Inl e \<Rightarrow> (QDB_ERR_IO, QDB__INVALID_FD, False, w3) | Inr fd \<Rightarrow> (QDB_OK, fd, False, w3))"
    using o 2 3 by (auto simp: qdb__file_open_def file_open_existing_def split: sum.splits if_splits)
  show "rc \<noteq> QDB_OK \<and> same_fs w w1 \<or>
     rc = QDB_OK \<and> fd = w_next_fd w \<and> (\<exists>j. w_dir w1 = (w_dir w)(p \<mapsto> j) \<and> w_fds w1 = (w_fds w)(w_next_fd w \<mapsto> j) \<and>
       (w_dir w p = Some j \<and> w_ino w1 = w_ino w \<or>
        w_dir w p = None \<and> j = w_next_ino w \<and> w_ino w1 = (w_ino w)(j := \<lparr>ino_data = [], ino_old = []\<rparr>)))"
  proof (cases res)
    case (Inl e)
    then have s: "same_fs w w2" using sys_open_any(2) [OF 2] by auto
    note e2 = same_fs_simps [OF s]
    show ?thesis using eq Inl sys_open_any(2) [OF 3] s same_fs_trans [OF s] unfolding e2
      by (cases res3) (auto split: if_splits)
  next
    case (Inr f)
    then show ?thesis using eq sys_open_any(2) [OF 2] by auto
  qed
  show "rc = QDB_OK \<and> calm w1" if c: "calm w"
  proof -
    obtain i wx where "qdb__file_open w p True = (QDB_OK, w_next_fd w, w_dir w p = None, wx)" "calm wx" by (rule file_open_calm [OF c])
    then show ?thesis using o by simp
  qed
qed

lemma file_delete_any:
  assumes "qdb__file_delete w p = (rc, w1)"
  shows "calm w \<Longrightarrow> calm w1" "w_ino w1 = w_ino w" "w_fds w1 = w_fds w" "w_next_fd w1 = w_next_fd w" "w_next_ino w1 = w_next_ino w"
    "w_dir w1 = w_dir w \<or> w_dir w1 = (w_dir w)(p := None)"
proof -
  obtain r w0 where r: "next_reply w = (r, w0)" by fastforce
  note e = same_fs_simps [OF next_reply_same [OF r]]
  show "calm w \<Longrightarrow> calm w1" "w_ino w1 = w_ino w" "w_fds w1 = w_fds w" "w_next_fd w1 = w_next_fd w" "w_next_ino w1 = w_next_ino w"
    "w_dir w1 = w_dir w \<or> w_dir w1 = (w_dir w)(p := None)"
    using assms next_reply_same [OF r] next_reply_calm_world [OF r] unfolding qdb__file_delete_def sys_unlink_def Let_def r prod.case
    by (auto simp: e same_fs_simps [of w w1] split: sys_reply.splits if_splits)
qed

lemma file_rename_any:
  assumes "qdb__file_rename w p q = (rc, w1)" and "w_dir w p = Some j"
  shows "calm w \<Longrightarrow> calm w1 \<and> rc = QDB_OK" "w_ino w1 = w_ino w" "w_fds w1 = w_fds w"
    "rc = QDB_OK \<Longrightarrow> w_dir w1 = ((w_dir w)(p := None))(q \<mapsto> j)" "rc \<noteq> QDB_OK \<Longrightarrow> w_dir w1 = w_dir w"
proof -
  obtain r w0 where r: "next_reply w = (r, w0)" by fastforce
  note e = same_fs_simps [OF next_reply_same [OF r]]
  show "calm w \<Longrightarrow> calm w1 \<and> rc = QDB_OK" "w_ino w1 = w_ino w" "w_fds w1 = w_fds w"
    "rc = QDB_OK \<Longrightarrow> w_dir w1 = ((w_dir w)(p := None))(q \<mapsto> j)" "rc \<noteq> QDB_OK \<Longrightarrow> w_dir w1 = w_dir w"
    using assms next_reply_same [OF r] next_reply_calm_world [OF r] next_reply_calm [OF r] unfolding qdb__file_rename_def sys_rename_def Let_def r prod.case
    by (auto simp: e same_fs_simps [of w w1] split: sys_reply.splits)
qed

lemma file_close_simps:
  "w_dir (qdb__file_close w fd) = w_dir w" "w_ino (qdb__file_close w fd) = w_ino w"
  "w_fds (qdb__file_close w fd) = (w_fds w)(fd := None)" "w_next_fd (qdb__file_close w fd) = w_next_fd w"
  "calm (qdb__file_close w fd) = calm w"
  by (simp_all add: qdb__file_close_def sys_close_def drop_lock_def)

lemma reopen_ok:
  assumes c: "calm w" and F: "file_ok (ino_data (w_ino w j)) h rs nl st B" and dir: "w_dir w (db_path db) = Some j" "w_dir w (db_wal_path db) = None"
  obtains db' w' where "qdb__reopen_after_compact w db = (QDB_OK, db', w')" "db_ok w' db' j rs st B" "calm w'" "w_dir w' = w_dir w"
    "db_next_msg_id db' = db_next_msg_id h" "db_next_lease_id db' = nl" "db_path db' = db_path db" "db_lock_fd db' = db_lock_fd db"
    "db_lease_timeout_us db' = db_lease_timeout_us db"
proof -
  obtain w1 db1 where 1: "(if db_fd db \<noteq> QDB__INVALID_FD then (qdb__file_close w (db_fd db), db\<lparr>db_fd := QDB__INVALID_FD\<rparr>) else (w, db)) = (w1, db1)"
    by fastforce
  have s1: "calm w1" "w_dir w1 = w_dir w" "w_ino w1 = w_ino w" "db1 = db\<lparr>db_fd := QDB__INVALID_FD\<rparr>"
    using 1 c by (auto simp: file_close_simps split: if_splits)
  obtain res w2 where 2: "sys_open w1 (db_path db) False False = (res, w2)" by fastforce
  have s2: "calm w2" "res = Inr (w_next_fd w1)" "w_dir w2 = w_dir w" "w_ino w2 = w_ino w" "w_fds w2 (w_next_fd w1) = Some j"
    using sys_open_calm(1) [OF s1(1) 2] sys_open_calm(4) [OF s1(1) 2, of j] dir(1) s1(2,3) by auto
  let ?db = "db\<lparr>db_fd := w_next_fd w1\<rparr>"
  have "file_ok (ino_data (w_ino w2 j)) h rs nl st B" using F by (simp add: s2(4))
  then obtain db' w' where 3: "load_existing w2 ?db = (QDB_OK, db', w')" "db_ok w' db' j rs st B" "calm w'" "only_file w2 w' j"
    "db_next_msg_id db' = db_next_msg_id h" "db_next_lease_id db' = nl" "db_lock_fd db' = db_lock_fd ?db"
    "db_lease_timeout_us db' = db_lease_timeout_us ?db" "db_path db' = db_path ?db"
    by (rule load_existing_ok [of w2 j h rs nl st B ?db]) (use s2 dir(2) in simp_all)
  have "qdb__file_open w1 (db_path db) False = (QDB_OK, w_next_fd w1, False, w2)"
    using 2 s2(2) by (simp add: qdb__file_open_def file_open_existing_def)
  then have "qdb__reopen_after_compact w db = (QDB_OK, db', w')"
    using 3(1) unfolding qdb__reopen_after_compact_def Let_def 1 prod.case by (simp add: s1(4))
  then show thesis using that 3 s2(3) only_file_simps(1) [OF 3(4)] by simp
qed

lemma compact_db_cases:
  assumes ok: "db_ok w db i rs st A" and dok: "dir_ok w" "fds_ok w" and dir: "w_dir w (db_path db) = Some i" and fits: "fits A"
    and stale: "\<forall>j. w_dir w (db_path db @ ''-compact'') = Some j \<longrightarrow> j \<noteq> i \<and> length (ino_data (w_ino w j)) < 2 ^ 63"
  obtains (kept) rc w' where "compact_db w db = Some (rc, db, w')" "rc \<noteq> QDB_OK" "\<not> calm w" "db_ok w' db i rs st A"
      "w_dir w' (db_path db) = Some i"
  | (replaced) w6 j where "compact_db w db = Some (qdb__reopen_after_compact w6 db)" "staging_done w6 j db rs A" "j \<noteq> i"
      "calm w \<Longrightarrow> calm w6" "w_dir w6 = ((w_dir w)(db_path db @ ''-compact'' := None))(db_path db \<mapsto> j)"
proof -
  let ?p = "db_path db" and ?c = "db_path db @ ''-compact''"
  have pc: "?c \<noteq> ?p" by simp
  obtain ok1 w1 where 1: "heap_alloc w = (ok1, w1)" by fastforce
  note s1 = heap_alloc_same [OF 1]
  note e1 = same_fs_simps [OF s1]
  have ms: "make_sidecar w ?p ''-compact'' = (if ok1 then Some ?c else None, w1)" by (simp add: make_sidecar_def 1)
  obtain r2 w2 where 2: "qdb__file_delete w1 ?c = (r2, w2)" by fastforce
  note s2 = file_delete_any [OF 2]
  obtain r3 fd b w3 where 3: "qdb__file_open w2 ?c True = (r3, fd, b, w3)" by (metis prod_cases4)
  note s3 = file_create_any [OF 3]
  have d2: "w_dir w2 ?p = Some i" "w_dir w2 q \<noteq> None \<Longrightarrow> w_dir w2 q = w_dir w q" "q \<noteq> ?c \<Longrightarrow> w_dir w2 q = w_dir w q" for q
    using s2(6) dir pc by (auto simp: e1 split: if_splits)
  have ok2: "db_ok w2 db i rs st A" using ok by (rule db_ok_frame) (simp_all add: s2(2,3) e1)
  have gone: thesis if "compact_db w db = Some (rc, db, snd (qdb__file_delete wf ?c))" "rc \<noteq> QDB_OK" "\<not> calm w"
    "db_ok wf db i rs st A" "w_dir wf ?p = Some i" for rc wf
  proof -
    obtain rd wd where d: "qdb__file_delete wf ?c = (rd, wd)" by fastforce
    note sd = file_delete_any [OF d]
    have "w_dir wd ?p = Some i" using sd(6) that(5) pc by auto
    moreover have "db_ok wd db i rs st A" using that(4) by (rule db_ok_frame) (simp_all add: sd(2,3))
    ultimately show thesis using kept that(1-3) d by simp
  qed
  show thesis
  proof (cases ok1)
    case False
    have "db_ok w1 db i rs st A" using ok by (rule db_ok_frame) (simp_all add: e1)
    moreover have "compact_db w db = Some (QDB_ERR_NOMEM, db, w1)" using False by (simp add: compact_db_def ms)
    ultimately show thesis using kept [of QDB_ERR_NOMEM w1] False heap_alloc_calm [OF 1] dir by (auto simp: e1)
  next
    case ok1: True
    have c2: "calm w \<Longrightarrow> calm w2" using s2(1) calm_same_fs [OF s1] by blast
    show thesis
    proof (cases "r3 = QDB_OK")
      case False
      then have same: "same_fs w2 w3" using s3(2) by blast
      have "compact_db w db = Some (r3, db, snd (qdb__file_delete w3 ?c))" using False ok1 by (simp add: compact_db_def ms 2 3)
      then show thesis using gone [OF _ False _ db_ok_same [OF ok2 same]] s3(1) c2 False d2(1) by (auto simp: same_fs_simps [OF same])
    next
      case r3: True
      then obtain j where j: "fd = w_next_fd w" "w_dir w3 = (w_dir w2)(?c \<mapsto> j)" "w_fds w3 = (w_fds w)(w_next_fd w \<mapsto> j)"
        "w_dir w2 ?c = Some j \<and> w_ino w3 = w_ino w \<or> w_dir w2 ?c = None \<and> j = w_next_ino w \<and> w_ino w3 = (w_ino w)(j := \<lparr>ino_data = [], ino_old = []\<rparr>)"
        using s3(2) by (auto simp: s2 e1)
      have fd: "db_fd db \<noteq> fd" using dok(2) db_okD(1) [OF ok] j(1) by (auto simp: fds_ok_def)
      have old: "j \<noteq> i \<and> length (ino_data (w_ino w j)) < 2 ^ 63" if "w_dir w2 ?c = Some j"
        using d2(2) [of ?c] that stale by simp
      have "i < w_next_ino w" using dok(1) dir unfolding dir_ok_def by blast
      then have ij: "i \<noteq> j" using j(4) old by auto
      have len: "length (ino_data (w_ino w3 j)) < 2 ^ 63" using j(4) old by auto
      have "w_ino w3 i = w_ino w i" using j(4) ij by auto
      then have ok3: "db_ok w3 db i rs st A" using db_ok_frame [OF ok] fd j(1,3) by simp
      have fd3: "w_fds w3 fd = Some j" by (simp add: j(1,3))
      obtain r4 w4 where 4: "compact_fill w3 db fd = Some (r4, w4)" "outcome w3 w3 j r4 w4 (staging_done w4 j db rs A)"
        by (rule compact_fill_ok [OF ok3 fd3 ij len fits])
      note of4 = only_file_simps [OF outcomeD(1) [OF 4(2)]]
      define w5 where "w5 = qdb__file_close w4 fd"
      note e5 = file_close_simps [of w4 fd, folded w5_def]
      have ok5: "db_ok w5 db i rs st A"
        using ok3 by (rule db_ok_frame) (use fd of4(7) [OF ij] in \<open>simp_all add: e5 of4(2)\<close>)
      have d5: "w_dir w5 ?p = Some i" "w_dir w5 ?c = Some j" using d2(1) by (simp_all add: e5 of4(1) j(2))
      have c3: "calm w \<Longrightarrow> calm w3" using s3(1) c2 by blast
      show thesis
      proof (cases "r4 = QDB_OK")
        case False
        then have "compact_db w db = Some (r4, db, snd (qdb__file_delete w5 ?c))" using r3 ok1 by (simp add: compact_db_def ms 2 3 4(1) w5_def)
        then show thesis using gone [OF _ False _ ok5 d5(1)] outcomeD(2) [OF 4(2)] c3 False by blast
      next
        case r4: True
        have c5: "calm w \<Longrightarrow> calm w5" using outcomeD(3) [OF 4(2)] c3 by (simp add: e5)
        obtain r6 w6 where 6: "qdb__file_rename w5 ?c ?p = (r6, w6)" by fastforce
        note s6 = file_rename_any [OF 6 d5(2)]
        show thesis
        proof (cases "r6 = QDB_OK")
          case False
          then have "compact_db w db = Some (r6, db, snd (qdb__file_delete w6 ?c))" using r3 r4 ok1 6 by (simp add: compact_db_def ms 2 3 4(1) w5_def)
          moreover have "db_ok w6 db i rs st A" using ok5 by (rule db_ok_frame) (simp_all add: s6)
          ultimately show thesis using gone [OF _ False] s6(1,5) c5 False d5(1) by fastforce
        next
          case r6: True
          have eq: "compact_db w db = Some (qdb__reopen_after_compact w6 db)" using r3 r4 r6 ok1 6 by (simp add: compact_db_def ms 2 3 4(1) w5_def)
          have dn: "staging_done w6 j db rs A" using outcomeD(4) [OF 4(2) r4] by (simp add: staging_done_def s6(2) e5)
          have "w_dir w5 = (w_dir w2)(?c \<mapsto> j)" by (simp add: e5 of4(1) j(2))
          then have "w_dir w6 = ((w_dir w)(?c := None))(?p \<mapsto> j)"
            using s6(4) [OF r6] d2(3) by (auto simp: fun_eq_iff)
          then show thesis using replaced [OF eq dn] ij s6(1) c5 by blast
        qed
      qed
    qed
  qed
qed

text \<open>
  Theorem C5.  Compaction is atomic, whatever fails on the way: it returns, and either the path
  still names the old file, an error is reported and handle, file and state are exactly as before,
  or the path names a complete and durable file with the compacted database, and the result is
  that of opening this file.
\<close>

theorem compact_atomic:
  assumes "db_ok w db i rs st A" and "dir_ok w" and "fds_ok w" and "w_dir w (db_path db) = Some i" and "fits A"
    and "\<forall>j. w_dir w (db_path db @ ''-compact'') = Some j \<longrightarrow> j \<noteq> i \<and> length (ino_data (w_ino w j)) < 2 ^ 63"
  shows "(\<exists>rc w'. qdb_compact w (Some db) = Some (rc, Some db, w') \<and> rc \<noteq> QDB_OK \<and> db_ok w' db i rs st A \<and>
       w_dir w' (db_path db) = Some i) \<or>
    (\<exists>rc db' w' w6 j. qdb_compact w (Some db) = Some (rc, Some db', w') \<and> (rc, db', w') = qdb__reopen_after_compact w6 db \<and>
       j \<noteq> i \<and> w_dir w6 (db_path db) = Some j \<and> w_dir w6 (db_path db @ ''-compact'') = None \<and> staging_done w6 j db rs A)"
  using assms(1-5) assms(6)
proof (cases rule: compact_db_cases)
  case (kept rc w')
  then show ?thesis by (simp add: qdb_compact_def)
next
  case (replaced w6 j)
  obtain rc db' w' where r: "qdb__reopen_after_compact w6 db = (rc, db', w')" by (metis prod_cases3)
  then have "qdb_compact w (Some db) = Some (rc, Some db', w')" using replaced(1) by (simp add: qdb_compact_def)
  then show ?thesis using replaced r by (intro disjI2 exI [of _ rc] exI [of _ db'] exI [of _ w'] exI [of _ w6] exI [of _ j]) simp
qed

text \<open>
  Theorem C4.  In a run without failures compaction succeeds, and the database it leaves open is
  the old one less its acknowledged messages: the same pending sequences, every live message with
  its queue, length, status, lease id and deadline, every push record taken over byte for byte
  from the old log, both counters unchanged.  Only the retry counts are lost: all of them are 0
  afterwards.  The staging file is gone and the path names the new file.
\<close>

theorem compact_preserves:
  assumes "db_ok w db i rs st A" and "calm w" and "dir_ok w" and "fds_ok w"
    and "w_dir w (db_path db) = Some i" and "w_dir w (db_wal_path db) = None" and "fits A"
    and "\<forall>j. w_dir w (db_path db @ ''-compact'') = Some j \<longrightarrow> j \<noteq> i \<and> length (ino_data (w_ino w j)) < 2 ^ 63"
  shows "\<exists>db' w' j rs' st' B. qdb_compact w (Some db) = Some (QDB_OK, Some db', w') \<and> db_ok w' db' j rs' st' B \<and>
    compacted A B \<and> only_pushes rs' rs \<and>
    w_dir w' (db_path db) = Some j \<and> w_dir w' (db_path db @ ''-compact'') = None \<and>
    db_next_msg_id db' = db_next_msg_id db \<and> db_next_lease_id db' = db_next_lease_id db"
  using assms(1,3,4,5,7,8)
proof (cases rule: compact_db_cases)
  case (replaced w6 j)
  obtain h rs' st' B where F: "file_ok (ino_data (w_ino w6 j)) (h :: db) rs' (db_next_lease_id db) st' B" "compacted A B"
    "only_pushes rs' rs" "db_next_msg_id h = db_next_msg_id db" using replaced(2) unfolding staging_done_def by blast
  have "calm w6" "w_dir w6 (db_path db) = Some j" "w_dir w6 (db_wal_path db) = None"
    using replaced(4,5) assms(2,5,6) by auto
  then obtain db' w' where 7: "qdb__reopen_after_compact w6 db = (QDB_OK, db', w')" "db_ok w' db' j rs' st' B" "w_dir w' = w_dir w6"
    "db_next_msg_id db' = db_next_msg_id h" "db_next_lease_id db' = db_next_lease_id db" using reopen_ok [OF _ F(1)] by metis
  have "qdb_compact w (Some db) = Some (QDB_OK, Some db', w')" using replaced(1) 7(1) by (simp add: qdb_compact_def)
  then show ?thesis
    using 7 F replaced(5)
    by (intro exI [of _ db'] exI [of _ w'] exI [of _ j] exI [of _ rs'] exI [of _ st'] exI [of _ B]) simp
qed (use assms(2) in simp)

section \<open>Compaction returns\<close>

lemma chain_returns:
  assumes "dseg (qdb__msg_get st) p ks 0" and "0 \<notin> set ks"
  shows "\<exists>r. compact_chain w src fd st (hdo ks 0) e = Some r"
  using assms
proof (induction ks arbitrary: w e p)
  case Nil
  then show ?case by (subst compact_chain.simps) simp
next
  case (Cons k ks)
  then obtain m where m: "qdb__msg_get st k = Some m" "m_next_pending m = hdo ks 0" "dseg (qdb__msg_get st) k ks 0" "k \<noteq> 0" "0 \<notin> set ks"
    by auto
  obtain rc e1 w1 where 1: "compact_write_push w src fd m e = (rc, e1, w1)" by (metis prod_cases3)
  show ?case using Cons.IH [OF m(3,5), of w1 e1] m(1,2,4) 1 by (subst compact_chain.simps) simp
qed

lemma pending_returns:
  assumes "absR st A" and "set qs \<subseteq> set (queue_nodes st)"
  shows "\<exists>r. compact_pending w src fd st qs e = Some r"
  using assms(2)
proof (induction qs arbitrary: w e)
  case (Cons q qs)
  have "qdb__queue_get st (q_name q) = Some q" using Cons.prems qt.nodes_get [OF absRD(6) [OF assms(1)], of q] by simp
  then have "list_ok (qdb__msg_get st) q (a_pending A (q_name q))" using absRD(11) [OF assms(1)] by (simp add: queue_rel_def)
  then have l: "dseg (qdb__msg_get st) 0 (a_pending A (q_name q)) 0" "0 \<notin> set (a_pending A (q_name q))"
    "q_pending_head q = hdo (a_pending A (q_name q)) 0" by (auto simp: list_ok_def)
  obtain rc e1 w1 where 1: "compact_chain w src fd st (q_pending_head q) e = Some (rc, e1, w1)"
    using chain_returns [OF l(1,2), of w src fd e] l(3) by (metis prod_cases3)
  show ?case using Cons.IH [of w1 e1] Cons.prems 1 by simp
qed simp

text \<open>
  Theorem C17.  The walk along the pending lists follows links in memory, and a cyclic list would
  make it run for ever; on a handle in order compaction returns in every world, whatever fails.
\<close>

theorem compact_returns:
  assumes "db_ok w db i rs st A"
  shows "\<exists>rc db' w''. qdb_compact w' (Some db) = Some (rc, Some db', w'')"
proof -
  note D = db_okD [OF assms]
  have p [simp]: "compact_pending x (db_fd db) fd st (queue_nodes st) e \<noteq> None" for x fd e
    using pending_returns [OF D(13) subset_refl] by fastforce
  have fill [simp]: "compact_fill w db fd \<noteq> None" for w fd
    using D(12) by (simp add: compact_fill_def Let_def split: prod.split option.split)
  have "compact_db w' db \<noteq> None"
    by (simp add: compact_db_def Let_def split: prod.split option.split) (metis prod_cases3)
  then show ?thesis by (auto simp: qdb_compact_def)
qed

text \<open>The database with one leased message, alone in its directory.\<close>

definition dir_db :: db where
  "dir_db = leased_db\<lparr>db_path := ''q'', db_wal_path := ''q-wal''\<rparr>"

definition dir_world :: world where
  "dir_world = leased_world\<lparr>w_dir := [''q'' \<mapsto> 0], w_fds := [db_fd leased_db \<mapsto> 0], w_next_ino := 2, w_next_fd := db_fd leased_db + 1\<rparr>"

lemma dir_db_ok:
  obtains rs st where "db_ok dir_world dir_db 0 rs st leased_spec" "calm dir_world" "room dir_db" "db_next_lease_id dir_db = 2"
proof -
  obtain rs st where l: "db_ok leased_world leased_db 0 rs st leased_spec" "calm leased_world" "room leased_db" "db_next_lease_id leased_db = 2"
    by (rule leased_db_ok)
  have "db_ok dir_world dir_db 0 rs st leased_spec"
    using l(1) by (simp add: db_ok_def dir_world_def dir_db_def has_header_def hdr_bytes_def hdr_fields_def good_bounds_def)
  then show thesis using that l by (simp add: dir_world_def dir_db_def room_def)
qed

lemma dir_world_simps:
  "dir_ok dir_world" "fds_ok dir_world" "w_dir dir_world (db_path dir_db) = Some 0" "w_dir dir_world (db_wal_path dir_db) = None"
  "\<forall>j. w_dir dir_world (db_path dir_db @ ''-compact'') = Some j \<longrightarrow> j \<noteq> 0 \<and> length (ino_data (w_ino dir_world j)) < 2 ^ 63"
  by (auto simp: dir_world_def dir_db_def dir_ok_def fds_ok_def split: if_splits)

lemma leased_spec_fits: "fits leased_spec"
proof -
  have "dom (a_msgs leased_spec) = {1}" by (auto split: if_splits)
  then show ?thesis by (simp add: fits_def cost_def)
qed

theorem compact_preserves_witness:
  "\<exists>db' w' j rs' st' B am. qdb_compact dir_world (Some dir_db) = Some (QDB_OK, Some db', w') \<and> db_ok w' db' j rs' st' B \<and>
     a_msgs B 1 = Some am \<and> am_status am = ALeased 1 (qdb__time_us one_world + 30000000) \<and> db_next_lease_id db' = 2"
proof -
  obtain rs st where d: "db_ok dir_world dir_db 0 rs st leased_spec" "calm dir_world" "db_next_lease_id dir_db = 2" by (rule dir_db_ok)
  from compact_preserves [OF d(1,2) dir_world_simps(1-4) leased_spec_fits dir_world_simps(5)] obtain db' w' j rs' st' B where
    C: "qdb_compact dir_world (Some dir_db) = Some (QDB_OK, Some db', w')" "db_ok w' db' j rs' st' B" "compacted leased_spec B"
    "db_next_lease_id db' = 2" using d(3) by metis
  have "1 \<in> live leased_spec" by (simp add: live_def)
  then obtain am am' where "a_msgs leased_spec 1 = Some am" "a_msgs B 1 = Some am'" "copy_of am am'"
    using C(3) unfolding compacted_def by blast
  then have "a_msgs B 1 = Some am' \<and> am_status am' = ALeased 1 (qdb__time_us one_world + 30000000)" by (auto simp: copy_of_def)
  then show ?thesis using C(1,2,4) by blast
qed

text \<open>The same with an I/O error on the second system call of the compaction.\<close>

theorem compact_atomic_witness:
  "\<exists>rc db' w'. qdb_compact (dir_world\<lparr>w_replies := [Full, Fail EIO]\<rparr>) (Some dir_db) = Some (rc, Some db', w')"
proof -
  let ?w = "dir_world\<lparr>w_replies := [Full, Fail EIO]\<rparr>"
  obtain rs st where d: "db_ok dir_world dir_db 0 rs st leased_spec" by (rule dir_db_ok)
  have ok: "db_ok ?w dir_db 0 rs st leased_spec" using d by (rule db_ok_frame) simp_all
  have "dir_ok ?w" "fds_ok ?w" "w_dir ?w (db_path dir_db) = Some 0"
    "\<forall>j. w_dir ?w (db_path dir_db @ ''-compact'') = Some j \<longrightarrow> j \<noteq> 0 \<and> length (ino_data (w_ino ?w j)) < 2 ^ 63"
    using dir_world_simps by (simp_all add: dir_ok_def fds_ok_def)
  from compact_atomic [OF ok this(1-3) leased_spec_fits this(4)] show ?thesis by blast
qed

theorem compact_returns_witness:
  "\<exists>rc db' w'. qdb_compact (one_world\<lparr>w_replies := [Fail EINTR, Short 1], w_allocs := [True, False]\<rparr>) (Some leased_db) = Some (rc, Some db', w')"
proof -
  obtain rs st where "db_ok leased_world leased_db 0 rs st leased_spec" by (rule leased_db_ok)
  then show ?thesis by (rule compact_returns)
qed

end
