(* ===== verification/Events.thy ===== *)
theory Events
  imports CompactProps
begin

text \<open>
  The calls of the interface and the events they make.  An event is a call with its arguments, its
  return code and the message structure it filled in, or a change of the clock.  The specification
  \<open>q_event\<close> says which events a queue allows in which state and what each does; it knows messages,
  their bytes, the two counters and the time, and no tables, links or files.  \<open>abs_q\<close> reads such a
  state off a handle, its log and the clock.  The locale \<open>trace_refinement\<close> lifts a step by step
  simulation to whole runs: they make only sequences of events the specification allows.
\<close>

section \<open>Calls\<close>

datatype call = Push "bytes option" "bytes option" nat | Pop "bytes option" | PopAny | Ack u64 u64 | Nack u64 u64 | Expire

text \<open>The return code, the message structure of a pop, the handle and the world after a call.\<close>

fun run_call :: "call \<Rightarrow> world \<Rightarrow> db \<Rightarrow> (int \<times> qdb_msg_t option \<times> db \<times> world) option" where
  "run_call (Push q data len) w db = map_option (\<lambda>(rc, db', w'). (rc, None, the db', w')) (qdb_push w (Some db) q data len)"
| "run_call (Pop q) w db = map_option (\<lambda>(rc, out, db', w'). (rc, out, the db', w')) (qdb_pop w (Some db) q (Some blank_msg))"
| "run_call PopAny w db = map_option (\<lambda>(rc, out, db', w'). (rc, out, the db', w')) (qdb_pop_any w (Some db) (Some blank_msg))"
| "run_call (Ack k lid) w db = map_option (\<lambda>(rc, db', w'). (rc, None, the db', w')) (qdb_ack w (Some db) k lid)"
| "run_call (Nack k lid) w db = map_option (\<lambda>(rc, db', w'). (rc, None, the db', w')) (qdb_nack w (Some db) k lid)"
| "run_call Expire w db = map_option (\<lambda>(rc, db', w'). (rc, None, the db', w')) (qdb_process_expired_leases w (Some db))"

text \<open>The caller's part: a data pointer points to at least \<open>len\<close> bytes.\<close>

fun call_ok :: "call \<Rightarrow> bool" where
  "call_ok (Push q data len) = (case data of Some bs \<Rightarrow> len \<le> length bs | None \<Rightarrow> True)"
| "call_ok _ = True"

text \<open>Far enough from the limits of the counters and of the file offset for one more call.\<close>

definition small :: "db \<Rightarrow> bool" where
  "small db \<longleftrightarrow> unat (db_next_msg_id db) < 2 ^ 32 \<and> unat (db_next_lease_id db) < 2 ^ 63 \<and> unat (db_log_end_offset db) < 2 ^ 62"

lemma run_call_eq:
  "run_call (Push q data len) w db = map_option (\<lambda>(rc, s). (rc, None, s)) (push_db w db q data len)"
  "run_call (Ack k lid) w db = map_option (\<lambda>(rc, s). (rc, None, s)) (ack_db w db k lid)"
  "run_call (Nack k lid) w db = map_option (\<lambda>(rc, s). (rc, None, s)) (nack_db w db k lid)"
  by (simp_all add: qdb_push_def qdb_ack_def qdb_nack_def option.map_comp comp_def split_def)

lemma msgs_few:
  assumes "db_ok w db i rs st A"
  shows "card (dom (a_msgs A)) < unat (db_next_msg_id db)"
proof -
  note D = db_okD [OF assms]
  have "unat ` dom (a_msgs A) \<subseteq> {1..<unat (db_next_msg_id db)}"
  proof
    fix x assume "x \<in> unat ` dom (a_msgs A)"
    then obtain k where k: "x = unat k" "a_msgs A k \<noteq> None" by auto
    then have "qdb__msg_get st k \<noteq> None" using absRD(8) [OF D(13), of k] by auto
    then have "k < db_next_msg_id db" by (rule db_ok_below [OF assms])
    moreover have "k \<noteq> 0" using k(2) ainvD(3) [OF absRD(1) [OF D(13)]] by auto
    ultimately show "x \<in> {1..<unat (db_next_msg_id db)}" using k(1) by (simp add: word_less_nat_alt unat_gt_0 Suc_le_eq)
  qed
  from card_mono [OF _ this] have "card (unat ` dom (a_msgs A)) \<le> unat (db_next_msg_id db) - 1" by simp
  moreover have "card (unat ` dom (a_msgs A)) = card (dom (a_msgs A))" by (rule card_image) (simp add: inj_on_def word_unat_eq_iff)
  moreover have "0 < unat (db_next_msg_id db)" using D(8) by (simp add: unat_gt_0)
  ultimately show ?thesis by linarith
qed

lemma smallD:
  assumes "db_ok w db i rs st A" and "small db"
  shows "room db" "db_next_msg_id db + 1 \<noteq> 0" "db_next_lease_id db + 1 \<noteq> 0" "length (a_pending A n) < 2 ^ 32"
    "unat (db_log_end_offset db) + 26 * card (a_leases A) + 2 ^ 27 < 2 ^ 63"
proof -
  note inv = absRD(1) [OF db_okD(13) [OF assms(1)]]
  have few: "card X < 2 ^ 32" if "X \<subseteq> dom (a_msgs A)" for X
    using card_mono [OF ainvD(1) [OF inv] that] msgs_few [OF assms(1)] assms(2) by (simp add: small_def)
  show "room db" using assms(2) by (simp add: room_def small_def)
  have ne: "x + 1 \<noteq> 0" if "unat x < 2 ^ 63" for x :: u64
  proof -
    have "unat (x + of_nat 1) = unat x + 1" using that by (intro wf_offset) simp
    then show ?thesis by auto
  qed
  show "db_next_msg_id db + 1 \<noteq> 0" "db_next_lease_id db + 1 \<noteq> 0" using assms(2) by (auto intro!: ne simp: small_def)
  have "set (a_pending A n) \<subseteq> dom (a_msgs A)" "a_leases A \<subseteq> dom (a_msgs A)" using ainvD(7) [OF inv, of n] by (auto simp: a_with_def a_leases_def)
  note f = this [THEN few]
  show "length (a_pending A n) < 2 ^ 32" using f(1) distinct_card [OF ainvD(6) [OF inv, of n]] by simp
  show "unat (db_log_end_offset db) + 26 * card (a_leases A) + 2 ^ 27 < 2 ^ 63" using f(2) assms(2) by (simp add: small_def)
qed

section \<open>Events and traces\<close>

datatype event = Called call int "qdb_msg_t option" | Ticked u64

inductive trace :: "('s \<Rightarrow> 'e \<Rightarrow> 's \<Rightarrow> bool) \<Rightarrow> 's \<Rightarrow> 'e list \<Rightarrow> 's \<Rightarrow> bool" for step where
  nothing: "trace step s [] s"
| more: "step s e s1 \<Longrightarrow> trace step s1 es s2 \<Longrightarrow> trace step s (e # es) s2"

lemma trace_append: "trace step s es s1 \<Longrightarrow> trace step s1 es' s2 \<Longrightarrow> trace step s (es @ es') s2"
  by (induction rule: trace.induct) (auto intro: trace.more)

lemma trace_last: "trace step s es s1 \<Longrightarrow> step s1 e s2 \<Longrightarrow> trace step s (es @ [e]) s2"
  by (erule trace_append) (blast intro: trace.intros)

text \<open>A system each of whose steps is a step of a specification with the same event.\<close>

locale trace_refinement =
  fixes step :: "'s \<Rightarrow> 'e \<Rightarrow> 's \<Rightarrow> bool" and spec :: "'a \<Rightarrow> 'e \<Rightarrow> 'a \<Rightarrow> bool" and rel :: "'s \<Rightarrow> 'a \<Rightarrow> bool"
  assumes sim: "rel s a \<Longrightarrow> step s e s' \<Longrightarrow> \<exists>a'. spec a e a' \<and> rel s' a'"
begin

lemma traces:
  assumes "trace step s es s'" and "rel s a"
  shows "\<exists>a'. trace spec a es a' \<and> rel s' a'"
  using assms
proof (induction arbitrary: a rule: trace.induct)
  case (nothing s)
  from trace.nothing this show ?case by (intro exI conjI)
next
  case (more s e s1 es s2)
  obtain a1 where 1: "spec a e a1" "rel s1 a1" using sim [OF more.prems more.hyps(1)] by (elim exE conjE)
  obtain a2 where "trace spec a1 es a2" "rel s2 a2" using more.IH [OF 1(2)] by (elim exE conjE)
  with trace.more [where step = spec, OF 1(1)] show ?case by (intro exI conjI)
qed

end

section \<open>The specification\<close>

record aqueue =
  q_state :: astate
  q_body :: "u64 \<Rightarrow> bytes"
  q_next_msg :: u64
  q_next_lease :: u64
  q_now :: u64
  q_timeout :: u64

definition name_arg :: "bytes option \<Rightarrow> bytes option" where
  "name_arg q = (case q of None \<Rightarrow> None | Some q \<Rightarrow> let n = take (strlen q) q in if name_ok n then Some n else None)"

definition data_arg :: "bytes option \<Rightarrow> nat \<Rightarrow> bytes option" where
  "data_arg data len = (if len > QDB_MSG_MAX_LEN then None else if len = 0 then Some [] else map_option (take len) data)"

text \<open>The message structure a caller gets for message \<open>k\<close>, and the state with \<open>k\<close> leased to it.\<close>

definition hand_out :: "aqueue \<Rightarrow> u64 \<Rightarrow> qdb_msg_t" where
  "hand_out S k = \<lparr>om_id = k, om_lease_id = q_next_lease S, om_queue = map_option am_queue (a_msgs (q_state S) k),
     om_data = (if q_body S k = [] then None else Some (q_body S k)), om_len = length (q_body S k),
     om_retry_count = am_retry (the (a_msgs (q_state S) k))\<rparr>"

definition lend :: "aqueue \<Rightarrow> u64 \<Rightarrow> aqueue" where
  "lend S k = S\<lparr>q_state := a_lease k (q_next_lease S) (q_now S + q_timeout S) (q_state S), q_next_lease := q_next_lease S + 1\<rparr>"

definition current_lease :: "aqueue \<Rightarrow> u64 \<Rightarrow> u64 \<Rightarrow> bool" where
  "current_lease S k lid \<longleftrightarrow> (\<exists>am e. a_msgs (q_state S) k = Some am \<and> am_status am = ALeased lid e)"

text \<open>
  What each call returns and does.  The place of a pushed message in the file (\<open>off\<close>) and the order
  in which one expiry returns messages to a queue are the implementation's.
\<close>

inductive q_event :: "aqueue \<Rightarrow> event \<Rightarrow> aqueue \<Rightarrow> bool" where
  push: "name_arg q = Some n \<Longrightarrow> data_arg data len = Some d \<Longrightarrow>
    q_event S (Called (Push q data len) QDB_OK None)
      (S\<lparr>q_state := a_push (q_next_msg S) n off (of_nat (length d)) (q_state S),
         q_body := (q_body S)(q_next_msg S := d), q_next_msg := q_next_msg S + 1\<rparr>)"
| push_refused: "name_arg q = None \<or> data_arg data len = None \<Longrightarrow> q_event S (Called (Push q data len) QDB_ERR_INVAL None) S"
| pop: "name_arg q = Some n \<Longrightarrow> a_pending (q_state S) n = k # ks \<Longrightarrow>
    q_event S (Called (Pop q) QDB_OK (Some (hand_out S k))) (lend S k)"
| pop_nothing: "name_arg q = Some n \<Longrightarrow> a_pending (q_state S) n = [] \<Longrightarrow>
    q_event S (Called (Pop q) QDB_ERR_EMPTY (Some blank_msg)) S"
| pop_refused: "name_arg q = None \<Longrightarrow> q_event S (Called (Pop q) QDB_ERR_INVAL (Some blank_msg)) S"
| pop_any: "a_pending (q_state S) n = k # ks \<Longrightarrow> (\<forall>n' k' ks'. a_pending (q_state S) n' = k' # ks' \<longrightarrow> k \<le> k') \<Longrightarrow>
    q_event S (Called PopAny QDB_OK (Some (hand_out S k))) (lend S k)"
| pop_any_nothing: "(\<forall>n. a_pending (q_state S) n = []) \<Longrightarrow> q_event S (Called PopAny QDB_ERR_EMPTY (Some blank_msg)) S"
| ack: "current_lease S k lid \<Longrightarrow> q_event S (Called (Ack k lid) QDB_OK None) (S\<lparr>q_state := a_ack k (q_state S)\<rparr>)"
| nack: "current_lease S k lid \<Longrightarrow> q_event S (Called (Nack k lid) QDB_OK None) (S\<lparr>q_state := a_return k (q_state S)\<rparr>)"
| stale: "\<not> current_lease S k lid \<Longrightarrow> c = Ack k lid \<or> c = Nack k lid \<Longrightarrow>
    q_event S (Called c (if k \<in> a_leases (q_state S) then QDB_ERR_INVAL else QDB_ERR_NOENT) None) S"
| expire: "returned (overdue_msgs (q_now S) (q_state S)) (q_state S) A' \<Longrightarrow>
    q_event S (Called Expire (signed_take_bit 31 (int (card (overdue_msgs (q_now S) (q_state S))))) None) (S\<lparr>q_state := A'\<rparr>)"
| tick: "q_event S (Ticked t) (S\<lparr>q_now := t\<rparr>)"

section \<open>The state a database stands for\<close>

text \<open>The bytes of message \<open>k\<close> in the log.\<close>

definition log_body :: "(u8 \<times> bytes) list \<Rightarrow> u64 \<Rightarrow> bytes" where
  "log_body rs k = (case filter (\<lambda>r. qdb__get_u64le (snd r) = k) (pushes rs) of
     [] \<Rightarrow> [] | r # _ \<Rightarrow> drop (9 + unat (snd r ! 8)) (snd r))"

definition abs_q :: "world \<Rightarrow> db \<Rightarrow> (u8 \<times> bytes) list \<Rightarrow> astate \<Rightarrow> aqueue" where
  "abs_q w db rs A = \<lparr>q_state = A, q_body = log_body rs, q_next_msg = db_next_msg_id db, q_next_lease = db_next_lease_id db,
     q_now = qdb__time_us w, q_timeout = db_lease_timeout_us db\<rparr>"

lemma abs_q_simps [simp]:
  "q_state (abs_q w db rs A) = A" "q_body (abs_q w db rs A) = log_body rs" "q_next_msg (abs_q w db rs A) = db_next_msg_id db"
  "q_next_lease (abs_q w db rs A) = db_next_lease_id db" "q_now (abs_q w db rs A) = qdb__time_us w"
  "q_timeout (abs_q w db rs A) = db_lease_timeout_us db"
  by (simp_all add: abs_q_def)

lemma abs_q_later: "later w db rs w' db' rs' \<Longrightarrow> abs_q w' db' rs' A' = (abs_q w db rs A)\<lparr>q_state := A'\<rparr>"
  by (simp add: abs_q_def later_def qdb__time_us_def fun_eq_iff) (simp add: log_body_def)

text \<open>A log that replays holds one push record for a message, so the bytes are those pushed.\<close>

lemma replayed_once:
  assumes "absR st0 A0" and "rec_fold off rs (nm, nl, st0) = Inr s" and "qdb__msg_get st0 k \<noteq> None"
    and "r \<in> set (pushes rs)"
  shows "qdb__get_u64le (snd r) \<noteq> k"
  using assms
proof (induction rs arbitrary: off nm nl st0 A0)
  case (Cons a rs)
  obtain t p where a: "a = (t, p)" by fastforce
  from Cons.prems(2) obtain nm1 nl1 st1 where
    1: "rec_apply (off + 9) t p (nm, nl, st0) = Inr (nm1, nl1, st1)"
    "rec_fold (off + of_nat (10 + length p)) rs (nm1, nl1, st1) = Inr s" by (auto simp: a split: sum.splits)
  note R = rec_apply_absR [OF Cons.prems(1) 1(1)]
  have "a_msgs A0 k \<noteq> None" using Cons.prems(3) absRD(8) [OF Cons.prems(1), of k] by auto
  then have "a_msgs (a_rec (off + 9) t p A0) k \<noteq> None"
    by (auto simp: a_rec_def a_push_def a_lease_def a_ack_def a_return_def split: option.splits)
  then have k: "qdb__msg_get st1 k \<noteq> None" using absRD(8) [OF R, of k] by auto
  have "qdb__get_u64le p \<noteq> k" if "t = QDB_RT_MSG_PUSH"
    using 1(1) that Cons.prems(3) by (auto simp: rec_apply_def rec_push_def Let_def split: if_splits option.splits)
  then show ?case using Cons.IH [OF R 1(2) k] Cons.prems(4) by (auto simp: a pushes_def split: if_splits)
qed (simp add: pushes_def)

lemma log_body_pushed:
  assumes "absR st0 A0" and "rec_fold off rs (nm, nl, st0) = Inr s" and "pushed rs k n d" and "name_ok n"
  shows "log_body rs k = d"
  using assms
proof (induction rs arbitrary: off nm nl st0 A0)
  case (Cons a rs)
  obtain t p where a: "a = (t, p)" by fastforce
  from Cons.prems(2) obtain nm1 nl1 st1 where
    1: "rec_apply (off + 9) t p (nm, nl, st0) = Inr (nm1, nl1, st1)"
    "rec_fold (off + of_nat (10 + length p)) rs (nm1, nl1, st1) = Inr s" by (auto simp: a split: sum.splits)
  note R = rec_apply_absR [OF Cons.prems(1) 1(1)]
  note f = push_buf_fields [OF Cons.prems(4)]
  show ?case
  proof (cases "t = QDB_RT_MSG_PUSH \<and> qdb__get_u64le p = k")
    case True
    then have "a_msgs (a_rec (off + 9) t p A0) k \<noteq> None" by (simp add: a_rec_def a_push_def)
    then have "qdb__msg_get st1 k \<noteq> None" using absRD(8) [OF R, of k] by auto
    from replayed_once [OF R 1(2) this] have "\<not> pushed rs k n d"
      using f(1) [of k d] by (auto simp: pushed_def pushes_def)
    then have "p = push_buf k n d" using Cons.prems(3) by (auto simp: pushed_def a)
    then show ?thesis using True f [of k d] by (simp add: log_body_def pushes_def a push_buf_def)
  next
    case False
    then have "pushed rs k n d" using Cons.prems(3) f(1) [of k d] by (auto simp: pushed_def a)
    from Cons.IH [OF R 1(2) this Cons.prems(4)] False show ?thesis by (auto simp: log_body_def pushes_def a)
  qed
qed (simp add: pushed_def)

lemma db_ok_body:
  assumes "db_ok w db i rs st A" and "pushed rs k n d" and "name_ok n"
  shows "log_body rs k = d"
  by (rule log_body_pushed [OF absR_empty db_okD(11) [OF assms(1)] assms(2,3)])

lemma log_body_other: "fst r \<noteq> QDB_RT_MSG_PUSH \<Longrightarrow> log_body (rs @ [r]) = log_body rs"
  by (simp add: log_body_def pushes_def fun_eq_iff)

lemma log_body_push:
  assumes "fresh rs k" and "name_ok n"
  shows "log_body (rs @ [(QDB_RT_MSG_PUSH, push_buf k n d)]) = (log_body rs)(k := d)"
proof
  fix j
  note f = push_buf_fields [OF assms(2)]
  have "filter (\<lambda>r. qdb__get_u64le (snd r) = k) (pushes rs) = []"
    using assms(1) by (auto simp: fresh_def pushes_def filter_empty_conv)
  moreover have "drop (9 + unat (push_buf k n d ! 8)) (push_buf k n d) = d" unfolding f(4) by (simp add: push_buf_def)
  ultimately show "log_body (rs @ [(QDB_RT_MSG_PUSH, push_buf k n d)]) j = ((log_body rs)(k := d)) j"
    using f(1) [of k d] by (auto simp: log_body_def pushes_def split: list.split)
qed

end
