(* ===== verification/Api.thy ===== *)
theory Api
  imports Events
begin

text \<open>
  Whole runs of the interface.  Every call without failures is an event of the specification
  \<open>q_event\<close> (arguments, return code and message structure included), so runs refine it trace by
  trace.  A second specification \<open>a_step\<close> forgets the events; what its steps keep, a run of the
  database keeps.
\<close>

section \<open>Steps of the specification\<close>

inductive a_step :: "astate \<Rightarrow> astate \<Rightarrow> bool" where
  push: "a_msgs A k = None \<Longrightarrow> k \<noteq> 0 \<Longrightarrow> name_ok n \<Longrightarrow> a_step A (a_push k n off len A)"
| lease: "a_pending A n = k # ks \<Longrightarrow> lid \<noteq> 0 \<Longrightarrow> (\<forall>k' am e'. a_msgs A k' = Some am \<longrightarrow> am_status am \<noteq> ALeased lid e') \<Longrightarrow>
    a_step A (a_lease k lid e A)"
| ack: "a_msgs A k = Some am \<Longrightarrow> am_status am = ALeased lid e \<Longrightarrow> a_step A (a_ack k A)"
| giveback: "a_msgs A k = Some am \<Longrightarrow> am_status am = ALeased lid e \<Longrightarrow> a_step A (a_return k A)"

inductive_cases a_stepE: "a_step A A'"

text \<open>What no step of the specification takes away from a message.\<close>

definition keeps :: "astate \<Rightarrow> astate \<Rightarrow> bool" where
  "keeps A A' \<longleftrightarrow> (\<forall>k am. a_msgs A k = Some am \<longrightarrow> (\<exists>am'. a_msgs A' k = Some am' \<and> am_queue am' = am_queue am \<and>
     am_len am' = am_len am \<and> am_off am' = am_off am \<and> (am_status am = AAcked \<longrightarrow> am' = am)))"

lemma keeps_refl: "keeps A A"
  by (simp add: keeps_def)

lemma keepsE:
  assumes "keeps A A'" and "a_msgs A k = Some am"
  obtains am' where "a_msgs A' k = Some am'" "am_queue am' = am_queue am" "am_len am' = am_len am" "am_off am' = am_off am"
    "am_status am = AAcked \<longrightarrow> am' = am"
  using assms unfolding keeps_def by blast

lemma keeps_trans:
  assumes "keeps A B" and "keeps B C"
  shows "keeps A C"
  unfolding keeps_def
proof (intro allI impI)
  fix k am assume "a_msgs A k = Some am"
  then obtain am1 where 1: "a_msgs B k = Some am1" "am_queue am1 = am_queue am" "am_len am1 = am_len am" "am_off am1 = am_off am"
    "am_status am = AAcked \<longrightarrow> am1 = am" by (rule keepsE [OF assms(1)])
  obtain am2 where "a_msgs C k = Some am2" "am_queue am2 = am_queue am1" "am_len am2 = am_len am1" "am_off am2 = am_off am1"
    "am_status am1 = AAcked \<longrightarrow> am2 = am1" by (rule keepsE [OF assms(2) 1(1)])
  then show "\<exists>am'. a_msgs C k = Some am' \<and> am_queue am' = am_queue am \<and> am_len am' = am_len am \<and> am_off am' = am_off am \<and>
      (am_status am = AAcked \<longrightarrow> am' = am)" using 1 by auto
qed

lemma a_step_keeps:
  assumes "ainv A" and "a_step A A'"
  shows "keeps A A'"
  using assms(2)
proof (cases rule: a_step.cases)
  case (lease n k ks lid e)
  then have "k \<in> set (a_pending A n)" by simp
  then obtain am where "a_msgs A k = Some am" "am_status am = APending" by (rule pending_queue [OF assms(1)])
  then show ?thesis by (auto simp: keeps_def a_lease_def lease)
qed (auto simp: keeps_def a_push_def a_ack_def a_return_def)

lemma a_step_ainv:
  assumes inv: "ainv A" and "a_step A A'"
  shows "ainv A'"
  using assms(2)
proof (cases rule: a_step.cases)
  case (push k n off len)
  then show ?thesis using ainv_push [OF inv] by simp
next
  case (lease n k ks lid e)
  then have "k \<in> set (a_pending A n)" by simp
  then obtain am where am: "a_msgs A k = Some am" "am_status am = APending" by (rule pending_queue [OF inv])
  show ?thesis unfolding lease(1) by (rule ainv_lease [OF inv am]) (use lease in auto)
next
  case (ack k am lid e)
  then show ?thesis using ainv_ack [OF inv] by simp
next
  case (giveback k am lid e)
  then show ?thesis using ainv_return [OF inv] by simp
qed

section \<open>Simulations\<close>

text \<open>
  A system whose steps are matched by steps of a specification.  What the specification keeps (a
  preorder that its steps from good states respect) is kept by runs of the system.
\<close>

locale simulation =
  fixes step :: "'s \<Rightarrow> 's \<Rightarrow> bool" and spec :: "'a \<Rightarrow> 'a \<Rightarrow> bool" and rel :: "'s \<Rightarrow> 'a \<Rightarrow> bool" and good :: "'a \<Rightarrow> bool"
  assumes sim: "rel s a \<Longrightarrow> step s s' \<Longrightarrow> \<exists>a'. spec\<^sup>*\<^sup>* a a' \<and> rel s' a'"
    and rel_good: "rel s a \<Longrightarrow> good a"
    and spec_good: "good a \<Longrightarrow> spec a a' \<Longrightarrow> good a'"
begin

lemma run:
  assumes "step\<^sup>*\<^sup>* s s'" and "rel s a"
  shows "\<exists>a'. spec\<^sup>*\<^sup>* a a' \<and> rel s' a'"
  using assms
proof (induction rule: rtranclp_induct)
  case (step s1 s2)
  then show ?case using sim by (meson rtranclp_trans)
qed auto

lemma spec_run_good: "spec\<^sup>*\<^sup>* a a' \<Longrightarrow> good a \<Longrightarrow> good a'"
  by (induction rule: rtranclp_induct) (auto intro: spec_good)

lemma run_keeps:
  assumes "step\<^sup>*\<^sup>* s s'" and "rel s a" and refl: "\<And>a. P a a" and trans: "\<And>a b c. P a b \<Longrightarrow> P b c \<Longrightarrow> P a c"
    and keep: "\<And>a a'. good a \<Longrightarrow> spec a a' \<Longrightarrow> P a a'"
  shows "\<exists>a'. rel s' a' \<and> good a' \<and> P a a'"
proof -
  from run [OF assms(1,2)] obtain a' where a': "spec\<^sup>*\<^sup>* a a'" "rel s' a'" by blast
  have "good b \<longrightarrow> P b c" if "spec\<^sup>*\<^sup>* b c" for b c
    using that
  proof (induction rule: rtranclp_induct)
    case (step c d)
    then show ?case using trans keep spec_run_good by meson
  qed (simp add: refl)
  with a' show ?thesis using rel_good assms(2) by blast
qed

end

section \<open>Steps of the database\<close>

text \<open>One call, or time passing; as an event, and without it.\<close>

inductive api_event :: "world \<times> db \<Rightarrow> event \<Rightarrow> world \<times> db \<Rightarrow> bool" where
  call: "small db \<Longrightarrow> call_ok c \<Longrightarrow> run_call c w db = Some (rc, out, db', w') \<Longrightarrow> api_event (w, db) (Called c rc out) (w', db')"
| tick: "w' = w\<lparr>w_clock := t\<rparr> \<Longrightarrow> api_event (w, db) (Ticked (qdb__time_us w')) (w', db)"

inductive api_step :: "world \<times> db \<Rightarrow> world \<times> db \<Rightarrow> bool" where
  call: "small db \<Longrightarrow> call_ok c \<Longrightarrow> run_call c w db = Some (rc, out, db', w') \<Longrightarrow> api_step (w, db) (w', db')"
| tick: "api_step (w, db) (w\<lparr>w_clock := t\<rparr>, db)"

inductive_cases api_stepE: "api_step (w, db) s"
inductive_cases api_eventE: "api_event s e s'"

lemma api_event_step: "api_event s e s' \<Longrightarrow> api_step s s'"
  by (cases rule: api_event.cases) (auto intro: api_step.intros)

lemma api_trace_run: "trace api_event s es s' \<Longrightarrow> api_step\<^sup>*\<^sup>* s s'"
  by (induction rule: trace.induct) (auto dest: api_event_step intro: converse_rtranclp_into_rtranclp)

fun api_rel :: "world \<times> db \<Rightarrow> astate \<Rightarrow> bool" where
  "api_rel (w, db) A \<longleftrightarrow> calm w \<and> (\<exists>i rs st. db_ok w db i rs st A)"

lemma api_relI: "calm w \<Longrightarrow> db_ok w db i rs st A \<Longrightarrow> api_rel (w, db) A"
  by auto

fun event_rel :: "world \<times> db \<Rightarrow> aqueue \<Rightarrow> bool" where
  "event_rel (w, db) S \<longleftrightarrow> calm w \<and> (\<exists>i rs st A. db_ok w db i rs st A \<and> S = abs_q w db rs A)"

section \<open>Every call is an event of the specification\<close>

text \<open>The result of a call in a run without failures.\<close>

definition implements :: "world \<Rightarrow> db \<Rightarrow> (u8 \<times> bytes) list \<Rightarrow> astate \<Rightarrow> call \<Rightarrow> bool" where
  "implements w db rs A c \<longleftrightarrow> (\<exists>rc out db' w' i' rs' st' A'. run_call c w db = Some (rc, out, db', w') \<and>
     a_step\<^sup>*\<^sup>* A A' \<and> calm w' \<and> db_ok w' db' i' rs' st' A' \<and>
     q_event (abs_q w db rs A) (Called c rc out) (abs_q w' db' rs' A'))"

lemma implementsI:
  assumes "run_call c w db = Some (rc, out, db', w')" and "db_ok w' db' i' rs' st' A'" and "calm w'" and "a_step\<^sup>*\<^sup>* A A'"
    and "q_event (abs_q w db rs A) (Called c rc out) S'" and "abs_q w' db' rs' A' = S'"
  shows "implements w db rs A c"
  using assms unfolding implements_def by blast

lemma implements_refuse:
  assumes "db_ok w db i rs st A" and "calm w" and "run_call c w db = Some (rc, out, db, w)"
    and "q_event (abs_q w db rs A) (Called c rc out) (abs_q w db rs A)"
  shows "implements w db rs A c"
  by (rule implementsI [OF assms(3,1,2) _ assms(4) refl]) simp

lemma name_ok_strlen: "name_ok (take (strlen x) x) \<longleftrightarrow> \<not> (strlen x = 0 \<or> strlen x > QDB_QUEUE_NAME_MAX)"
proof -
  have "strlen x \<le> length x" by (simp add: strlen_def length_takeWhile_le)
  then show ?thesis by (auto simp: name_ok_def min_absorb2)
qed

lemma name_argE:
  assumes "name_arg q = Some n"
  obtains qn where "q = Some qn" "n = take (strlen qn) qn" "name_ok n"
  using assms that by (auto simp: name_arg_def Let_def split: option.splits if_splits)

lemma data_argE:
  assumes "data_arg data len = Some d" and "call_ok (Push q data len)"
  shows "d = (if len > 0 then take len (the data) else [])" "length d = len" "len \<le> QDB_MSG_MAX_LEN" "len > 0 \<Longrightarrow> data \<noteq> None"
  using assms by (auto simp: data_arg_def split: if_splits)

lemma push_refused:
  assumes "name_arg q = None \<or> data_arg data len = None"
  shows "push_db w db q data len = Some (QDB_ERR_INVAL, db, w)"
  using assms unfolding push_db_def name_arg_def data_arg_def Let_def name_ok_strlen
  by (auto split: option.splits if_splits)

lemma push_implements:
  assumes ok: "db_ok w db i rs st A" and c: "calm w" and sm: "small db" and len: "call_ok (Push q data len)"
  shows "implements w db rs A (Push q data len)"
proof (cases "name_arg q = None \<or> data_arg data len = None")
  case True
  show ?thesis
    by (rule implements_refuse [OF ok c _ q_event.push_refused [OF True]]) (simp only: run_call_eq push_refused [OF True], simp)
next
  case False
  then obtain n d where nd: "name_arg q = Some n" "data_arg data len = Some d" by auto
  then obtain qn where q: "q = Some qn" "n = take (strlen qn) qn" "name_ok n" by (auto elim: name_argE)
  note D = db_okD [OF ok] and d = data_argE [OF nd(2) len]
  let ?k = "db_next_msg_id db" and ?off = "db_log_end_offset db + 18 + of_nat (length n)"
  let ?A = "a_push ?k n ?off (of_nat (length d)) A" and ?rs = "rs @ [(QDB_RT_MSG_PUSH, push_buf ?k n d)]"
  from push_spec [OF ok q(2,3) d smallD(1,2) [OF ok sm]] c obtain db' w' where
    r: "push_db w db (Some qn) data len = Some (QDB_OK, db', w')" "push_outcome w db i rs st A n d (QDB_OK, db', w')" "calm w'"
    by (metis prod.collapse)
  obtain st' where o: "only_file w w' i" "db_ok w' db' i ?rs st' ?A"
    "db' = db\<lparr>db_log_end_offset := db_log_end_offset db', db_next_msg_id := ?k + 1, db_state := Some st'\<rparr>"
    using r(2) unfolding push_outcome_def by (auto simp: Let_def)
  have f: "db_next_msg_id db' = ?k + 1" "db_next_lease_id db' = db_next_lease_id db"
    "db_lease_timeout_us db' = db_lease_timeout_us db" by (subst o(3), simp)+
  have "a_msgs A ?k = None" using db_ok_fresh [OF ok] absRD(8) [OF D(13), of ?k] by simp
  then have "a_step A ?A" using D(8) q(3) by (rule a_step.push)
  moreover have "run_call (Push q data len) w db = Some (QDB_OK, None, db', w')" by (simp only: run_call_eq q(1) r(1), simp)
  moreover have "abs_q w' db' ?rs ?A = (abs_q w db rs A)\<lparr>q_state := ?A, q_body := (log_body rs)(?k := d), q_next_msg := ?k + 1\<rparr>"
    using only_file_simps(6) [OF o(1)] by (simp add: abs_q_def f qdb__time_us_def log_body_push [OF D(7) q(3)])
  ultimately show ?thesis
    using q_event.push [OF nd, of "abs_q w db rs A" ?off] by (intro implementsI [OF _ o(2) r(3)]) auto
qed

lemma pop_outcome_implements:
  assumes ok: "db_ok w db i rs st A" and o: "pop_outcome w db i rs st A k (delivered db k n d (am_retry (the (a_msgs A k)))) out (QDB_OK, out', db', w')"
    and c: "calm w'" and k: "a_pending A n = k # ks" and d: "pushed rs k n d"
    and r: "run_call c w db = Some (QDB_OK, Some out', db', w')"
    and q: "q_event (abs_q w db rs A) (Called c QDB_OK (Some (hand_out (abs_q w db rs A) k))) (lend (abs_q w db rs A) k)"
  shows "implements w db rs A c"
proof -
  note D = db_okD [OF ok]
  let ?e = "qdb__time_us w + db_lease_timeout_us db" and ?lid = "db_next_lease_id db"
  let ?A = "a_lease k ?lid ?e A" and ?rs = "rs @ [(QDB_RT_MSG_LEASE, lease_buf k ?e ?lid)]"
  obtain st' where o': "only_file w w' i" "db_ok w' db' i ?rs st' ?A" "out' = delivered db k n d (am_retry (the (a_msgs A k)))"
    "db' = db\<lparr>db_log_end_offset := db_log_end_offset db', db_next_lease_id := ?lid + 1, db_state := Some st'\<rparr>"
    using o unfolding pop_outcome_def by (auto simp: Let_def)
  have f: "db_next_msg_id db' = db_next_msg_id db" "db_next_lease_id db' = ?lid + 1"
    "db_lease_timeout_us db' = db_lease_timeout_us db" by (subst o'(4), simp)+
  have "\<forall>k' am e'. a_msgs A k' = Some am \<longrightarrow> am_status am \<noteq> ALeased ?lid e'"
    using lease_get_iff [OF D(13), of ?lid] D(10) [of ?lid] by blast
  then have "a_step A ?A" by (rule a_step.lease [OF k D(9)])
  then have st: "a_step\<^sup>*\<^sup>* A ?A" by blast
  have "k \<in> set (a_pending A n)" using k by simp
  then obtain am where am: "a_msgs A k = Some am" "am_queue am = n" "n \<in> a_queues A" by (rule pending_queue [OF absRD(1) [OF D(13)]])
  have "name_ok n" using ainvD(5) [OF absRD(1) [OF D(13)] am(3)] .
  then have out: "hand_out (abs_q w db rs A) k = out'"
    using db_ok_body [OF ok d] am by (simp add: hand_out_def o'(3) delivered_def)
  have "abs_q w' db' ?rs ?A = lend (abs_q w db rs A) k"
    using only_file_simps(6) [OF o'(1)] by (simp add: abs_q_def lend_def f qdb__time_us_def log_body_other)
  then show ?thesis by (rule implementsI [OF r o'(2) c st q [unfolded out]])
qed

lemma pop_implements:
  assumes ok: "db_ok w db i rs st A" and c: "calm w" and sm: "small db"
  shows "implements w db rs A (Pop q)"
proof (cases "name_arg q")
  case None
  then have "pop_db w db q (Some blank_msg) = Some (QDB_ERR_INVAL, Some blank_msg, db, w)"
    unfolding pop_db_def name_arg_def Let_def name_ok_strlen by (auto split: option.splits if_splits)
  then show ?thesis by (intro implements_refuse [OF ok c _ q_event.pop_refused [OF None]]) (simp add: qdb_pop_def)
next
  case (Some n)
  then obtain qn where q: "q = Some qn" "n = take (strlen qn) qn" "name_ok n" by (rule name_argE)
  note P = pop_db_spec [OF ok q(2,3) smallD(1,3,4) [OF ok sm], where out = blank_msg]
  show ?thesis
  proof (cases "a_pending A n")
    case Nil
    then show ?thesis
      using P(1) q_event.pop_nothing [OF Some, of "abs_q w db rs A"]
      by (intro implements_refuse [OF ok c]) (simp_all add: q(1) qdb_pop_def)
  next
    case (Cons k ks)
    from P(2) [OF Cons] c obtain d out' db' w' where r: "pushed rs k n d"
      "pop_db w db (Some qn) (Some blank_msg) = Some (QDB_OK, Some out', db', w')"
      "pop_outcome w db i rs st A k (delivered db k n d (am_retry (the (a_msgs A k)))) blank_msg (QDB_OK, out', db', w')" "calm w'"
      by blast
    have "run_call (Pop q) w db = Some (QDB_OK, Some out', db', w')" using r(2) by (simp add: q(1) qdb_pop_def)
    then show ?thesis
      by (rule pop_outcome_implements [OF ok r(3,4) Cons r(1) _ q_event.pop [OF Some]]) (simp add: Cons)
  qed
qed

lemma pop_any_implements:
  assumes ok: "db_ok w db i rs st A" and c: "calm w" and sm: "small db"
  shows "implements w db rs A PopAny"
proof (cases "\<exists>n0. a_pending A n0 \<noteq> []")
  note P = pop_any_db_spec [OF ok smallD(1,3,4) [OF ok sm], where out = blank_msg]
  case True
  then obtain n0 where "a_pending A n0 \<noteq> []" by blast
  from P(2) [OF this] c obtain n k ks d out' db' w' where
    r: "a_pending A n = k # ks" "\<forall>n' k' ks'. a_pending A n' = k' # ks' \<longrightarrow> k \<le> k'" "pushed rs k n d"
    "pop_any_db w db (Some blank_msg) = Some (QDB_OK, Some out', db', w')"
    "pop_outcome w db i rs st A k (delivered db k n d (am_retry (the (a_msgs A k)))) blank_msg (QDB_OK, out', db', w')" "calm w'"
    by blast
  have "run_call PopAny w db = Some (QDB_OK, Some out', db', w')" using r(4) by (simp add: qdb_pop_any_def)
  then show ?thesis
    by (rule pop_outcome_implements [OF ok r(5,6,1,3) _ q_event.pop_any]) (use r(1,2) in simp_all)
next
  note P = pop_any_db_spec [OF ok smallD(1,3,4) [OF ok sm], where out = blank_msg]
  case False
  then show ?thesis
    using P(1) q_event.pop_any_nothing [of "abs_q w db rs A"]
    by (intro implements_refuse [OF ok c]) (simp_all add: qdb_pop_any_def)
qed

lemma stale_implements:
  assumes ok: "db_ok w db i rs st A" and c: "calm w" and no: "\<nexists>am e. a_msgs A k = Some am \<and> am_status am = ALeased lid e"
  shows "implements w db rs A (Ack k lid)" "implements w db rs A (Nack k lid)"
proof -
  let ?rc = "if k \<in> a_leases A then QDB_ERR_INVAL else QDB_ERR_NOENT"
  have r: "qdb_ack w (Some db) k lid = Some (?rc, Some db, w)" "qdb_nack w (Some db) k lid = Some (?rc, Some db, w)"
    using stale_refused [OF ok no] by (auto simp: a_leases_def)
  have "\<not> current_lease (abs_q w db rs A) k lid" using no by (simp add: current_lease_def)
  note s = q_event.stale [OF this]
  show "implements w db rs A (Ack k lid)" "implements w db rs A (Nack k lid)"
    using s r by (intro implements_refuse [OF ok c, where rc = ?rc and out = None]; simp)+
qed

lemma done_implements:
  assumes ok: "db_ok w db i rs st A" and c: "calm w" and sm: "small db"
  shows "implements w db rs A (Ack k lid)" "implements w db rs A (Nack k lid)"
proof -
  note D = db_okD [OF ok]
  have "implements w db rs A (Ack k lid) \<and> implements w db rs A (Nack k lid)"
  proof (cases "\<exists>am e. a_msgs A k = Some am \<and> am_status am = ALeased lid e")
    case False
    then show ?thesis using stale_implements [OF ok c] by blast
  next
    case True
    then obtain am e where am: "a_msgs A k = Some am" "am_status am = ALeased lid e" by blast
    obtain m where m: "qdb__msg_get st k = Some m" "m_state m = QDB_MSG_STATE_LEASED" "m_lease_id m = lid"
      by (rule leased_msg [OF D(13) am])
    have cur: "current_lease (abs_q w db rs A) k lid" using am by (simp add: current_lease_def)
    have *: "implements w db rs A cl"
      if t: "done_type t" and cl: "run_call cl w db = map_option (\<lambda>(rc, s). (rc, None, s))
          (Some (log_done w db t (done_buf k lid) (st_done t st (m_queue_name m) k lid)))"
        and q: "q_event (abs_q w db rs A) (Called cl QDB_OK None) ((abs_q w db rs A)\<lparr>q_state := a_done t k A\<rparr>)" for t cl
    proof -
      obtain rc db' w' where r: "log_done w db t (done_buf k lid) (st_done t st (m_queue_name m) k lid) = (rc, db', w')" by (metis prod_cases3)
      note L = log_done_spec [OF ok m t smallD(1) [OF ok sm] r]
      have rc: "rc = QDB_OK" "calm w'" using L(2) [OF c] by auto
      obtain st' where o: "db_ok w' db' i (rs @ [(t, done_buf k lid)]) st' (a_done t k A)"
        "later w db rs w' db' (rs @ [(t, done_buf k lid)])" by (rule done_outcome_ok [OF L(1) [unfolded rc(1)] t])
      have "a_step A (a_done t k A)" using a_step.ack [OF am] a_step.giveback [OF am] by (simp add: a_done_def)
      then show ?thesis using cl r rc(1) by (intro implementsI [OF _ o(1) rc(2) _ q abs_q_later [OF o(2)]]) auto
    qed
    show ?thesis
      using * [of QDB_RT_MSG_ACK "Ack k lid"] * [of QDB_RT_MSG_NACK "Nack k lid"] q_event.ack [OF cur] q_event.nack [OF cur]
      by (simp add: run_call_eq done_eq(1,2) [OF D(13,12) m] done_type_def a_done_def del: run_call.simps)
  qed
  then show "implements w db rs A (Ack k lid)" "implements w db rs A (Nack k lid)" by blast+
qed

lemma expired_steps:
  assumes "distinct (map l_msg_id ls)"
    and "\<And>l. l \<in> set ls \<Longrightarrow> \<exists>am lid e. a_msgs A (l_msg_id l) = Some am \<and> am_status am = ALeased lid e"
  shows "a_step\<^sup>*\<^sup>* A (expired now ls A)"
  using assms
proof (induction ls arbitrary: A)
  case (Cons l ls)
  obtain am lid e where am: "a_msgs A (l_msg_id l) = Some am" "am_status am = ALeased lid e" using Cons.prems(2) [of l] by auto
  have new: "l_msg_id l' \<noteq> l_msg_id l" if "l' \<in> set ls" for l' using Cons.prems(1) imageI [OF that, of l_msg_id] by auto
  show ?case
  proof (cases "overdue now l")
    case True
    let ?A = "a_return (l_msg_id l) A"
    have "a_step\<^sup>*\<^sup>* ?A (expired now ls ?A)"
    proof (rule Cons.IH)
      fix l' assume l': "l' \<in> set ls"
      then show "\<exists>am lid e. a_msgs ?A (l_msg_id l') = Some am \<and> am_status am = ALeased lid e"
        using Cons.prems(2) [of l'] new [OF l'] by (simp add: a_return_def am(1))
    qed (use Cons.prems(1) in simp)
    with a_step.giveback [OF am] True show ?thesis by (simp add: converse_rtranclp_into_rtranclp)
  next
    case False
    then show ?thesis using Cons.IH [of A] Cons.prems by simp
  qed
qed simp

lemma expire_implements:
  assumes ok: "db_ok w db i rs st A" and c: "calm w" and sm: "small db"
  shows "implements w db rs A Expire"
proof -
  note D = db_okD [OF ok]
  let ?now = "qdb__time_us w" and ?A = "expired (qdb__time_us w) (lease_nodes st) A"
  obtain db' w' rs' st' where
    r: "qdb_process_expired_leases w (Some db) = Some (signed_take_bit 31 (int (card (overdue_msgs ?now A))), Some db', w')"
    "db_ok w' db' i rs' st' ?A" "calm w'" "later w db rs w' db' rs'" by (rule expire_call [OF ok c smallD(5) [OF ok sm]])
  have "a_step\<^sup>*\<^sup>* A ?A"
  proof (rule expired_steps [OF lease_nodes_msgs(1) [OF D(13)]])
    fix l assume "l \<in> set (lease_nodes st)"
    then have l: "qdb__lease_get st (l_lease_id l) = Some l" using lt.nodes_get [OF absRD(7) [OF D(13)]] by blast
    show "\<exists>am lid e. a_msgs A (l_msg_id l) = Some am \<and> am_status am = ALeased lid e"
      by (rule lease_node_msg [OF D(13) l]) blast
  qed
  moreover have "run_call Expire w db = Some (signed_take_bit 31 (int (card (overdue_msgs ?now A))), None, db', w')" using r(1) by simp
  ultimately show ?thesis
    using q_event.expire [of "abs_q w db rs A" ?A] expired_returned(1) [OF D(13), of ?now]
    by (intro implementsI [OF _ r(2,3) _ _ abs_q_later [OF r(4), where A = A]]) simp_all
qed

lemma call_implements:
  assumes ok: "db_ok w db i rs st A" and c: "calm w" and "small db" and "call_ok cl"
  shows "implements w db rs A cl"
  by (cases cl) (use assms push_implements [OF ok c] pop_implements [OF ok c] pop_any_implements [OF ok c] done_implements [OF ok c]
      expire_implements [OF ok c] in \<open>simp_all only:\<close>)

lemma tick_ok:
  assumes "db_ok w db i rs st A" and "calm w"
  shows "db_ok (w\<lparr>w_clock := t\<rparr>) db i rs st A" "calm (w\<lparr>w_clock := t\<rparr>)"
  using db_ok_frame [OF assms(1)] assms(2) by (simp_all add: calm_def)

interpretation qdb: simulation api_step a_step api_rel ainv
proof
  fix s A s' assume rel: "api_rel s A" and st: "api_step s s'"
  from st show "\<exists>A'. a_step\<^sup>*\<^sup>* A A' \<and> api_rel s' A'"
  proof (cases rule: api_step.cases)
    case (call db c w rc out db' w')
    obtain i rs st where "db_ok w db i rs st A" "calm w" using rel call(1) by auto
    from call_implements [OF this call(3,4)] show ?thesis unfolding implements_def by (auto simp: call)
  next
    case (tick w db t)
    obtain i rs st where "db_ok w db i rs st A" "calm w" using rel tick(1) by auto
    from tick_ok [OF this] have "api_rel s' A" unfolding tick(2) by (intro api_relI)
    then show ?thesis by blast
  qed
next
  fix s A assume "api_rel s A"
  then show "ainv A" by (cases s) (auto dest: db_okD(13) absRD(1))
next
  fix A A' assume "ainv A" and "a_step A A'"
  then show "ainv A'" by (rule a_step_ainv)
qed

interpretation qdb_traces: trace_refinement api_event q_event event_rel
proof
  fix s S e s' assume rel: "event_rel s S" and st: "api_event s e s'"
  from st show "\<exists>S'. q_event S e S' \<and> event_rel s' S'"
  proof (cases rule: api_event.cases)
    case (call db c w rc out db' w')
    obtain i rs st A where o: "db_ok w db i rs st A" "calm w" "S = abs_q w db rs A" using rel call(1) by auto
    from call_implements [OF o(1,2) call(4,5)] obtain i' rs' st' A' where
      "calm w'" "db_ok w' db' i' rs' st' A'" "q_event S e (abs_q w' db' rs' A')"
      unfolding implements_def o(3) call(2,6) by auto
    then show ?thesis unfolding call(3) event_rel.simps by blast
  next
    case (tick w' t w db)
    obtain i rs st A where o: "db_ok w db i rs st A" "calm w" "S = abs_q w db rs A" using rel tick(1) by auto
    have "abs_q w' db rs A = S\<lparr>q_now := qdb__time_us w'\<rparr>" by (simp add: o(3) abs_q_def)
    then have "q_event S e (abs_q w' db rs A)" using q_event.tick [of S "qdb__time_us w'"] tick(2) by simp
    moreover have "calm w'" "db_ok w' db i rs st A" using tick_ok [OF o(1,2), of t] tick(4) by simp_all
    ultimately show ?thesis unfolding tick(3) event_rel.simps by blast
  qed
qed

section \<open>Runs\<close>

text \<open>
  Theorem C1.  Refinement of traces: every run of calls of the interface, of any length and with any
  arguments, in which nothing fails and the counters stay away from their limits, is a run of the
  queue specification with the same events.  So each call returns the code, hands out the message
  (id, lease, queue, bytes, retry count) and changes the messages, the pending sequences and the
  counters as the specification says, and the database the run ends in stands for the state the
  specification ends in; from there every call returns again.
\<close>

theorem api_refines_spec:
  assumes "db_ok w db i rs st A" and "calm w" and "trace api_event (w, db) es (w', db')"
  shows "\<exists>i' rs' st' A'. trace q_event (abs_q w db rs A) es (abs_q w' db' rs' A') \<and> calm w' \<and> db_ok w' db' i' rs' st' A' \<and>
    (\<forall>c. small db' \<longrightarrow> call_ok c \<longrightarrow> (\<exists>rc out s. api_event (w', db') (Called c rc out) s))"
proof -
  have "event_rel (w, db) (abs_q w db rs A)" using assms(1,2) by auto
  from qdb_traces.traces [OF assms(3) this] obtain i' rs' st' A' where
    r: "trace q_event (abs_q w db rs A) es (abs_q w' db' rs' A')" "calm w'" "db_ok w' db' i' rs' st' A'" by auto
  have "\<exists>rc out s. api_event (w', db') (Called c rc out) s" if "small db'" "call_ok c" for c
    using call_implements [OF r(3,2) that] that unfolding implements_def by (blast intro: api_event.call)
  with r show ?thesis by blast
qed

text \<open>A run: push a message, then pop it.\<close>

abbreviation (input) push_event :: event where
  "push_event \<equiv> Called (Push (Some [106]) (Some [1, 2]) 2) QDB_OK None"

abbreviation (input) pop_event :: event where
  "pop_event \<equiv> Called (Pop (Some [106])) QDB_OK (Some \<lparr>om_id = 1, om_lease_id = 1, om_queue = Some [106],
     om_data = Some [1, 2], om_len = 2, om_retry_count = 0\<rparr>)"

lemma run_push: "api_event (new_world [], new_db) push_event (one_world, one_db)"
proof -
  have s: "small new_db" by (simp add: small_def)
  have "run_call (Push (Some [106]) (Some [1, 2]) 2) (new_world []) new_db = Some (QDB_OK, None, one_db, one_world)"
    using push_spec [OF new_db_ok [of "[]"], of "[106]" "[106]" "[1, 2]" 2 "Some [1, 2]"]
    by (auto simp: strlen_def name_ok_def run_call_eq one_db_def one_world_def simp del: run_call.simps)
  then show ?thesis by (rule api_event.call [OF s, rotated]) simp
qed

lemma run_pop: "api_event (one_world, one_db) pop_event (leased_world, leased_db)"
proof -
  let ?rs = "[(QDB_RT_MSG_PUSH, push_buf 1 [106] [1, 2])]"
  obtain st where ok: "db_ok one_world one_db 0 ?rs st one_spec" "calm one_world" "room one_db"
    "db_next_lease_id one_db = 1" "db_next_msg_id one_db = 2" "db_log_start_offset one_db = 4096" by (rule one_db_ok)
  have "unat (db_log_end_offset one_db) = 4096 + log_len ?rs" using log_is_len [OF db_okD(5) [OF ok(1)]] ok(6) by simp
  then have s: "small one_db" using ok(4,5) by (simp add: small_def)
  from pop_db_spec(2) [OF ok(1) _ _ ok(3), of "[106]" "[106]" 1 "[]" blank_msg] ok(2,4)
  obtain d out' where r: "pushed ?rs 1 [106] d"
    "pop_db one_world one_db (Some [106]) (Some blank_msg) = Some (QDB_OK, Some out', leased_db, leased_world)"
    "pop_outcome one_world one_db 0 ?rs st one_spec 1 (delivered one_db 1 [106] d 0) blank_msg (QDB_OK, out', leased_db, leased_world)"
    by (auto simp: strlen_def name_ok_def leased_db_def leased_world_def)
  have "d = [1, 2]" using r(1) by (simp add: pushed_def push_buf_def)
  moreover have "out' = delivered one_db 1 [106] d 0" using r(3) by (auto simp: pop_outcome_def Let_def)
  ultimately show ?thesis
    using r(2) ok(4) by (intro api_event.call [OF s]) (simp_all add: qdb_pop_def delivered_def)
qed

lemma two_calls: "trace api_event (new_world [], new_db) [push_event, pop_event] (leased_world, leased_db)"
  by (rule trace.more [where step = api_event, OF run_push], rule trace.more [where step = api_event, OF run_pop])
    (rule trace.nothing)

theorem api_refines_spec_witness:
  "small leased_db \<and>
   (\<exists>i' rs' st' A'. trace q_event (abs_q (new_world []) new_db [] a_empty) [push_event, pop_event]
     (abs_q leased_world leased_db rs' A') \<and> calm leased_world \<and> db_ok leased_world leased_db i' rs' st' A' \<and>
     (\<exists>rc out s. api_event (leased_world, leased_db) (Called (Ack 1 1) rc out) s))"
proof -
  have c: "calm (new_world [])" by simp
  obtain rs st where "db_ok leased_world leased_db 0 rs st leased_spec" "db_next_lease_id leased_db = 2"
    "unat (db_log_end_offset leased_db) < 10000" "db_next_msg_id leased_db = 2" by (rule leased_db_ok)
  then have s: "small leased_db" by (simp add: small_def)
  have "call_ok (Ack 1 1)" by simp
  with s api_refines_spec [OF new_db_ok c two_calls] show ?thesis by blast
qed

text \<open>
  Theorem C3.  Invariant of every reachable state: a database created by an open and used by any
  calls, at any times, without failures, is always well formed.  The file holds exactly the header
  and the log of the handle, a replay of that log gives the tables in memory, and in the
  specification state each message is in the pending sequence of its queue exactly while it is
  pending, no two messages share a lease, and ids are below the counters.
\<close>

theorem reachable_well_formed:
  assumes "calm w0" and "dir_ok w0" and "lock_free w0 (path @ ''-lock'')" and "w_dir w0 path = None"
    and "qdb_open_err w0 (Some path) opts = (Some db, rc, w)" and "api_step\<^sup>*\<^sup>* (w, db) (w', db')"
  shows "\<exists>i rs st A. db_ok w' db' i rs st A \<and> ainv A \<and> (\<forall>k \<in> dom (a_msgs A). k \<noteq> 0 \<and> k < db_next_msg_id db') \<and>
    (\<forall>k am lid e. a_msgs A k = Some am \<longrightarrow> am_status am = ALeased lid e \<longrightarrow> lid \<noteq> 0 \<and> lid < db_next_lease_id db')"
proof -
  obtain dbn i wn where n: "qdb_open_err w0 (Some path) opts = (Some dbn, QDB_OK, wn)" "db_ok wn dbn i [] empty_state a_empty" "calm wn"
    by (rule open_empty [OF assms(1-4)])
  have e: "dbn = db" "wn = w" using n(1) assms(5) by auto
  from qdb.run [OF assms(6) api_relI [OF n(3,2) [unfolded e]]] obtain A j rs st where ok: "db_ok w' db' j rs st A" by auto
  note D = db_okD [OF ok]
  note inv = absRD(1) [OF D(13)]
  have "k \<noteq> 0 \<and> k < db_next_msg_id db'" if k: "k \<in> dom (a_msgs A)" for k
  proof -
    have "qdb__msg_get st k \<noteq> None" using k by (auto simp: absRD(8) [OF D(13)])
    moreover have "k \<noteq> 0" using k ainvD(3) [OF inv] by (cases "k = 0") auto
    ultimately show ?thesis using db_ok_below [OF ok] by blast
  qed
  moreover have "lid \<noteq> 0 \<and> lid < db_next_lease_id db'" if "a_msgs A k = Some am" "am_status am = ALeased lid e" for k am lid e
    using leases_injD(1) [OF inv that] D(10) lease_get_iff [OF D(13), of lid] that by blast
  ultimately show ?thesis using ok inv by blast
qed

theorem reachable_well_formed_witness:
  "\<exists>db rc w i rs st A. qdb_open_err blank_world (Some ''/tmp/q'') None = (Some db, rc, w) \<and>
     api_step\<^sup>*\<^sup>* (w, db) (w\<lparr>w_clock := Some (9, 9)\<rparr>, db) \<and> db_ok (w\<lparr>w_clock := Some (9, 9)\<rparr>) db i rs st A"
proof -
  have b: "calm blank_world" "dir_ok blank_world" "lock_free blank_world (''/tmp/q'' @ ''-lock'')" "w_dir blank_world ''/tmp/q'' = None" by simp_all
  obtain db w where op: "qdb_open_err blank_world (Some ''/tmp/q'') None = (Some db, QDB_OK, w)" by (rule open_empty [OF b])
  have st: "api_step\<^sup>*\<^sup>* (w, db) (w\<lparr>w_clock := Some (9, 9)\<rparr>, db)" using api_step.tick by (rule r_into_rtranclp)
  from reachable_well_formed [OF b op st] show ?thesis
  proof (elim exE conjE)
    fix i rs s A assume "db_ok (w\<lparr>w_clock := Some (9, 9)\<rparr>) db i rs s A"
    with op st show ?thesis
      by (intro exI [of _ db] exI [of _ QDB_OK] exI [of _ w] exI [of _ i] exI [of _ rs] exI [of _ s] exI [of _ A] conjI)
  qed
qed

text \<open>
  Theorem C2.  No run of calls without failures, with the counters away from their limits, loses a
  message or brings one back: a message stays known, in its queue, with its bytes where they are,
  and once it is acknowledged nothing changes it any more, so it is never delivered again.
\<close>

theorem acked_forever:
  assumes "db_ok w db i rs st A" and "calm w" and "api_step\<^sup>*\<^sup>* (w, db) (w', db')"
  shows "\<exists>i' rs' st' A'. db_ok w' db' i' rs' st' A' \<and>
    (\<forall>k am. a_msgs A k = Some am \<longrightarrow> (\<exists>am'. a_msgs A' k = Some am' \<and> am_queue am' = am_queue am \<and>
       am_len am' = am_len am \<and> am_off am' = am_off am)) \<and>
    (\<forall>k am. a_msgs A k = Some am \<longrightarrow> am_status am = AAcked \<longrightarrow> a_msgs A' k = Some am \<and> (\<forall>n. k \<notin> set (a_pending A' n)))"
proof -
  have "\<exists>A'. api_rel (w', db') A' \<and> ainv A' \<and> keeps A A'"
    by (rule qdb.run_keeps [OF assms(3) api_relI [OF assms(2,1)]]) (rule keeps_refl, erule (1) keeps_trans, erule (1) a_step_keeps)
  then obtain A' where A': "api_rel (w', db') A'" "ainv A'" "keeps A A'" by blast
  then obtain i' rs' st' where ok: "db_ok w' db' i' rs' st' A'" by auto
  have k: "k \<notin> set (a_pending A' n)" if "a_msgs A' k = Some am" "am_status am = AAcked" for k am n
    using that ainvD(7) [OF A'(2), of n] by (auto simp: a_with_def)
  have "a_msgs A' k = Some am \<and> (\<forall>n. k \<notin> set (a_pending A' n))" if "a_msgs A k = Some am" "am_status am = AAcked" for k am
  proof -
    have "a_msgs A' k = Some am" using that A'(3) by (auto elim: keepsE)
    then show ?thesis using k that(2) by blast
  qed
  moreover have "\<exists>am'. a_msgs A' k = Some am' \<and> am_queue am' = am_queue am \<and> am_len am' = am_len am \<and> am_off am' = am_off am"
    if "a_msgs A k = Some am" for k am by (rule keepsE [OF A'(3) that]) blast
  ultimately show ?thesis using ok by blast
qed

text \<open>The message of the database with one leased message is acknowledged.\<close>

lemma acked_db_ok:
  obtains db w rs st where "qdb_ack leased_world (Some leased_db) 1 1 = Some (QDB_OK, Some db, w)"
    "db_ok w db 0 rs st (a_ack 1 leased_spec)" "calm w" "small db"
proof -
  obtain rs st where ok: "db_ok leased_world leased_db 0 rs st leased_spec" "calm leased_world" "room leased_db"
    "db_next_lease_id leased_db = 2" "unat (db_log_end_offset leased_db) < 10000" "db_next_msg_id leased_db = 2"
    by (rule leased_db_ok)
  note D = db_okD [OF ok(1)]
  have t: "done_type QDB_RT_MSG_ACK" by (simp add: done_type_def)
  obtain m where m: "qdb__msg_get st 1 = Some m" "m_state m = QDB_MSG_STATE_LEASED" "m_lease_id m = 1"
    by (rule leased_msg [OF D(13), of 1 "the (a_msgs leased_spec 1)" 1]) simp_all
  obtain rc db w where r: "log_done leased_world leased_db QDB_RT_MSG_ACK (done_buf 1 1) (st_done QDB_RT_MSG_ACK st (m_queue_name m) 1 1) = (rc, db, w)"
    by (metis prod_cases3)
  note L = log_done_spec [OF ok(1) m t ok(3) r]
  have rc: "rc = QDB_OK" "calm w" using L(2) [OF ok(2)] by auto
  obtain st' where o: "db_ok w db 0 (rs @ [(QDB_RT_MSG_ACK, done_buf 1 1)]) st' (a_ack 1 leased_spec)"
    "later leased_world leased_db rs w db (rs @ [(QDB_RT_MSG_ACK, done_buf 1 1)])"
    by (rule done_outcome_ok [OF L(1) [unfolded rc(1)] t]) (simp add: a_done_def)
  have "small db" using o(2) L(3) [OF rc(1)] ok(4-6) by (simp add: small_def later_def)
  then show thesis using that [OF _ o(1) rc(2)] done_eq(1) [OF D(13,12) m, of leased_world] r rc(1) by (simp add: qdb_ack_def)
qed

theorem acked_forever_witness:
  "\<exists>db1 w1 db2 w2 i rs st A. qdb_ack leased_world (Some leased_db) 1 1 = Some (QDB_OK, Some db1, w1) \<and>
     qdb_nack w1 (Some db1) 1 1 = Some (QDB_ERR_NOENT, Some db1, w1) \<and>
     qdb_push w1 (Some db1) (Some [106]) (Some [7]) 1 = Some (QDB_OK, Some db2, w2) \<and>
     db_ok w2 db2 i rs st A \<and> map_option am_status (a_msgs A 1) = Some AAcked \<and> (\<forall>n. 1 \<notin> set (a_pending A n))"
proof -
  obtain db1 w1 rs st where ok: "qdb_ack leased_world (Some leased_db) 1 1 = Some (QDB_OK, Some db1, w1)"
    "db_ok w1 db1 0 rs st (a_ack 1 leased_spec)" "calm w1" "small db1" by (rule acked_db_ok)
  define am where "am = \<lparr>am_queue = [106 :: u8], am_off = 4115, am_len = 2, am_retry = 0, am_status = AAcked\<rparr>"
  have am: "a_msgs (a_ack 1 leased_spec) 1 = Some am" by (simp add: a_ack_def am_def)
  have n: "qdb_nack w1 (Some db1) 1 1 = Some (QDB_ERR_NOENT, Some db1, w1)"
    using stale_refused [OF ok(2), of 1 1] am by (simp add: am_def)
  then have 1: "api_step (w1, db1) (w1, db1)" by (intro api_step.call [OF ok(4), of "Nack 1 1"]) simp_all
  from push_spec [OF ok(2), of "[106]" "[106]" "[7]" 1 "Some [7]"] smallD(1,2) [OF ok(2,4)] ok(3) obtain db2 w2 where
    p: "qdb_push w1 (Some db1) (Some [106]) (Some [7]) 1 = Some (QDB_OK, Some db2, w2)"
    by (auto simp: strlen_def name_ok_def qdb_push_def)
  then have "api_step (w1, db1) (w2, db2)" by (intro api_step.call [OF ok(4), of "Push (Some [106]) (Some [7]) 1"]) simp_all
  with 1 have run: "api_step\<^sup>*\<^sup>* (w1, db1) (w2, db2)" by (meson converse_rtranclp_into_rtranclp r_into_rtranclp)
  from acked_forever [OF ok(2,3) run] obtain i rs' st' A' where A: "db_ok w2 db2 i rs' st' A'"
    "\<forall>k am. a_msgs (a_ack 1 leased_spec) k = Some am \<longrightarrow> am_status am = AAcked \<longrightarrow>
       a_msgs A' k = Some am \<and> (\<forall>n. k \<notin> set (a_pending A' n))" by blast
  have "a_msgs A' 1 = Some am \<and> (\<forall>n. 1 \<notin> set (a_pending A' n))" using A(2) am by (simp add: am_def)
  then have "map_option am_status (a_msgs A' 1) = Some AAcked \<and> (\<forall>n. 1 \<notin> set (a_pending A' n))" by (simp add: am_def)
  with ok(1) n p A(1) show ?thesis by (intro exI conjI) blast+
qed

section \<open>Draining a queue\<close>

text \<open>\<open>m\<close> pops from one queue in a row: the ids delivered, and the database afterwards.\<close>

fun pops :: "nat \<Rightarrow> bytes \<Rightarrow> world \<Rightarrow> db \<Rightarrow> (u64 list \<times> world \<times> db) option" where
  "pops 0 q w db = Some ([], w, db)"
| "pops (Suc m) q w db =
     (case qdb_pop w (Some db) (Some q) (Some blank_msg) of
        Some (rc, Some out, Some db1, w1) \<Rightarrow>
          if rc = QDB_OK then map_option (\<lambda>(ks, r). (om_id out # ks, r)) (pops m q w1 db1) else None
      | _ \<Rightarrow> None)"

lemma pop_step:
  assumes ok: "db_ok w db i rs st A" and c: "calm w" and n: "n = take (strlen q) q" "name_ok n" and k: "a_pending A n = k # ks"
    and rm: "room db" and nl: "unat (db_next_lease_id db) < 2 ^ 63" and few: "length (a_pending A n) < 2 ^ 32"
  obtains out db1 w1 rs1 st1 e where "qdb_pop w (Some db) (Some q) (Some blank_msg) = Some (QDB_OK, Some out, Some db1, w1)"
    "om_id out = k" "db_ok w1 db1 i rs1 st1 (a_lease k (db_next_lease_id db) e A)" "calm w1"
    "unat (db_next_lease_id db1) = unat (db_next_lease_id db) + 1" "unat (db_log_end_offset db1) = unat (db_log_end_offset db) + 34"
proof -
  have nl1: "unat (db_next_lease_id db + 1) = unat (db_next_lease_id db) + 1"
    using nl wf_offset [of "db_next_lease_id db" 1] by simp
  then have "db_next_lease_id db + 1 \<noteq> 0" by auto
  from pop_db_spec(2) [OF ok n rm this few k, of blank_msg] c obtain d out db1 w1 where
    r: "pop_db w db (Some q) (Some blank_msg) = Some (QDB_OK, Some out, db1, w1)"
    "pop_outcome w db i rs st A k (delivered db k n d (am_retry (the (a_msgs A k)))) blank_msg (QDB_OK, out, db1, w1)" "calm w1" by blast
  let ?e = "qdb__time_us w + db_lease_timeout_us db"
  let ?rs = "rs @ [(QDB_RT_MSG_LEASE, lease_buf k ?e (db_next_lease_id db))]"
  obtain st1 where o: "out = delivered db k n d (am_retry (the (a_msgs A k)))"
    "db1 = db\<lparr>db_log_end_offset := db_log_end_offset db1, db_next_lease_id := db_next_lease_id db + 1, db_state := Some st1\<rparr>"
    "db_ok w1 db1 i ?rs st1 (a_lease k (db_next_lease_id db) ?e A)"
    using r(2) unfolding pop_outcome_def by (auto simp: Let_def)
  have f: "db_next_lease_id db1 = db_next_lease_id db + 1" "db_log_start_offset db1 = db_log_start_offset db"
    by (subst o(2), simp)+
  have "unat (db_log_end_offset db1) = unat (db_log_end_offset db) + 34"
    using log_is_len [OF db_okD(5) [OF o(3)]] log_is_len [OF db_okD(5) [OF ok]] f(2) by simp
  then show thesis
    using that [of out db1 w1 ?rs st1 ?e] r(1,3) o(1,3) f(1) nl1 by (simp add: qdb_pop_def delivered_def)
qed

text \<open>
  Theorem C16.  A pending message is delivered: as many pops as a queue has pending messages, in a
  run without failures and with room for their records, all succeed and deliver exactly these
  messages in the order of the queue; the queue is empty afterwards and each of the messages is
  leased.
\<close>

theorem queue_drains_in_order:
  assumes "db_ok w db i rs st A" and "calm w" and "n = take (strlen q) q" and "name_ok n"
    and "length (a_pending A n) < 2 ^ 32" and "unat (db_next_lease_id db) + length (a_pending A n) < 2 ^ 63"
    and "unat (db_log_end_offset db) + 34 * length (a_pending A n) + 2 ^ 27 < 2 ^ 63"
  shows "\<exists>w' db' rs' st' A'. pops (length (a_pending A n)) q w db = Some (a_pending A n, w', db') \<and>
    db_ok w' db' i rs' st' A' \<and> a_pending A' n = [] \<and>
    (\<forall>k \<in> set (a_pending A n). \<exists>am. a_msgs A' k = Some am \<and> is_leased (am_status am))"
proof -
  have "\<exists>w' db' rs' st' A'. pops (length ks) q w db = Some (ks, w', db') \<and> db_ok w' db' i rs' st' A' \<and> a_pending A' n = [] \<and>
     (\<forall>k. (\<exists>am. a_msgs A k = Some am \<and> (k \<in> set ks \<or> is_leased (am_status am))) \<longrightarrow> (\<exists>am. a_msgs A' k = Some am \<and> is_leased (am_status am)))"
    if "a_pending A n = ks" for ks
    using assms that
  proof (induction ks arbitrary: w db rs st A)
    case Nil
    then show ?case by fastforce
  next
    case (Cons k ks)
    note inv = absRD(1) [OF db_okD(13) [OF Cons.prems(1)]]
    have rm: "room db" using Cons.prems(7,8) by (simp add: room_def)
    have nl: "unat (db_next_lease_id db) < 2 ^ 63" using Cons.prems(6) by linarith
    obtain out db1 w1 rs1 st1 e where p: "qdb_pop w (Some db) (Some q) (Some blank_msg) = Some (QDB_OK, Some out, Some db1, w1)"
      "om_id out = k" "db_ok w1 db1 i rs1 st1 (a_lease k (db_next_lease_id db) e A)" "calm w1"
      "unat (db_next_lease_id db1) = unat (db_next_lease_id db) + 1" "unat (db_log_end_offset db1) = unat (db_log_end_offset db) + 34"
      by (rule pop_step [OF Cons.prems(1-4,8) rm nl Cons.prems(5)])
    let ?A = "a_lease k (db_next_lease_id db) e A"
    have "k \<in> set (a_pending A n)" using Cons.prems(8) by simp
    then obtain am where am: "a_msgs A k = Some am" "am_queue am = n" by (rule pending_queue [OF inv])
    have pend: "a_pending ?A n = ks" using Cons.prems(8) by (simp add: a_lease_def am)
    from Cons.IH [OF p(3,4) Cons.prems(3,4)] obtain w' db' rs' st' A' where
      r: "pops (length ks) q w1 db1 = Some (ks, w', db')" "db_ok w' db' i rs' st' A'" "a_pending A' n = []"
      "\<forall>k. (\<exists>am. a_msgs ?A k = Some am \<and> (k \<in> set ks \<or> is_leased (am_status am))) \<longrightarrow> (\<exists>am. a_msgs A' k = Some am \<and> is_leased (am_status am))"
      using pend Cons.prems(5-8) p(5,6) by auto
    have "\<exists>am. a_msgs ?A k' = Some am \<and> (k' \<in> set ks \<or> is_leased (am_status am))"
      if "\<exists>am. a_msgs A k' = Some am \<and> (k' \<in> set (k # ks) \<or> is_leased (am_status am))" for k'
      using that by (auto simp: a_lease_def am)
    then have "\<forall>k'. (\<exists>am. a_msgs A k' = Some am \<and> (k' \<in> set (k # ks) \<or> is_leased (am_status am))) \<longrightarrow>
        (\<exists>am. a_msgs A' k' = Some am \<and> is_leased (am_status am))" using r(4) by blast
    then show ?case using p(1,2) r(1-3) by auto
  qed
  note ex = this [OF refl]
  have "\<exists>am. a_msgs A k = Some am" if "k \<in> set (a_pending A n)" for k
    by (rule pending_queue [OF absRD(1) [OF db_okD(13) [OF assms(1)]] that]) blast
  then show ?thesis using ex by fast
qed

theorem queue_drains_in_order_witness:
  "\<exists>w' db'. pops 1 [106] one_world one_db = Some ([1], w', db')"
proof -
  obtain st where ok: "db_ok one_world one_db 0 [(QDB_RT_MSG_PUSH, push_buf 1 [106] [1, 2])] st one_spec" "calm one_world"
    "db_next_lease_id one_db = 1" "db_log_start_offset one_db = 4096" by (rule one_db_ok)
  have "unat (db_log_end_offset one_db) = 4096 + log_len [(QDB_RT_MSG_PUSH, push_buf 1 [106] [1, 2])]"
    using log_is_len [OF db_okD(5) [OF ok(1)]] ok(4) by simp
  then show ?thesis using queue_drains_in_order [OF ok(1,2), of "[106]" "[106]"] ok(3) by (auto simp: strlen_def name_ok_def)
qed

end
