(* ===== verification/ReplayProps.thy ===== *)
theory ReplayProps
  imports Recovery
begin

text \<open>
  Log replay as a whole.  On a log of records the C loop computes exactly what the records say; on
  arbitrary bytes it never touches the file and never builds an ill-formed state; a record that
  ends a lease twice is refused.
\<close>

section \<open>Replay of records\<close>

text \<open>
  Theorem C18.  On a log that holds the records \<open>rs\<close>, in a run without failures, the replay of the
  file is the fold of the record semantics over \<open>rs\<close>: it reports corruption exactly when the fold
  does, and otherwise leaves the counters and the state of the fold in the handle.  Files are not
  touched.
\<close>

theorem replay_follows_records:
  assumes "qdb__replay_log w db = (rc, db', w')" and "calm w"
    and "log_is (fdata w (db_fd db)) (unat (db_log_start_offset db)) (unat (db_log_end_offset db)) rs"
    and "length (fdata w (db_fd db)) < 2 ^ 63" and "w_fds w (db_fd db) = Some i"
  shows "same_fs w w' \<and>
    (case rec_fold (db_log_start_offset db) rs (db_next_msg_id db, db_next_lease_id db, empty_state) of
       Inl c \<Rightarrow> rc = QDB_ERR_CORRUPT
     | Inr (nm, nl, st) \<Rightarrow> rc = QDB_OK \<and> db' = db\<lparr>db_next_msg_id := nm, db_next_lease_id := nl, db_state := Some st\<rparr>)"
  using replay_log_agrees [OF assms(1,3-5)] assms(2) rec_fold_error by (auto split: sum.splits)

theorem replay_follows_records_witness:
  "\<exists>st db' w'. qdb__replay_log leased_world (leased_db\<lparr>db_next_lease_id := 1\<rparr>) = (QDB_OK, db', w') \<and>
     db_next_lease_id db' = 2 \<and> db_state db' = Some st"
proof -
  obtain rs st where ok: "db_ok leased_world leased_db 0 rs st leased_spec" "calm leased_world" "db_next_lease_id leased_db = 2"
    by (rule leased_db_ok)
  note D = db_okD [OF ok(1)]
  let ?db = "leased_db\<lparr>db_next_lease_id := 1\<rparr>"
  obtain rc db' w' where r: "qdb__replay_log leased_world ?db = (rc, db', w')" by (metis prod_cases3)
  show ?thesis using replay_follows_records [OF r ok(2), of rs 0] D(1,2,5,11) ok(3) r by (auto simp: fdata_open)
qed

text \<open>
  Theorem C19.  Whatever bytes the log region holds and whatever fails, a replay ends with one of
  four codes, changes no file, leaves the handle's state alone on an error, and on success has built
  tables that satisfy the whole refinement relation: buckets, links, counters, leases.
\<close>

theorem replay_any_bytes:
  assumes "qdb__replay_log w db = (rc, db', w')"
    and "length (fdata w (db_fd db)) < 2 ^ 63" and "w_fds w (db_fd db) \<noteq> None"
  shows "same_fs w w' \<and> rc \<in> {QDB_OK, QDB_ERR_IO, QDB_ERR_NOMEM, QDB_ERR_CORRUPT} \<and>
    (if rc = QDB_OK then \<exists>st A. db_state db' = Some st \<and> absR st A else db_state db' = db_state db)"
  using replay_log_sound [OF assms] by simp

theorem replay_any_bytes_witness:
  "\<exists>rc db' w'. qdb__replay_log (one_file_world (replicate 5000 0xFF) [Full, Short 3, Fail EINTR]) (new_db\<lparr>db_log_end_offset := 5000\<rparr>) = (rc, db', w') \<and>
     rc \<in> {QDB_OK, QDB_ERR_IO, QDB_ERR_NOMEM, QDB_ERR_CORRUPT} \<and> (rc \<noteq> QDB_OK \<longrightarrow> db_state db' = db_state new_db)"
proof -
  obtain rc db' w' where r: "qdb__replay_log (one_file_world (replicate 5000 0xFF) [Full, Short 3, Fail EINTR]) (new_db\<lparr>db_log_end_offset := 5000\<rparr>) = (rc, db', w')"
    by (metis prod_cases3)
  show ?thesis using replay_any_bytes [OF r] r by (auto simp: fdata_def split: if_splits)
qed

section \<open>A lease ends once\<close>

lemma rec_fold_absR:
  assumes "absR st A" and "rec_fold off rs (nm, nl, st) = Inr (nm', nl', st')"
  shows "\<exists>A'. absR st' A'"
  using assms
proof (induction rs arbitrary: off nm nl st A)
  case (Cons r rs)
  then obtain nm1 nl1 st1 where "rec_apply (off + 9) (fst r) (snd r) (nm, nl, st) = Inr (nm1, nl1, st1)"
    "rec_fold (off + of_nat (10 + length (snd r))) rs (nm1, nl1, st1) = Inr (nm', nl', st')"
    by (auto split: sum.splits)
  then show ?case using Cons.IH rec_apply_absR [OF Cons.prems(1)] by blast
qed auto

lemma rec_done_twice:
  assumes R: "absR st A" and t: "done_type t" "done_type t'"
    and 1: "rec_apply po t (done_buf k lid) (nm, nl, st) = Inr (nm', nl', st')"
  shows "rec_apply po' t' (done_buf k lid) (nm', nl', st') = Inl QDB_ERR_CORRUPT"
proof -
  obtain m where m: "qdb__msg_get st k = Some m" using 1 t(1) by (auto simp: rec_apply_def rec_done_def done_type_def Let_def split: option.splits if_splits)
  have R': "absR st' (a_done t k A)" using rec_apply_absR [OF R 1] a_rec_done [OF t(1)] by simp
  have "\<not> is_leased (am_status am)" if "a_msgs (a_done t k A) k = Some am" for am
    using that absR_msg(1) [OF R m] by (auto simp: a_done_def a_ack_def a_return_def split: if_splits)
  then have "m_state m' \<noteq> QDB_MSG_STATE_LEASED" if "qdb__msg_get st' k = Some m'" for m'
    using absR_msg(1) [OF R' that] that by (auto simp: amsg_of_def astatus_of_def)
  then show ?thesis using t(2) by (auto simp: rec_apply_def rec_done_def done_type_def Let_def split: option.splits)
qed

text \<open>
  Theorem C20.  The end of a lease is recorded once: a log in which anywhere two records in a row end
  the same lease of the same message, as an acknowledgement repeated after a failed header patch
  leaves it, is reported as corrupt, whatever records come before and after them.
\<close>

theorem second_end_corrupt:
  assumes "calm w" and "length (fdata w (db_fd db)) < 2 ^ 63" and "w_fds w (db_fd db) = Some i"
    and "done_type t" and "done_type t'"
    and "log_is (fdata w (db_fd db)) (unat (db_log_start_offset db)) (unat (db_log_end_offset db))
          (rs @ [(t, done_buf k lid), (t', done_buf k lid)] @ rs')"
  shows "fst (qdb__replay_log w db) = QDB_ERR_CORRUPT"
proof -
  let ?s = "(db_next_msg_id db, db_next_lease_id db, empty_state)" and ?o = "db_log_start_offset db"
  let ?ds = "[(t, done_buf k lid), (t', done_buf k lid)]"
  have "\<exists>c. rec_fold ?o (rs @ ?ds) ?s = Inl c"
  proof (cases "rec_fold ?o rs ?s")
    case (Inr s1)
    obtain nm nl st where s1: "s1 = (nm, nl, st)" by (metis prod_cases3)
    then obtain A where A: "absR st A" using rec_fold_absR [OF absR_empty] Inr by blast
    show ?thesis
    proof (cases "rec_apply (?o + of_nat (log_len rs) + 9) t (done_buf k lid) s1")
      case 1: (Inr s2)
      obtain nm2 nl2 st2 where s2: "s2 = (nm2, nl2, st2)" by (metis prod_cases3)
      show ?thesis using rec_done_twice [OF A assms(4,5) 1 [unfolded s1 s2]] Inr 1 by (simp add: rec_fold_append s2)
    qed (simp add: rec_fold_append Inr)
  qed (simp add: rec_fold_append)
  then obtain c where "rec_fold ?o (rs @ ?ds) ?s = Inl c" ..
  then have c: "rec_fold ?o (rs @ ?ds @ rs') ?s = Inl c"
    unfolding append_assoc [symmetric] rec_fold_append [of _ "rs @ ?ds" rs'] by (simp only: sum.case)
  obtain rc db' w' where r: "qdb__replay_log w db = (rc, db', w')" by (metis prod_cases3)
  show ?thesis using replay_log_agrees(2) [OF r assms(6,2,3)] c rec_fold_error [OF c] assms(1) r by auto
qed

lemma log_is_concat:
  assumes "\<forall>r \<in> set rs. rec_ok r"
  shows "log_is (pre @ concat (map enc rs)) (length pre) (length pre + log_len rs) rs"
  using assms
proof (induction rs arbitrary: pre)
  case (Cons r rs)
  have len: "length (enc r) = 10 + length (snd r)" by (simp add: enc_def)
  note slice_exact [OF this, of pre "concat (map enc rs)"]
  with Cons.IH [of "pre @ enc r"] Cons.prems len show ?case by (simp add: add.assoc)
qed simp

theorem second_end_corrupt_witness:
  "fst (qdb__replay_log (one_file_world (replicate 4096 0 @ concat (map enc [(QDB_RT_MSG_PUSH, push_buf 1 [106] [1, 2]),
       (QDB_RT_MSG_LEASE, lease_buf 1 9 1), (QDB_RT_MSG_ACK, done_buf 1 1), (QDB_RT_MSG_ACK, done_buf 1 1),
       (QDB_RT_MSG_PUSH, push_buf 2 [106] [3])])) [])
     (new_db\<lparr>db_log_end_offset := 4225\<rparr>)) = QDB_ERR_CORRUPT"
proof -
  let ?rs = "[(QDB_RT_MSG_PUSH, push_buf 1 [106] [1, 2]), (QDB_RT_MSG_LEASE, lease_buf 1 9 1), (QDB_RT_MSG_ACK, done_buf 1 1),
    (QDB_RT_MSG_ACK, done_buf 1 1), (QDB_RT_MSG_PUSH, push_buf 2 [106] [3])]"
  have "log_is (replicate 4096 0 @ concat (map enc ?rs)) (length (replicate 4096 (0 :: u8))) (length (replicate 4096 (0 :: u8)) + log_len ?rs) ?rs"
    by (rule log_is_concat) (simp add: rec_ok_def is_known_type_def)
  then have "log_is (replicate 4096 0 @ concat (map enc ?rs)) 4096 4225 ?rs" by simp
  then show ?thesis
    by (intro second_end_corrupt [where i = 0 and t = QDB_RT_MSG_ACK and t' = QDB_RT_MSG_ACK and k = 1 and lid = 1
          and rs = "take 2 ?rs" and rs' = "drop 4 ?rs"])
      (simp_all add: fdata_def done_type_def enc_def new_db_def)
qed

end
