(* ===== verification/Tool.thy ===== *)
theory Tool
  imports Compact Stats
begin

text \<open>
  The command line tool (\<^verbatim>\<open>tools/qdbtool.c\<close>): the five commands over the public interface, the argument
  loop and the dispatch.  A run yields the exit code, what was written to the standard output and to
  the standard error, and the world; \<open>None\<close> stands for a use of a NULL state inside the library.
  Strings are the characters up to the terminator.
\<close>

section \<open>Formatted output\<close>

text \<open>What the tool uses of \<^verbatim>\<open>printf\<close>: decimal and hexadecimal numbers, field widths, two decimals of a double.\<close>

definition digit :: "nat \<Rightarrow> char" where
  "digit k = ''0123456789abcdef'' ! k"

fun dec :: "nat \<Rightarrow> string" where
  "dec n = (if n < 10 then [digit n] else dec (n div 10) @ [digit (n mod 10)])"

declare dec.simps [simp del]

definition llu :: "u64 \<Rightarrow> string" where
  "llu x = dec (unat x)"

definition hex4 :: "nat \<Rightarrow> string" where
  "hex4 c = [digit (c div 4096 mod 16), digit (c div 256 mod 16), digit (c div 16 mod 16), digit (c mod 16)]"

definition pad_left :: "nat \<Rightarrow> string \<Rightarrow> string" where
  "pad_left width s = replicate (width - length s) CHR '' '' @ s"

definition pad_right :: "nat \<Rightarrow> string \<Rightarrow> string" where
  "pad_right width s = s @ replicate (width - length s) CHR '' ''"

definition line :: "string \<Rightarrow> string" where
  "line s = s @ [CHR 0x0A]"

definition str_of :: "bytes \<Rightarrow> string" where
  "str_of bs = map (\<lambda>b. char_of (unat b)) (take (strlen bs) bs)"

definition bytes_of :: "string \<Rightarrow> bytes" where
  "bytes_of s = map (\<lambda>c. of_nat (of_char c)) s"

text \<open>
  A \<^verbatim>\<open>double\<close> has 53 significant bits; the conversion of an integer and the decimal output round to
  nearest, ties to even.  The division by a power of two is exact.
\<close>

definition div_half_even :: "nat \<Rightarrow> nat \<Rightarrow> nat" where
  "div_half_even a b = (let q = a div b; r = a mod b in if 2 * r > b \<or> 2 * r = b \<and> odd q then q + 1 else q)"

fun ulp_exp :: "nat \<Rightarrow> nat" where
  "ulp_exp n = (if n < 2 ^ 53 then 0 else Suc (ulp_exp (n div 2)))"

declare ulp_exp.simps [simp del]

definition to_double :: "nat \<Rightarrow> nat" where
  "to_double n = div_half_even n (2 ^ ulp_exp n) * 2 ^ ulp_exp n"

definition fixed2 :: "nat \<Rightarrow> nat \<Rightarrow> string" where
  "fixed2 v k = (let c = div_half_even (100 * v) (2 ^ k) in dec (c div 100) @ ''.'' @ [digit (c mod 100 div 10), digit (c mod 10)])"

section \<open>Helpers\<close>

definition file_exists :: "world \<Rightarrow> string \<Rightarrow> bool \<times> world" where
  "file_exists w path =
     (case sys_open w path False False of
        (Inl e, w1) \<Rightarrow> (False, w1)
      | (Inr fd, w1) \<Rightarrow> (True, sys_close w1 fd))"

fun json_char :: "char \<Rightarrow> string" where
  "json_char c =
     (if c = CHR 0x22 then [CHR 0x5C, CHR 0x22]
      else if c = CHR 0x5C then [CHR 0x5C, CHR 0x5C]
      else if c = CHR 0x0A then [CHR 0x5C, CHR ''n'']
      else if c = CHR 0x0D then [CHR 0x5C, CHR ''r'']
      else if c = CHR 0x09 then [CHR 0x5C, CHR ''t'']
      else if of_char c < (0x20 :: nat) then [CHR 0x5C, CHR ''u''] @ hex4 (of_char c)
      else [c])"

text \<open>The loop ends at the terminator.\<close>

definition json_str :: "string \<Rightarrow> string" where
  "json_str s = [CHR 0x22] @ concat (map json_char (takeWhile (\<lambda>c. c \<noteq> CHR 0x00) s)) @ [CHR 0x22]"

definition fmt_bytes :: "u64 \<Rightarrow> nat \<Rightarrow> string" where
  "fmt_bytes n sz = take (sz - 1)
     (if n \<ge> 1024 * 1024 * 1024 then fixed2 (to_double (unat n)) 30 @ '' GB''
      else if n \<ge> 1024 * 1024 then fixed2 (to_double (unat n)) 20 @ '' MB''
      else if n \<ge> 1024 then fixed2 (to_double (unat n)) 10 @ '' KB''
      else llu n @ '' B'')"

definition open_db :: "world \<Rightarrow> string \<Rightarrow> db option \<times> string \<times> world" where
  "open_db w path =
     (let (ex, w1) = file_exists w path in
      if \<not> ex then (None, line (''qdbtool: '' @ path @ '': file not found''), w1)
      else let (db, w2) = qdb_open w1 (Some path) in
      case db of
        None \<Rightarrow> (None, line (''qdbtool: '' @ path @ '': could not open database'') @
            line (''note: qdbtool requires exclusive access; '' @ ''if another process has this database open, stop it first''), w2)
      | Some db \<Rightarrow> (Some db, [], w2))"

type_synonym run = "(int \<times> string \<times> string \<times> world) option"

text \<open>A failed library call: the message, the close, exit code 1.\<close>

definition call_failed :: "world \<Rightarrow> db \<Rightarrow> string \<Rightarrow> string \<Rightarrow> string \<Rightarrow> int \<Rightarrow> run" where
  "call_failed w db out what msg rc =
     Some (1, out, line (''qdbtool: '' @ what @ msg @ qdb_errmsg rc), qdb_close w (Some db))"

definition zero_stats :: qdb_stats_t where
  "zero_stats = \<lparr>s_queue_count = 0, s_pending_count = 0, s_leased_count = 0, s_acked_count = 0, s_file_size_bytes = 0\<rparr>"

definition zero_queue_stats :: qdb_queue_stats_t where
  "zero_queue_stats = \<lparr>qs_pending_count = 0, qs_leased_count = 0, qs_acked_count = 0\<rparr>"

section \<open>info\<close>

definition info_text :: "string \<Rightarrow> bool \<Rightarrow> qdb_stats_t \<Rightarrow> bool \<Rightarrow> string" where
  \<open>info_text path json st advised =
     (if json then
        ''{"file":'' @ json_str path @
        '',"size_bytes":'' @ llu (s_file_size_bytes st) @
        '',"queues":'' @ llu (s_queue_count st) @
        '',"pending":'' @ llu (s_pending_count st) @
        '',"leased":'' @ llu (s_leased_count st) @
        '',"acked":'' @ llu (s_acked_count st) @
        '',"compact_advised":'' @ (if advised then ''true'' else ''false'') @ line ''}''
      else
        line (''File:            '' @ path) @
        line (''Size:            '' @ fmt_bytes (s_file_size_bytes st) 32) @
        line (''Queues:          '' @ llu (s_queue_count st)) @
        line (''Pending:         '' @ llu (s_pending_count st)) @
        line (''Leased:          '' @ llu (s_leased_count st)) @
        line (''Acked:           '' @ llu (s_acked_count st)) @
        line (''Compact advised: '' @ (if advised then ''yes'' else ''no'')))\<close>

definition cmd_info :: "world \<Rightarrow> string \<Rightarrow> bool \<Rightarrow> run" where
  "cmd_info w path json =
     (let (db, err, w1) = open_db w path in
      case db of
        None \<Rightarrow> Some (1, [], err, w1)
      | Some db \<Rightarrow>
          (case qdb_stats w1 (Some db) (Some zero_stats) of
             None \<Rightarrow> None
           | Some (rc, st, w2) \<Rightarrow>
               if rc \<noteq> QDB_OK then call_failed w2 db [] path '': stats failed: '' rc
               else (case qdb_compact_recommended w2 (Some db) (Some False) of
                  None \<Rightarrow> None
                | Some (rc, advised, w3) \<Rightarrow>
                    if rc \<noteq> QDB_OK then call_failed w3 db [] path '': compact check failed: '' rc
                    else Some (0, info_text path json (the st) (the advised), [], qdb_close w3 (Some db)))))"

section \<open>list\<close>

text \<open>The items of a JSON array: a comma before every one but the first.\<close>

fun comma_sep :: "string list \<Rightarrow> string" where
  "comma_sep [] = []"
| "comma_sep [x] = x"
| "comma_sep (x # xs) = x @ '','' @ comma_sep xs"

definition list_text :: "bool \<Rightarrow> bytes list \<Rightarrow> string" where
  "list_text json names =
     (if json then ''['' @ comma_sep (map (\<lambda>n. json_str (str_of n)) names) @ line '']''
      else concat (map (\<lambda>n. line (str_of n)) names))"

text \<open>
  The array from \<^verbatim>\<open>malloc\<close>, one name of 256 bytes per queue; its contents are written before they are
  read, zeros stand for them.
\<close>

definition fresh_names :: "nat \<Rightarrow> bytes list" where
  "fresh_names cnt = replicate cnt (replicate 256 0)"

definition cmd_list :: "world \<Rightarrow> string \<Rightarrow> bool \<Rightarrow> run" where
  "cmd_list w path json =
     (let (db, err, w1) = open_db w path in
      case db of
        None \<Rightarrow> Some (1, [], err, w1)
      | Some db \<Rightarrow>
          (case qdb_queue_list (Some db) None 0 (Some 0) of
             None \<Rightarrow> None
           | Some (rc, _, cnt) \<Rightarrow>
               if rc \<noteq> QDB_OK then call_failed w1 db [] path '': queue list failed: '' rc
               else if the cnt > 0 then
                 let (ok, w2) = heap_alloc w1 in
                 if \<not> ok then Some (1, [], line ''qdbtool: out of memory'', qdb_close w2 (Some db))
                 else (case qdb_queue_list (Some db) (Some (fresh_names (the cnt))) (the cnt) cnt of
                    None \<Rightarrow> None
                  | Some (rc, names, cnt) \<Rightarrow>
                      if rc \<noteq> QDB_OK then call_failed w2 db [] path '': queue list failed: '' rc
                      else Some (0, list_text json (take (the cnt) (the names)), [], qdb_close w2 (Some db)))
               else Some (0, list_text json [], [], qdb_close w1 (Some db))))"

section \<open>stats\<close>

definition queue_json :: "string \<Rightarrow> qdb_queue_stats_t \<Rightarrow> string" where
  \<open>queue_json queue qs =
     ''{"queue":'' @ json_str queue @ '',"pending":'' @ llu (qs_pending_count qs) @ '',"leased":'' @ llu (qs_leased_count qs) @
     '',"acked":'' @ llu (qs_acked_count qs) @ ''}''\<close>

definition queue_text :: "bool \<Rightarrow> string \<Rightarrow> qdb_queue_stats_t \<Rightarrow> string" where
  "queue_text json queue qs =
     (if json then line (queue_json queue qs)
      else line (''Queue:    '' @ queue) @ line (''Pending:  '' @ llu (qs_pending_count qs)) @
        line (''Leased:   '' @ llu (qs_leased_count qs)) @ line (''Acked:    '' @ llu (qs_acked_count qs)))"

definition table_row :: "string \<Rightarrow> string \<Rightarrow> string \<Rightarrow> string \<Rightarrow> string" where
  "table_row a b c d = line (pad_right 24 (take 24 a) @ ''  '' @ pad_left 9 b @ ''  '' @ pad_left 9 c @ ''  '' @ pad_left 9 d)"

definition table_text :: "bool \<Rightarrow> (bytes \<times> qdb_queue_stats_t) list \<Rightarrow> string" where
  "table_text json rows =
     (if json then ''['' @ comma_sep (map (\<lambda>(n, qs). queue_json (str_of n) qs) rows) @ line '']''
      else table_row ''Queue'' ''Pending'' ''Leased'' ''Acked'' @
        (if rows = [] then line ''(no queues)''
         else concat (map (\<lambda>(n, qs). table_row (str_of n) (llu (qs_pending_count qs)) (llu (qs_leased_count qs)) (llu (qs_acked_count qs))) rows)))"

text \<open>The loop over the names; a failure is the name it happened at and the code.\<close>

fun all_stats :: "db \<Rightarrow> bytes list \<Rightarrow> ((bytes \<times> int) + qdb_queue_stats_t list) option" where
  "all_stats db [] = Some (Inr [])"
| "all_stats db (n # ns) =
     (case qdb_queue_stats (Some db) (Some n) (Some zero_queue_stats) of
        None \<Rightarrow> None
      | Some (rc, qs) \<Rightarrow>
          if rc \<noteq> QDB_OK then Some (Inl (n, rc))
          else (case all_stats db ns of
             None \<Rightarrow> None
           | Some (Inl e) \<Rightarrow> Some (Inl e)
           | Some (Inr qss) \<Rightarrow> Some (Inr (the qs # qss))))"

definition stats_one :: "world \<Rightarrow> db \<Rightarrow> string \<Rightarrow> bool \<Rightarrow> run" where
  "stats_one w db queue json =
     (case qdb_queue_stats (Some db) (Some (bytes_of queue)) (Some zero_queue_stats) of
        None \<Rightarrow> None
      | Some (rc, qs) \<Rightarrow>
          if rc \<noteq> QDB_OK then call_failed w db [] queue '': '' rc
          else Some (0, queue_text json queue (the qs), [], qdb_close w (Some db)))"

definition stats_all :: "world \<Rightarrow> db \<Rightarrow> string \<Rightarrow> bool \<Rightarrow> run" where
  "stats_all w db path json =
     (case qdb_queue_list (Some db) None 0 (Some 0) of
        None \<Rightarrow> None
      | Some (rc, _, cnt) \<Rightarrow>
          if rc \<noteq> QDB_OK then call_failed w db [] path '': queue list failed: '' rc
          else if the cnt > 0 then
            let (ok1, w1) = heap_alloc w; (ok2, w2) = heap_alloc w1 in
            if \<not> ok1 \<or> \<not> ok2 then Some (1, [], line ''qdbtool: out of memory'', qdb_close w2 (Some db))
            else (case qdb_queue_list (Some db) (Some (fresh_names (the cnt))) (the cnt) cnt of
               None \<Rightarrow> None
             | Some (rc, names, cnt) \<Rightarrow>
                 if rc \<noteq> QDB_OK then call_failed w2 db [] path '': queue list failed: '' rc
                 else let ns = take (the cnt) (the names) in
                 (case all_stats db ns of
                    None \<Rightarrow> None
                  | Some (Inl (n, rc)) \<Rightarrow> call_failed w2 db [] (str_of n) '': queue stats failed: '' rc
                  | Some (Inr qss) \<Rightarrow> Some (0, table_text json (zip ns qss), [], qdb_close w2 (Some db))))
          else Some (0, table_text json [], [], qdb_close w (Some db)))"

definition cmd_stats :: "world \<Rightarrow> string \<Rightarrow> string option \<Rightarrow> bool \<Rightarrow> run" where
  "cmd_stats w path queue json =
     (let (db, err, w1) = open_db w path in
      case db of
        None \<Rightarrow> Some (1, [], err, w1)
      | Some db \<Rightarrow> (case queue of Some queue \<Rightarrow> stats_one w1 db queue json | None \<Rightarrow> stats_all w1 db path json))"

section \<open>compact\<close>

definition sizes_text :: "u64 \<Rightarrow> u64 \<Rightarrow> string" where
  "sizes_text bef aft =
     line (''Before:    '' @ fmt_bytes bef 32) @ line (''After:     '' @ fmt_bytes aft 32) @
     (if bef > aft then line (''Reclaimed: '' @ fmt_bytes (bef - aft) 32) else [])"

text \<open>From the announcement on: expiry, compaction, statistics, close.\<close>

definition compact_now :: "world \<Rightarrow> db \<Rightarrow> string \<Rightarrow> qdb_stats_t \<Rightarrow> run" where
  "compact_now w db path bef =
     (let out = line (''Compacting '' @ path @ ''...'') in
      case qdb_process_expired_leases w (Some db) of
        None \<Rightarrow> None
      | Some (rc, db1, w1) \<Rightarrow>
          if rc < 0 then call_failed w1 (the db1) out path '': lease expiry failed: '' rc
          else (case qdb_compact w1 db1 of
             None \<Rightarrow> None
           | Some (rc, db2, w2) \<Rightarrow>
               if rc \<noteq> QDB_OK then call_failed w2 (the db2) out path '': compact failed: '' rc
               else (case qdb_stats w2 db2 (Some zero_stats) of
                  None \<Rightarrow> None
                | Some (rc, aft, w3) \<Rightarrow>
                    Some (0, out @ sizes_text (s_file_size_bytes bef) (s_file_size_bytes (the aft)),
                      if rc \<noteq> QDB_OK then line (''qdbtool: '' @ path @ '': post-compact stats failed (compact succeeded): '' @ qdb_errmsg rc) else [],
                      qdb_close w3 db2))))"

definition cmd_compact :: "world \<Rightarrow> string \<Rightarrow> bool \<Rightarrow> bool \<Rightarrow> run" where
  "cmd_compact w path force dry_run =
     (let (db, err, w1) = open_db w path in
      case db of
        None \<Rightarrow> Some (1, [], err, w1)
      | Some db \<Rightarrow>
          (case qdb_stats w1 (Some db) (Some zero_stats) of
             None \<Rightarrow> None
           | Some (rc, bef, w2) \<Rightarrow>
               if rc \<noteq> QDB_OK then call_failed w2 db [] path '': stats failed: '' rc
               else (case qdb_compact_recommended w2 (Some db) (Some False) of
                  None \<Rightarrow> None
                | Some (rc, advised, w3) \<Rightarrow>
                    if rc \<noteq> QDB_OK then call_failed w3 db [] path '': compact check failed: '' rc
                    else if dry_run then
                      Some (0, line (''Compact recommended: '' @ (if the advised then ''yes'' else ''no'')) @
                          line (''Current size:        '' @ fmt_bytes (s_file_size_bytes (the bef)) 32) @
                          line ''(dry run -- no changes made)'', [], qdb_close w3 (Some db))
                    else if \<not> the advised \<and> \<not> force then
                      Some (0, line ''Compaction not needed (acked_count not significant).'' @
                          line ''Use --force to compact anyway.'', [], qdb_close w3 (Some db))
                    else compact_now w3 db path (the bef))))"

section \<open>verify\<close>

definition cmd_verify :: "world \<Rightarrow> string \<Rightarrow> bool \<Rightarrow> run" where
  \<open>cmd_verify w path json =
     (let (db, err, w1) = open_db w path in
      case db of
        None \<Rightarrow> Some (1, if json then line ''{"ok":false,"error":"could not open database"}'' else [], err, w1)
      | Some db \<Rightarrow> Some (0, if json then line ''{"ok":true}'' else line (path @ '': ok''), [], qdb_close w1 (Some db)))\<close>

section \<open>The command line\<close>

definition usage :: "string \<Rightarrow> string" where
  "usage prog = concat (map line
     [''Usage: '' @ prog @ '' <command> [flags] [--] <path>'',
      '''',
      ''Commands:'',
      ''  info    [--json] <path>           Database summary'',
      ''  list    [--json] <path>           List queue names'',
      ''  stats   [--json] <path> [<queue>] Per-queue statistics'',
      ''  compact [--force] [--dry-run] <path>  Reclaim disk space'',
      ''  verify  [--json] <path>           Validate existing database file'',
      '''',
      ''Flags:'',
      ''  --json      Machine-readable JSON output (info, list, stats, verify)'',
      ''  --force     Compact even when not recommended'',
      ''  --dry-run   Report recommendation without compacting'',
      ''  --          End of flags; treat next argument as <path>'',
      '''',
      ''Exit codes: 0 success  1 database/runtime error  2 usage error'',
      '''',
      ''All commands require the database file to already exist.'',
      ''None create a new database.'',
      '''',
      ''Note: qdbtool requires exclusive database access.'',
      ''      Stop the application before running qdbtool.'',
      '''',
      ''verify performs normal open-time validation only (header, CRC,'',
      ''log replay).  It does not perform additional offline scanning.''])"

record args =
  t_path :: "string option"
  t_queue :: "string option"
  t_json :: bool
  t_force :: bool
  t_dry :: bool
  t_end_of_flags :: bool

definition no_args :: args where
  "no_args = \<lparr>t_path = None, t_queue = None, t_json = False, t_force = False, t_dry = False, t_end_of_flags = False\<rparr>"

text \<open>The loop over the arguments after the command; \<open>Inl\<close> is the text of a usage error.\<close>

fun parse_args :: "string list \<Rightarrow> args \<Rightarrow> string + args" where
  "parse_args [] a = Inr a"
| "parse_args (x # xs) a =
     (if \<not> t_end_of_flags a \<and> x = ''--'' then parse_args xs (a\<lparr>t_end_of_flags := True\<rparr>)
      else if \<not> t_end_of_flags a \<and> take 1 x = ''-'' then
        (if x = ''--json'' then parse_args xs (a\<lparr>t_json := True\<rparr>)
         else if x = ''--force'' then parse_args xs (a\<lparr>t_force := True\<rparr>)
         else if x = ''--dry-run'' then parse_args xs (a\<lparr>t_dry := True\<rparr>)
         else Inl (line (''qdbtool: unknown flag: '' @ x)))
      else if t_path a = None then parse_args xs (a\<lparr>t_path := Some x\<rparr>)
      else if t_queue a = None then parse_args xs (a\<lparr>t_queue := Some x\<rparr>)
      else Inl (line (''qdbtool: unexpected argument: '' @ x)))"

text \<open>The checks in front of a command; \<open>q_ok\<close> says whether the command takes a queue.\<close>

definition check_args :: "string \<Rightarrow> bool \<Rightarrow> args \<Rightarrow> string option" where
  "check_args cmd q_ok a =
     (if t_path a = None then Some (line (''qdbtool: '' @ cmd @ '': missing <path>''))
      else if \<not> q_ok \<and> t_queue a \<noteq> None then Some (line (''qdbtool: '' @ cmd @ '': unexpected argument: '' @ the (t_queue a)))
      else if t_force a then Some (line (''qdbtool: '' @ cmd @ '': --force is not valid for this command''))
      else if t_dry a then Some (line (''qdbtool: '' @ cmd @ '': --dry-run is not valid for this command''))
      else None)"

definition check_compact :: "args \<Rightarrow> string option" where
  "check_compact a =
     (if t_path a = None then Some (line ''qdbtool: compact: missing <path>'')
      else if t_queue a \<noteq> None then Some (line (''qdbtool: compact: unexpected argument: '' @ the (t_queue a)))
      else if t_json a then Some (line ''qdbtool: compact: --json is not supported'')
      else None)"

definition guarded :: "world \<Rightarrow> string option \<Rightarrow> run \<Rightarrow> run" where
  "guarded w check r = (case check of Some err \<Rightarrow> Some (2, [], err, w) | None \<Rightarrow> r)"

definition dispatch :: "world \<Rightarrow> string \<Rightarrow> string \<Rightarrow> args \<Rightarrow> run" where
  "dispatch w prog cmd a =
     (let path = the (t_path a) in
      if cmd = ''help'' \<or> cmd = ''--help'' \<or> cmd = ''-h'' then Some (0, [], usage prog, w)
      else if cmd = ''info'' then guarded w (check_args cmd False a) (cmd_info w path (t_json a))
      else if cmd = ''list'' then guarded w (check_args cmd False a) (cmd_list w path (t_json a))
      else if cmd = ''stats'' then guarded w (check_args cmd True a) (cmd_stats w path (t_queue a) (t_json a))
      else if cmd = ''compact'' then guarded w (check_compact a) (cmd_compact w path (t_force a) (t_dry a))
      else if cmd = ''verify'' then guarded w (check_args cmd False a) (cmd_verify w path (t_json a))
      else Some (2, [], line (''qdbtool: unknown command: '' @ cmd) @ usage prog, w))"

definition tool_main :: "world \<Rightarrow> string list \<Rightarrow> run" where
  "tool_main w argv =
     (case argv of
        [] \<Rightarrow> Some (2, [], usage ''qdbtool'', w)
      | [prog] \<Rightarrow> Some (2, [], usage prog, w)
      | prog # cmd # rest \<Rightarrow>
          (case parse_args rest no_args of
             Inl err \<Rightarrow> Some (2, [], err, w)
           | Inr a \<Rightarrow> dispatch w prog cmd a))"

end
