(* ===== verification/ToolProps.thy ===== *)
theory ToolProps
  imports Tool RecoveryProps
begin

text \<open>
  The command line tool.  Its JSON strings are read back by a reader of RFC 8259 strings exactly when
  the bytes printed are UTF-8; a usage error
  and a missing file leave everything alone; \<open>info\<close> reports the statistics of the database and leaves
  it as it was.
\<close>

section \<open>JSON strings\<close>

text \<open>
  A reader of RFC 8259 strings.  The text is UTF-8 (section 8.1), recognised by the automaton of RFC
  3629: a state is the list of the ranges of the bytes still to come of the current character, and
  \<open>None\<close> after an error.  Within it (section 7) the string ends at the first quotation mark that is not
  escaped, raw control characters are not allowed, and the escape \<open>u\<close> stands for the UTF-8 encoding
  of its code point (a surrogate, half of a code point beyond 16 bits, is not read).
\<close>

definition utf8_lead :: "nat \<Rightarrow> (nat \<times> nat) list option" where
  "utf8_lead b = (let c = (0x80, 0xBF) in
     if b < 0x80 then Some []
     else if 0xC2 \<le> b \<and> b \<le> 0xDF then Some [c]
     else if b = 0xE0 then Some [(0xA0, 0xBF), c]
     else if b = 0xED then Some [(0x80, 0x9F), c]
     else if 0xE1 \<le> b \<and> b \<le> 0xEF then Some [c, c]
     else if b = 0xF0 then Some [(0x90, 0xBF), c, c]
     else if 0xF1 \<le> b \<and> b \<le> 0xF3 then Some [c, c, c]
     else if b = 0xF4 then Some [(0x80, 0x8F), c, c]
     else None)"

fun utf8_step :: "(nat \<times> nat) list option \<Rightarrow> char \<Rightarrow> (nat \<times> nat) list option" where
  "utf8_step None c = None"
| "utf8_step (Some []) c = utf8_lead (of_char c)"
| "utf8_step (Some ((lo, hi) # r)) c = (if lo \<le> of_char c \<and> of_char c \<le> hi then Some r else None)"

definition utf8_ok :: "string \<Rightarrow> bool" where
  "utf8_ok s \<longleftrightarrow> foldl utf8_step (Some []) s = Some []"

definition utf8_enc :: "nat \<Rightarrow> string" where
  "utf8_enc n = map char_of
     (if n < 0x80 then [n] else if n < 0x800 then [0xC0 + n div 64, 0x80 + n mod 64]
      else [0xE0 + n div 4096, 0x80 + n div 64 mod 64, 0x80 + n mod 64])"

definition hex_val :: "char \<Rightarrow> nat option" where
  "hex_val c = (let n = of_char c :: nat in
     if 48 \<le> n \<and> n \<le> 57 then Some (n - 48) else if 97 \<le> n \<and> n \<le> 102 then Some (n - 87)
     else if 65 \<le> n \<and> n \<le> 70 then Some (n - 55) else None)"

definition hex_vals :: "char \<Rightarrow> char \<Rightarrow> char \<Rightarrow> char \<Rightarrow> nat option" where
  "hex_vals a b c d =
     (case (hex_val a, hex_val b, hex_val c, hex_val d) of
        (Some i, Some j, Some k, Some l) \<Rightarrow> Some (4096 * i + 256 * j + 16 * k + l)
      | _ \<Rightarrow> None)"

text \<open>What an escape stands for is UTF-8; overlong forms, surrogates and cut characters are not.\<close>

lemma utf8_enc_ok:
  assumes "n < 0x10000" and "\<not> (0xD800 \<le> n \<and> n \<le> 0xDFFF)"
  shows "utf8_ok (utf8_enc n)"
proof -
  consider "n < 0x80" | "0x80 \<le> n" "n < 0x800" | "0x800 \<le> n" by linarith
  then show ?thesis
  proof cases
    case 2
    then have "2 \<le> n div 64" "n div 64 < 32" by (simp_all add: less_mult_imp_div_less)
    then show ?thesis using 2 by (simp add: utf8_ok_def utf8_enc_def utf8_lead_def Let_def)
  next
    case 3
    define a b c where d: "a = n div 4096" "b = n div 64 mod 64" "c = n mod 64"
    have "64 * (n div 64) + n mod 64 = n" "64 * (n div 64 div 64) + n div 64 mod 64 = n div 64" "n div 64 div 64 = n div 4096"
      by (rule mult_div_mod_eq)+ (simp add: div_mult2_eq [symmetric])
    then have n: "4096 * a + 64 * b + c = n" unfolding d by linarith
    have q: "a < 16" "b < 64" "c < 64" using assms(1) by (simp_all add: d less_mult_imp_div_less)
    have "a = 0 \<Longrightarrow> 32 \<le> b" "a = 13 \<Longrightarrow> b < 32" using n 3 q assms(2) by linarith+
    with q have "utf8_ok [char_of (0xE0 + a), char_of (0x80 + b), char_of (0x80 + c)]"
      by (cases "a = 0"; cases "a = 13") (simp_all add: utf8_ok_def utf8_lead_def Let_def)
    then show ?thesis using 3 by (simp add: utf8_enc_def d)
  qed (simp add: utf8_ok_def utf8_enc_def utf8_lead_def)
qed

lemma utf8_rejects:
  "\<not> utf8_ok [CHR 0xC0, CHR 0x80]" "\<not> utf8_ok [CHR 0xE0, CHR 0x80, CHR 0x80]" "\<not> utf8_ok [CHR 0xED, CHR 0xA0, CHR 0x80]"
  "\<not> utf8_ok [CHR 0xC3]" "\<not> utf8_ok [CHR 0xC3, CHR 0x41]" "\<not> utf8_ok [CHR 0xFF]"
  by (simp_all add: utf8_ok_def utf8_lead_def Let_def)

definition plain_escape :: "char \<Rightarrow> char option" where
  "plain_escape e =
     (if e = CHR 0x22 \<or> e = CHR 0x5C \<or> e = CHR ''/'' then Some e
      else if e = CHR ''b'' then Some (CHR 0x08) else if e = CHR ''f'' then Some (CHR 0x0C)
      else if e = CHR ''n'' then Some (CHR 0x0A) else if e = CHR ''r'' then Some (CHR 0x0D)
      else if e = CHR ''t'' then Some (CHR 0x09) else None)"

definition cons_read :: "string \<Rightarrow> (string \<times> string) option \<Rightarrow> (string \<times> string) option" where
  "cons_read p r = map_option (\<lambda>(s, rest). (p @ s, rest)) r"

fun json_body :: "string \<Rightarrow> (string \<times> string) option" where
  "json_body [] = None"
| "json_body (c # s) =
     (if c = CHR 0x22 then Some ([], s)
      else if c = CHR 0x5C then
        (case s of
           [] \<Rightarrow> None
         | e # s1 \<Rightarrow>
             if e = CHR ''u'' then
               (case s1 of
                  h1 # h2 # h3 # h4 # s2 \<Rightarrow>
                    (case hex_vals h1 h2 h3 h4 of
                       None \<Rightarrow> None
                     | Some n \<Rightarrow> if 0xD800 \<le> n \<and> n \<le> 0xDFFF then None else cons_read (utf8_enc n) (json_body s2))
                | _ \<Rightarrow> None)
             else (case plain_escape e of None \<Rightarrow> None | Some x \<Rightarrow> cons_read [x] (json_body s1)))
      else if of_char c < (32 :: nat) then None
      else cons_read [c] (json_body s))"

definition json_read :: "string \<Rightarrow> (string \<times> string) option" where
  "json_read s =
     (case s of
        [] \<Rightarrow> None
      | c # s1 \<Rightarrow>
          if c \<noteq> CHR 0x22 then None
          else (case json_body s1 of
                  None \<Rightarrow> None
                | Some (t, rest) \<Rightarrow> if utf8_ok (take (length s1 - length rest) s1) then Some (t, rest) else None))"

lemma digit_cases:
  assumes "k < 16"
  shows "hex_val (digit k) = Some k" "of_char (digit k) < (0x80 :: nat)"
proof -
  have "k \<in> {0, 1, 2, 3, 4, 5, 6, 7, 8, 9, 10, 11, 12, 13, 14, 15}" using assms by (simp only: insert_iff empty_iff) presburger
  then show "hex_val (digit k) = Some k" "of_char (digit k) < (0x80 :: nat)"
    by (elim insertE; simp add: hex_val_def digit_def)+
qed

lemma hex4_vals:
  assumes "n < 256"
  obtains a b c d where "hex4 n = [a, b, c, d]" "hex_vals a b c d = Some n"
proof -
  have "n div 4096 = 0" "n div 256 = 0" "n div 16 mod 16 = n div 16" using assms by simp_all
  then show thesis using that assms by (simp add: hex4_def hex_vals_def digit_cases)
qed

lemma json_body_char: "json_body (json_char c @ s) = cons_read [c] (json_body s)"
proof (cases "of_char c < (0x20 :: nat) \<and> c \<notin> {CHR 0x22, CHR 0x5C, CHR 0x0A, CHR 0x0D, CHR 0x09}")
  case True
  obtain h1 h2 h3 h4 where h: "hex4 (of_char c) = [h1, h2, h3, h4]" "hex_vals h1 h2 h3 h4 = Some (of_char c)"
    by (rule hex4_vals [of "of_char c"]) (use True in simp)
  moreover have "utf8_enc (of_char c) = [c]" using True by (simp add: utf8_enc_def)
  ultimately show ?thesis using True by simp
next
  case False
  then show ?thesis by (auto simp: plain_escape_def)
qed

text \<open>
  Inside a character no byte below 0x80 can follow, so replacing such a byte by its escape, all of
  whose bytes are below 0x80, changes no verdict.
\<close>

definition utf8_inside :: "(nat \<times> nat) list option \<Rightarrow> bool" where
  "utf8_inside st \<longleftrightarrow> (case st of None \<Rightarrow> True | Some rs \<Rightarrow> \<forall>(lo, hi) \<in> set rs. 0x80 \<le> lo)"

lemma utf8_step_inside: "utf8_inside st \<Longrightarrow> utf8_inside (utf8_step st c)"
  by (cases "(st, c)" rule: utf8_step.cases) (auto simp: utf8_inside_def utf8_lead_def Let_def split: option.split)

lemma utf8_run_None: "foldl utf8_step None s = None"
  by (induction s) simp_all

lemma utf8_step_low:
  assumes "utf8_inside st" and "of_char c < (0x80 :: nat)"
  shows "utf8_step st c = (if st = Some [] then Some [] else None)"
  using assms by (cases "(st, c)" rule: utf8_step.cases) (auto simp: utf8_inside_def utf8_lead_def)

lemma utf8_run_low:
  assumes "utf8_inside st" and "\<forall>c \<in> set s. of_char c < (0x80 :: nat)" and "s \<noteq> []"
  shows "foldl utf8_step st s = (if st = Some [] then Some [] else None)"
proof -
  have run: "foldl utf8_step (Some []) s = Some []" if "\<forall>c \<in> set s. of_char c < (0x80 :: nat)" for s
    using that by (induction s) (simp_all add: utf8_lead_def)
  show ?thesis using assms utf8_step_low [OF assms(1)] run by (cases s) (auto simp: utf8_run_None)
qed

lemma json_char_run:
  assumes "utf8_inside st"
  shows "foldl utf8_step st (json_char c) = utf8_step st c"
proof (cases "json_char c = [c]")
  case False
  have h: "\<forall>x \<in> set (hex4 n). of_char x < (0x80 :: nat)" if "n < 256" for n
    using that by (auto simp: hex4_def intro!: digit_cases)
  have c: "of_char c < (0x80 :: nat)" using False by (auto split: if_splits)
  have "\<forall>x \<in> set (json_char c). of_char x < (0x80 :: nat)" using False h [of "of_char c"] by (auto split: if_splits)
  moreover have "json_char c \<noteq> []" by simp
  ultimately show ?thesis using utf8_run_low [OF assms] utf8_step_low [OF assms c] by metis
qed (simp del: json_char.simps)

lemma json_chars_run: "utf8_inside st \<Longrightarrow> foldl utf8_step st (concat (map json_char s)) = foldl utf8_step st s"
  by (induction s arbitrary: st) (simp_all add: json_char_run utf8_step_inside del: json_char.simps)

lemma utf8_ok_quoted: "utf8_ok (concat (map json_char s) @ [CHR 0x22]) = utf8_ok s"
proof -
  have 0: "utf8_inside (Some [])" by (simp add: utf8_inside_def)
  have "utf8_inside (foldl utf8_step st s)" if "utf8_inside st" for st
    using that by (induction s arbitrary: st) (simp_all add: utf8_step_inside)
  from utf8_step_low [OF this [OF 0], of "CHR 0x22"] show ?thesis
    by (simp add: utf8_ok_def json_chars_run [OF 0] del: json_char.simps)
qed

text \<open>
  Theorem C29.  What the tool prints for a name is one JSON string exactly when the name is UTF-8: a
  reader of RFC 8259 strings then reads back the bytes of the name up to its terminator and stops at
  the closing quotation mark, so no name can break out of its string; for any other name the reader
  reports an error.
\<close>

theorem json_str_roundtrip:
  "json_read (json_str s @ rest) =
     (let name = takeWhile (\<lambda>c. c \<noteq> CHR 0x00) s in if utf8_ok name then Some (name, rest) else None)"
proof -
  let ?t = "takeWhile (\<lambda>c. c \<noteq> CHR 0x00) s"
  have "json_body (concat (map json_char t) @ CHR 0x22 # rest) = Some (t, rest)" for t
    by (induction t) (simp_all add: json_body_char cons_read_def del: json_char.simps)
  moreover have "utf8_ok (concat (map json_char ?t) @ [CHR 0x22]) = utf8_ok ?t" by (rule utf8_ok_quoted)
  ultimately show ?thesis by (simp add: json_read_def json_str_def Let_def del: json_char.simps)
qed

section \<open>Errors of use\<close>

lemma file_exists_missing:
  assumes "file_exists w path = (ex, w1)" and "w_dir w path = None"
  shows "\<not> ex \<and> same_fs w w1"
proof -
  obtain r w0 where r: "next_reply w = (r, w0)" by fastforce
  note same = next_reply_same [OF r]
  show ?thesis
    using assms same by (auto simp: file_exists_def sys_open_def r same_fs_simps [OF same] Let_def split: sys_reply.splits)
qed

lemma open_db_missing:
  assumes "w_dir w path = None"
  obtains err w1 where "open_db w path = (None, err, w1)" "same_fs w w1"
proof -
  obtain ex w1 where e: "file_exists w path = (ex, w1)" by fastforce
  show thesis using that file_exists_missing [OF e assms] e by (simp add: open_db_def)
qed

lemma commands_missing:
  assumes "w_dir w path = None"
  shows "\<exists>out err w'. cmd_info w path json = Some (1, out, err, w') \<and> same_fs w w'"
    "\<exists>out err w'. cmd_list w path json = Some (1, out, err, w') \<and> same_fs w w'"
    "\<exists>out err w'. cmd_stats w path queue json = Some (1, out, err, w') \<and> same_fs w w'"
    "\<exists>out err w'. cmd_compact w path force dry = Some (1, out, err, w') \<and> same_fs w w'"
    "\<exists>out err w'. cmd_verify w path json = Some (1, out, err, w') \<and> same_fs w w'"
proof -
  obtain err w1 where o: "open_db w path = (None, err, w1)" "same_fs w w1" by (rule open_db_missing [OF assms])
  show "\<exists>out err w'. cmd_info w path json = Some (1, out, err, w') \<and> same_fs w w'"
    "\<exists>out err w'. cmd_list w path json = Some (1, out, err, w') \<and> same_fs w w'"
    "\<exists>out err w'. cmd_stats w path queue json = Some (1, out, err, w') \<and> same_fs w w'"
    "\<exists>out err w'. cmd_compact w path force dry = Some (1, out, err, w') \<and> same_fs w w'"
    "\<exists>out err w'. cmd_verify w path json = Some (1, out, err, w') \<and> same_fs w w'"
    using o by (simp_all add: cmd_info_def cmd_list_def cmd_stats_def cmd_compact_def cmd_verify_def)
qed

definition is_help :: "string \<Rightarrow> bool" where
  "is_help cmd \<longleftrightarrow> cmd = ''help'' \<or> cmd = ''--help'' \<or> cmd = ''-h''"

text \<open>
  Theorem C24.  The tool creates no database: when the path on the command line names no file, a run of
  any command with any flags, whatever fails, ends with exit code 1 or 2 and has changed no file, no
  directory entry and no lock.
\<close>

theorem tool_creates_nothing:
  assumes "parse_args rest no_args = Inr a" and "\<not> is_help cmd"
    and "case t_path a of Some path \<Rightarrow> w_dir w path = None | None \<Rightarrow> True"
  shows "\<exists>code out err w'. tool_main w (prog # cmd # rest) = Some (code, out, err, w') \<and> (code = 1 \<or> code = 2) \<and> same_fs w w'"
proof (cases "t_path a")
  case None
  then show ?thesis
    using assms(1,2) by (auto simp: tool_main_def dispatch_def Let_def is_help_def guarded_def check_args_def check_compact_def)
next
  case (Some path)
  then have "w_dir w path = None" using assms(3) by simp
  note m = commands_missing [OF this]
  have "\<exists>code out err w'. guarded w chk r = Some (code, out, err, w') \<and> (code = 1 \<or> code = 2) \<and> same_fs w w'"
    if "\<exists>out err w'. r = Some (1, out, err, w') \<and> same_fs w w'" for chk r
    using that by (auto simp: guarded_def split: option.split)
  note g = this [OF m(1)] this [OF m(2)] this [OF m(3)] this [OF m(4)] this [OF m(5)]
  show ?thesis using assms(1,2) Some g by (simp add: tool_main_def dispatch_def Let_def is_help_def)
qed

theorem tool_creates_nothing_witness:
  "\<exists>code out err w'. tool_main blank_world [''qdbtool'', ''compact'', ''--force'', ''--'', ''-x''] = Some (code, out, err, w') \<and>
     (code = 1 \<or> code = 2) \<and> same_fs blank_world w'"
  by (rule tool_creates_nothing [of _ "no_args\<lparr>t_path := Some ''-x'', t_force := True, t_end_of_flags := True\<rparr>"])
    (simp_all add: no_args_def is_help_def)

section \<open>info\<close>

lemma file_exists_calm:
  assumes "calm w" and "w_dir w path = Some j"
  obtains w1 where "file_exists w path = (True, w1)" "calm w1" "w_dir w1 = w_dir w" "w_ino w1 = w_ino w"
    "w_next_ino w1 = w_next_ino w" "\<forall>i. w_lock w i = None \<longrightarrow> w_lock w1 i = None"
proof -
  obtain res w0 where o: "sys_open w path False False = (res, w0)" by fastforce
  note s = sys_open_calm [OF assms(1) o]
  have r: "res = Inr (w_next_fd w)" "w_dir w0 = w_dir w" "w_ino w0 = w_ino w" "w_next_ino w0 = w_next_ino w" using s(4) [OF assms(2)] by auto
  show thesis
    by (rule that [of "sys_close w0 (w_next_fd w)"]) (use o r s(1,2) in \<open>simp_all add: file_exists_def sys_close_def drop_lock_def\<close>)
qed

lemma open_db_ok:
  assumes F: "file_ok (ino_data (w_ino w j)) h rs nl st A" and c: "calm w" "dir_ok w" "lock_free w (path @ ''-lock'')"
    and p: "w_dir w path = Some j" "w_dir w (path @ ''-wal'') = None"
  obtains db w1 where "open_db w path = (Some db, [], w1)" "db_ok w1 db j rs st A" "db_next_lease_id db = nl" "calm w1" "w_dir w1 path = Some j"
proof -
  obtain w0 where e: "file_exists w path = (True, w0)" "calm w0" "w_dir w0 = w_dir w" "w_ino w0 = w_ino w"
    "w_next_ino w0 = w_next_ino w" "\<forall>i. w_lock w i = None \<longrightarrow> w_lock w0 i = None" by (rule file_exists_calm [OF c(1) p(1)])
  have "dir_ok w0" "lock_free w0 (path @ ''-lock'')" using c(2,3) e(3,5,6) by (auto simp: dir_ok_def lock_free_def split: option.splits)
  from open_file_ok [OF _ e(2) this, of j h rs nl st A None] obtain db w1 where
    "qdb_open_err w0 (Some path) None = (Some db, QDB_OK, w1)" "db_ok w1 db j rs st A" "db_next_lease_id db = nl" "calm w1" "w_dir w1 path = Some j"
    using F p e(3,4) by auto
  then show thesis using that e(1) by (simp add: open_db_def qdb_open_def)
qed

text \<open>The JSON object of \<open>info\<close>, in terms of the specification.\<close>

definition info_object :: "string \<Rightarrow> nat \<Rightarrow> astate \<Rightarrow> string" where
  \<open>info_object path sz A =
     ''{"file":'' @ json_str path @ '',"size_bytes":'' @ dec sz @
     '',"queues":'' @ dec (card (a_queues A)) @
     '',"pending":'' @ dec (card (a_status A (\<lambda>s. s = APending))) @
     '',"leased":'' @ dec (card (a_status A is_leased)) @
     '',"acked":'' @ dec (card (a_status A (\<lambda>s. s = AAcked))) @
     '',"compact_advised":'' @ (if 2 * card (a_status A (\<lambda>s. s = AAcked)) > card (dom (a_msgs A)) then ''true'' else ''false'') @ line ''}''\<close>

text \<open>
  Theorem C25.  End to end: \<open>info --json\<close> on a database file, in a run without failures, exits with 0
  and prints the size of the file and the exact numbers of queues and of pending, leased and
  acknowledged messages; afterwards the file still holds the same records, the same state and the
  same lease counter.
\<close>

theorem tool_info_exact:
  assumes "file_ok (ino_data (w_ino w j)) h rs nl st A" and "calm w" and "dir_ok w" and "lock_free w (path @ ''-lock'')"
    and "w_dir w path = Some j" and "w_dir w (path @ ''-wal'') = None"
    and "card (dom (a_msgs A)) < 2 ^ 32" and "card (a_queues A) < 2 ^ 64"
  shows "\<exists>w' h'. tool_main w [prog, ''info'', ''--json'', ''--'', path] = Some (0, info_object path (length (ino_data (w_ino w' j))) A, [], w') \<and>
    file_ok (ino_data (w_ino w' j)) (h' :: db) rs nl st A \<and> w_dir w' path = Some j"
proof -
  obtain db w1 where o: "open_db w path = (Some db, [], w1)" "db_ok w1 db j rs st A" "db_next_lease_id db = nl" "calm w1" "w_dir w1 path = Some j"
    by (rule open_db_ok [OF assms(1-6)])
  obtain sz w2 where s: "qdb_stats w1 (Some db) (Some zero_stats) = Some (QDB_OK, Some \<lparr>s_queue_count = of_nat (card (a_queues A)),
      s_pending_count = of_nat (card (a_status A (\<lambda>s. s = APending))), s_leased_count = of_nat (card (a_status A is_leased)),
      s_acked_count = of_nat (card (a_status A (\<lambda>s. s = AAcked))), s_file_size_bytes = sz\<rparr>, w2)" "same_fs w1 w2"
    "unat sz = length (ino_data (w_ino w1 j))"
  proof -
    obtain rc sz w2 where f: "qdb__file_size w1 (db_fd db) = (rc, sz, w2)" by (metis prod_cases3)
    have "unat sz = length (ino_data (w_ino w1 j))" "same_fs w1 w2"
      using qdb__file_size_spec [OF f db_okD(1) [OF o(2)]] o(4) db_okD(2) [OF o(2)] by (simp_all add: unat_of_nat_u64)
    then show thesis using that stats_values [OF o(2) assms(7), of zero_stats] f by simp
  qed
  have ok2: "db_ok w2 db j rs st A" "calm w2" "w_dir w2 path = Some j"
    using db_ok_same [OF o(2) s(2)] calm_same_fs [OF s(2) o(4)] same_fs_simps [OF s(2)] o(5) by simp_all
  obtain w3 where r: "qdb_compact_recommended w2 (Some db) (Some False) = Some (QDB_OK,
      Some (2 * card (a_status A (\<lambda>s. s = AAcked)) > card (dom (a_msgs A))), w3)" "same_fs w2 w3"
    using recommended_values [OF ok2(1) assms(7)] by blast
  have ok3: "db_ok w3 db j rs st A" "calm w3" "w_dir w3 path = Some j"
    using db_ok_same [OF ok2(1) r(2)] calm_same_fs [OF r(2) ok2(2)] same_fs_simps [OF r(2)] ok2(3) by simp_all
  let ?w = "qdb_close w3 (Some db)"
  obtain h' :: db where c: "file_ok (ino_data (w_ino ?w j)) h' rs nl st A" "length (ino_data (w_ino ?w j)) = length (ino_data (w_ino w3 j))"
    "w_dir ?w path = Some j" using close_file [OF ok3(1,2)] o(3) ok3(3) by metis
  have len: "length (ino_data (w_ino ?w j)) = unat sz" using c(2) s(2,3) r(2) by (simp add: same_fs_simps)
  note P = status_partition [OF absRD(1) [OF db_okD(13) [OF o(2)]]]
  have u: "unat (of_nat m :: u64) = m" if "m \<le> card (dom (a_msgs A))" for m using that assms(7) by (simp add: unat_of_nat_u64)
  have "cmd_info w path True = Some (0, info_object path (length (ino_data (w_ino ?w j))) A, [], ?w)"
    using o(1) s(1) r(1) P assms(8) by (simp add: cmd_info_def info_text_def info_object_def llu_def len u unat_of_nat_u64)
  moreover have "tool_main w [prog, ''info'', ''--json'', ''--'', path] = cmd_info w path True"
    by (simp add: tool_main_def dispatch_def guarded_def check_args_def no_args_def)
  ultimately show ?thesis using c(1,3) by auto
qed

theorem tool_info_exact_witness:
  "\<exists>w' h' rs st. tool_main (file_world (ino_data (w_ino leased_world 0))) [''qdbtool'', ''info'', ''--json'', ''--'', ''q''] =
      Some (0, info_object ''q'' (length (ino_data (w_ino w' 0))) leased_spec, [], w') \<and> file_ok (ino_data (w_ino w' 0)) (h' :: db) rs 2 st leased_spec"
proof -
  obtain rs st where ok: "db_ok leased_world leased_db 0 rs st leased_spec" "db_next_lease_id leased_db = 2" by (rule leased_db_ok)
  let ?w = "file_world (ino_data (w_ino leased_world 0))"
  have F: "file_ok (ino_data (w_ino ?w 0)) leased_db rs 2 st leased_spec"
    using db_ok_file [OF ok(1) insertI1 db_okD(2) [OF ok(1)]] ok(2) by simp
  have "dom (a_msgs leased_spec) = {1}" "a_queues leased_spec = {[106]}"
    by (auto simp: leased_spec_def one_spec_def a_lease_def a_push_def a_empty_def split: if_splits)
  then have "card (dom (a_msgs leased_spec)) < 2 ^ 32" "card (a_queues leased_spec) < 2 ^ 64" by simp_all
  from tool_info_exact [OF F file_world_simps(1-5) this] show ?thesis by blast
qed

end
