(* ===== verification/Spec2Isabelle.thy ===== *)
theory Spec2Isabelle
  imports Api ReplayProps ToolProps
begin

text \<open>
  A verification development of QDB, an embedded durable message queue in C.

  \<^bold>\<open>The program.\<close>  A database is one file: a header page of 4096 bytes and an append-only log of
  checksummed records.  Producers push messages into named queues; consumers pop a message, which
  leases it to them until a deadline, and acknowledge it or return it; a lease that runs out returns
  the message.  Every operation appends one record, syncs, patches the header and only then changes
  the tables in memory.  Opening a database locks it, cuts off what was written past the committed log
  end, validates the log and rebuilds the tables by replaying it.  Compaction copies the live messages
  to a staging file and renames it over the database.  A command line tool inspects and compacts.

  \<^bold>\<open>Theories and sources.\<close>  Below the directory \<^verbatim>\<open>src/\<close> of the repository:

  \<^item> \<open>Prelude\<close>: words, slices and splices of byte lists, the collections of simplification rules.
  \<^item> \<open>Crc32\<close>: \<^verbatim>\<open>src/qdb_crc32.c\<close>, with the lazily built table as an explicit state.
  \<^item> \<open>Encoding\<close>: the little-endian accessors and \<^verbatim>\<open>struct qdb\<close> of \<^verbatim>\<open>src/qdb_internal.h\<close>.
  \<^item> \<open>Platform\<close>: the POSIX half of \<^verbatim>\<open>src/qdb_platform.c\<close> over system calls on a \<open>world\<close>: directory, inodes with
    their contents and the contents a crash may bring back, descriptors, locks, clock, and scripts that
    say which system call fails, is short or is interrupted and which allocation fails.
  \<^item> \<open>RecordIO\<close>: \<^verbatim>\<open>src/qdb_io.c\<close>, header page and records.
  \<^item> \<open>HashTable\<close>, \<open>State\<close>, \<open>Pending\<close>: \<^verbatim>\<open>src/qdb_state.c\<close> and its header.  \<open>HashTable\<close> states what a bucket table
    promises as the locales \<open>table\<close> and \<open>removable_table\<close>; \<open>State\<close> interprets them on the tables of
    messages, queues and leases; \<open>Pending\<close> relates the doubly linked pending lists to sequences.
  \<^item> \<open>QueueSpec\<close>, \<open>Refine\<close>: the abstract specification \<open>astate\<close> (messages with a status, one pending sequence
    per queue), its invariant \<open>ainv\<close>, and the refinement relation \<open>absR\<close> between tables and specification.
  \<^item> \<open>Replay\<close>, \<open>ReplayProps\<close>: \<^verbatim>\<open>src/qdb_replay.c\<close>, the handlers and the loop over the file, and \<open>rec_fold\<close>, what
    the records mean.
  \<^item> \<open>Ops\<close>, \<open>Durable\<close>, \<open>PushProps\<close>, \<open>PopProps\<close>, \<open>AckProps\<close>: the message operations of \<^verbatim>\<open>src/qdb.c\<close>; \<open>Durable\<close> has the
    invariant \<open>db_ok\<close> of a handle and the lemma on one logged operation that all of them use.
  \<^item> \<open>Lifecycle\<close>, \<open>Recovery\<close>, \<open>RecoveryProps\<close>: open, WAL replay, validation, truncation and close.
  \<^item> \<open>Compact\<close>, \<open>CompactProps\<close>: compaction.
  \<^item> \<open>Stats\<close>: statistics, queue list, compaction hint, error texts.
  \<^item> \<open>Tool\<close>, \<open>ToolProps\<close>: \<^verbatim>\<open>tools/qdbtool.c\<close>.
  \<^item> \<open>Events\<close>: the calls of the interface as events (arguments, return code, message handed out), the
    specification \<open>q_event\<close> of the events a queue allows, the state \<open>abs_q\<close> a database stands for, and the
    locale \<open>trace_refinement\<close>.
  \<^item> \<open>Api\<close>: runs of calls, with \<open>trace_refinement\<close> and the locale \<open>simulation\<close> interpreted on them.

  \<^bold>\<open>Correspondence.\<close>  A struct is a record, an enumeration a datatype, a fixed-width integer a word of
  its width; a counter of type \<open>int\<close> is an integer kept at 32 bits.  A return code is the C value, a result through a pointer is returned beside it, a NULL
  pointer is \<open>None\<close>.  Functions that the C code composes are composed the same way; a loop is a function
  with a termination proof, named after the function it belongs to.  Two things have the value \<open>None\<close>: a
  use of a NULL state, and the walk along a cyclic pending list in compaction, which is a partial
  function.  The dynamic arrays of the C code are lists; \<open>free\<close> has no counterpart.

  \<^bold>\<open>What is shown.\<close>
  \<^item> The checksum routine is the bitwise CRC-32, incremental use included, and detects short bursts.
  \<^item> Reads and writes retry, never touch another file and fail without half results being taken for
    whole ones; what is read back is what was written; a scan accepts only complete, checksummed records.
  \<^item> Each operation does the transition of the specification, logs one record and keeps \<open>db_ok\<close>; or it
    reports an error, and what is left behind is stated: nothing when the append failed, and exactly the
    record in the log with the log end of the handle past it when the header patch failed.  Pops deliver the head of a queue with the bytes that
    were pushed; only the current lease can end a lease; expiry returns exactly the overdue messages.
  \<^item> In runs without failures \<open>db_ok\<close> holds in every reachable state, every run is a run of the specification
    with the same events, an acknowledged message never comes back, a queue drains in order.
  \<^item> After a crash before the header patch of an operation, opening restores the state before it, even
    when its record was already durable; close and open are inverse; a locked database is refused; a
    new one is empty.
  \<^item> Replay computes what the records mean, builds only well-formed tables from any bytes, and refuses a
    lease that ends twice.
  \<^item> Compaction keeps the live messages, is atomic under every failure, and returns.
  \<^item> The statistics count exactly; the queue list stays within the caller's array; the tool prints these
    numbers, quotes names so that they can be read back exactly when they are UTF-8, and creates nothing
    where there is no file.

  \<^bold>\<open>Bounds.\<close>  \<open>calm\<close> is a run in which no system call and no allocation fails, though calls may be short.
  \<open>room\<close> leaves \<open>2\<^sup>27\<close> bytes before the largest file offset, more than the largest record; \<open>small\<close> adds that
  fewer than \<open>2\<^sup>32\<close> ids and \<open>2\<^sup>63\<close> lease ids are used up, which keeps the 32-bit counters of a queue exact
  (the count one expiry returns, an \<open>int\<close>, is exact below \<open>2\<^sup>31\<close> and taken modulo \<open>2\<^sup>32\<close> beyond, where C
  leaves it undefined);
  \<open>fits\<close> says the same of the file compaction writes.  Results that need no such bound have none.

  \<^bold>\<open>Not modelled.\<close>  The Windows half of \<^verbatim>\<open>src/qdb_platform.c\<close> (the same interface over system calls of
  another platform) and, for the same reason, the macOS branch of \<open>qdb__file_sync\<close>, which the
  preprocessor leaves out elsewhere.  The Python binding, which is glue around the CPython interface.  The fuzzing
  harnesses, benchmarks, examples and tests, which drive the library.  \<^verbatim>\<open>qdb_version\<close>, whose text the build
  generates.  Concurrency inside a process: the library has no locks of its own and leaves it to the caller.
\<close>

end
